(* ===== verification/Prelude.thy ===== *)
theory Prelude
  imports Main "HOL-Library.Word"
begin

text \<open>
  What the components share: results that may carry a C++ exception or undefined behaviour,
  the parts of \<open>std::string\<close>, \<open>std::stoi\<close>, \<open>std::stoul\<close> and \<open>std::to_string\<close> that the
  sources call, unsigned 64-bit size arithmetic, and little-endian encodings of 16-bit and
  32-bit integers, with their lemmas. A \<open>std::string\<close> is a list of bytes, modelled as
  a \<^typ>\<open>string\<close>, whose characters are 8-bit values.
\<close>

unbundle bit_operations_syntax

named_theorems cxx_string_simps \<open>facts about the modelled string functions\<close>
named_theorems codec_simps \<open>facts about byte encodings\<close>

section \<open>Exceptions and undefined behaviour\<close>

datatype cxx_error =
    InvalidArgument        \<comment> \<open>\<open>std::invalid_argument\<close>\<close>
  | OutOfRange             \<comment> \<open>\<open>std::out_of_range\<close>\<close>
  | RuntimeError string    \<comment> \<open>\<open>std::runtime_error\<close>\<close>
  | Undefined              \<comment> \<open>undefined behaviour: nothing is promised after it\<close>

type_synonym 'a result = "cxx_error + 'a"

definition rbind :: "'a result \<Rightarrow> ('a \<Rightarrow> 'b result) \<Rightarrow> 'b result" where
  "rbind r f = (case r of Inl e \<Rightarrow> Inl e | Inr x \<Rightarrow> f x)"

lemma rbind_simps [simp]:
  "rbind (Inl e) f = Inl e"
  "rbind (Inr x) f = f x"
  by (simp_all add: rbind_def)

lemma rbind_Inr_iff: "rbind r f = Inr y \<longleftrightarrow> (\<exists>x. r = Inr x \<and> f x = Inr y)"
  by (cases r) auto

section \<open>Sizes\<close>

definition size_max :: nat where
  "size_max = 2 ^ 64 - 1"

text \<open>\<open>size_t\<close> is 64 bits wide: a signed value is converted to it modulo \<open>2 ^ 64\<close>.\<close>

definition to_size :: "int \<Rightarrow> nat" where
  "to_size i = nat (i mod 2 ^ 64)"

lemma to_size_nonneg: "0 \<le> i \<Longrightarrow> i < 2 ^ 64 \<Longrightarrow> to_size i = nat i"
  by (simp add: to_size_def)

lemma to_size_le_nat: "0 \<le> i \<Longrightarrow> to_size i \<le> nat i"
  by (simp add: to_size_def nat_le_iff zmod_le_nonneg_dividend)

section \<open>Strings\<close>

definition crlf :: string where
  "crlf = [CHR 0x0D, CHR 0x0A]"

lemma length_crlf [simp]: "length crlf = 2"
  by (simp add: crlf_def)

text \<open>\<open>std::string::find\<close>: the least position from \<open>pos\<close> on at which \<open>pat\<close> occurs.\<close>

fun find_sub :: "string \<Rightarrow> string \<Rightarrow> nat option" where
  "find_sub pat [] = (if pat = [] then Some 0 else None)"
| "find_sub pat (c # s) =
     (if take (length pat) (c # s) = pat then Some 0 else map_option Suc (find_sub pat s))"

definition str_find :: "string \<Rightarrow> string \<Rightarrow> nat \<Rightarrow> nat option" where
  "str_find s pat pos =
     (if length s < pos then None else map_option ((+) pos) (find_sub pat (drop pos s)))"

text \<open>\<open>std::string::substr\<close> throws when the start is past the end.\<close>

definition substr :: "string \<Rightarrow> nat \<Rightarrow> nat \<Rightarrow> string result" where
  "substr s pos n = (if length s < pos then Inl OutOfRange else Inr (take n (drop pos s)))"

lemma substr_Inr [simp]: "pos \<le> length s \<Longrightarrow> substr s pos n = Inr (take n (drop pos s))"
  by (simp add: substr_def)

lemma find_sub_Some:
  "find_sub pat s = Some i \<Longrightarrow> take (length pat) (drop i s) = pat \<and> i + length pat \<le> length s"
proof (induction s arbitrary: i)
  case Nil
  then show ?case by (simp split: if_splits)
next
  case (Cons c s)
  show ?case
  proof (cases "take (length pat) (c # s) = pat")
    case True
    have "length pat \<le> length (c # s)"
      using True by (metis length_take min.cobounded1)
    with True Cons.prems show ?thesis by auto
  next
    case False
    with Cons.prems obtain j where "find_sub pat s = Some j" and "i = Suc j"
      by auto
    with Cons.IH show ?thesis by auto
  qed
qed

lemma str_find_Some:
  assumes "str_find s pat pos = Some i"
  shows "pos \<le> i" and "i + length pat \<le> length s"
    and "take (length pat) (drop i s) = pat"
proof -
  from assms obtain j where pos: "pos \<le> length s" and j: "find_sub pat (drop pos s) = Some j"
    and i: "i = pos + j"
    by (auto simp: str_find_def split: if_splits)
  from find_sub_Some [OF j] pos i
  show "pos \<le> i" and "i + length pat \<le> length s" and "take (length pat) (drop i s) = pat"
    by (auto simp: add.commute)
qed

text \<open>A separator that starts with a character the text does not contain is found at its end.\<close>

lemma find_sub_fresh:
  "c \<notin> set xs \<Longrightarrow> find_sub (c # p) (xs @ (c # p) @ rest) = Some (length xs)"
  by (induction xs) auto

lemma find_sub_absent: "c \<notin> set xs \<Longrightarrow> find_sub (c # p) xs = None"
  by (induction xs) auto

lemma str_find_fresh:
  assumes "c \<notin> set xs"
  shows "str_find (pre @ xs @ (c # p) @ rest) (c # p) (length pre) = Some (length pre + length xs)"
  using find_sub_fresh [OF assms, of p rest] by (simp add: str_find_def)

section \<open>Decimal numbers\<close>

definition is_digit :: "char \<Rightarrow> bool" where
  "is_digit c \<longleftrightarrow> 48 \<le> (of_char c :: nat) \<and> (of_char c :: nat) \<le> 57"

text \<open>\<open>isspace\<close> in the "C" locale: blank, and the control characters 9 to 13.\<close>

definition is_space :: "char \<Rightarrow> bool" where
  "is_space c \<longleftrightarrow> (of_char c :: nat) = 32 \<or> (9 \<le> (of_char c :: nat) \<and> (of_char c :: nat) \<le> 13)"

definition digit :: "nat \<Rightarrow> char" where
  "digit n = char_of (48 + n)"

text \<open>\<open>std::to_string\<close> of an unsigned value.\<close>

fun to_string :: "nat \<Rightarrow> string" where
  "to_string n = (if n < 10 then [digit n] else to_string (n div 10) @ [digit (n mod 10)])"

declare to_string.simps [simp del]

definition dec_value :: "string \<Rightarrow> nat" where
  "dec_value ds = foldl (\<lambda>v c. 10 * v + (of_char c - 48)) 0 ds"

text \<open>The scanner of \<open>strtol\<close> and \<open>strtoul\<close>: blanks, an optional sign, digits.\<close>

definition scan_sign :: "string \<Rightarrow> bool \<times> string" where
  "scan_sign s =
     (case s of
        [] \<Rightarrow> (False, [])
      | c # t \<Rightarrow> if c = CHR ''-'' then (True, t) else if c = CHR ''+'' then (False, t) else (False, s))"

definition scan_int :: "string \<Rightarrow> (bool \<times> nat) option" where
  "scan_int s =
     (let (neg, t) = scan_sign (dropWhile is_space s); ds = takeWhile is_digit t
      in if ds = [] then None else Some (neg, dec_value ds))"

definition int_max :: int where "int_max = 2 ^ 31 - 1"
definition int_min :: int where "int_min = - (2 ^ 31)"

text \<open>\<open>std::stoi\<close>: what follows the digits is ignored; no digits or a value that is not an
  \<open>int\<close> throws.\<close>

definition stoi :: "string \<Rightarrow> int result" where
  "stoi s =
     (case scan_int s of
        None \<Rightarrow> Inl InvalidArgument
      | Some (neg, n) \<Rightarrow>
          let v = (if neg then - int n else int n)
          in if v < int_min \<or> int_max < v then Inl OutOfRange else Inr v)"

text \<open>\<open>std::stoul\<close>: a minus sign negates modulo \<open>2 ^ 64\<close>.\<close>

definition stoul :: "string \<Rightarrow> nat result" where
  "stoul s =
     (case scan_int s of
        None \<Rightarrow> Inl InvalidArgument
      | Some (neg, n) \<Rightarrow>
          if size_max < n then Inl OutOfRange
          else Inr (if neg then to_size (- int n) else n))"

lemma digit_nth: "n < 10 \<Longrightarrow> digit n = ''0123456789'' ! n"
proof -
  assume "n < 10"
  moreover have "\<forall>n < 10. digit n = ''0123456789'' ! n" by code_simp
  ultimately show ?thesis by blast
qed

text \<open>Rules under which the simplifier prints a literal number.\<close>

lemmas dec_eval = to_string.simps digit_nth

lemma of_char_digit [simp]: "n < 10 \<Longrightarrow> (of_char (digit n) :: nat) = 48 + n"
  by (simp add: digit_def)

lemma is_digit_digit [simp]: "n < 10 \<Longrightarrow> is_digit (digit n)"
  by (simp add: is_digit_def)

lemma to_string_digits: "c \<in> set (to_string n) \<Longrightarrow> is_digit c"
proof (induction n rule: to_string.induct)
  case (1 n)
  show ?case
  proof (cases "n < 10")
    case True
    with "1.prems" show ?thesis by (simp add: to_string.simps [of n])
  next
    case False
    with 1 show ?thesis by (auto simp: to_string.simps [of n])
  qed
qed

lemma to_string_nonempty [simp]: "to_string n \<noteq> []"
  by (subst to_string.simps) simp

lemma dec_value_snoc [simp]: "dec_value (ds @ [c]) = 10 * dec_value ds + (of_char c - 48)"
  by (simp add: dec_value_def)

lemma dec_value_to_string [simp]: "dec_value (to_string n) = n"
proof (induction n rule: to_string.induct)
  case (1 n)
  show ?case
  proof (cases "n < 10")
    case True
    then show ?thesis by (simp add: to_string.simps [of n] dec_value_def)
  next
    case False
    with 1 show ?thesis by (simp add: to_string.simps [of n])
  qed
qed

lemma length_to_string: "length (to_string n) \<le> Suc n"
proof (induction n rule: to_string.induct)
  case (1 n)
  then show ?case by (cases "n < 10") (auto simp: to_string.simps [of n])
qed

lemma digit_not_space: "is_digit c \<Longrightarrow> \<not> is_space c"
  by (simp add: is_digit_def is_space_def)

lemma digit_not_sign: "is_digit c \<Longrightarrow> c \<noteq> CHR ''-'' \<and> c \<noteq> CHR ''+'' \<and> c \<noteq> CHR 0x0D \<and> c \<noteq> CHR 0x0A"
  by (auto simp: is_digit_def)

text \<open>Reading back a printed number, whatever follows it, as long as no digit does.\<close>

lemma scan_int_to_string:
  assumes "rest = [] \<or> \<not> is_digit (hd rest)"
  shows "scan_int (to_string n @ rest) = Some (False, n)"
proof -
  obtain c ds where cds: "to_string n = c # ds"
    using to_string_nonempty [of n] by (cases "to_string n") simp_all
  have c: "is_digit c"
    using cds to_string_digits [of c n] by simp
  have tw: "takeWhile is_digit (to_string n @ rest) = to_string n"
    using assms by (cases rest) (auto simp: takeWhile_append to_string_digits)
  have "dropWhile is_space (to_string n @ rest) = to_string n @ rest"
    using cds c by (simp add: digit_not_space)
  moreover have "scan_sign (to_string n @ rest) = (False, to_string n @ rest)"
    using cds c digit_not_sign [OF c] by (simp add: scan_sign_def)
  ultimately show ?thesis
    using tw by (simp add: scan_int_def)
qed

lemma stoi_to_string:
  assumes "n < 2 ^ 31" and "rest = [] \<or> \<not> is_digit (hd rest)"
  shows "stoi (to_string n @ rest) = Inr (int n)"
  using assms by (simp add: stoi_def scan_int_to_string int_max_def int_min_def)

lemma stoul_to_string:
  assumes "n < 2 ^ 64" and "rest = [] \<or> \<not> is_digit (hd rest)"
  shows "stoul (to_string n @ rest) = Inr n"
  using assms by (simp add: stoul_def scan_int_to_string size_max_def)

lemma stoi_range: "stoi s = Inr v \<Longrightarrow> int_min \<le> v \<and> v \<le> int_max"
  by (auto simp: stoi_def Let_def split: option.splits if_splits)

section \<open>Little-endian integers\<close>

text \<open>\<open>static_cast<char>(w)\<close> keeps the low eight bits.\<close>

definition chr_of :: "'a::len word \<Rightarrow> char" where
  "chr_of w = char_of (unat w)"

definition le16 :: "16 word \<Rightarrow> string" where
  "le16 w = [chr_of (w AND 0xFF), chr_of (drop_bit 8 w AND 0xFF)]"

definition rd16 :: "char \<Rightarrow> char \<Rightarrow> 16 word" where
  "rd16 a b = of_char a OR push_bit 8 (of_char b)"

definition le32 :: "32 word \<Rightarrow> string" where
  "le32 w = [chr_of (w AND 0xFF), chr_of (drop_bit 8 w AND 0xFF),
             chr_of (drop_bit 16 w AND 0xFF), chr_of (drop_bit 24 w AND 0xFF)]"

definition rd32 :: "char \<Rightarrow> char \<Rightarrow> char \<Rightarrow> char \<Rightarrow> 32 word" where
  "rd32 a b c d =
     of_char a OR push_bit 8 (of_char b) OR push_bit 16 (of_char c) OR push_bit 24 (of_char d)"

lemma of_char_nat: "(of_char c :: 'a::comm_semiring_1) = of_nat (of_char c)"
  by (simp add: of_char_def)

lemma of_char_char_of_nat: "(of_char (char_of (n :: nat)) :: 'a::comm_semiring_1) = of_nat (n mod 256)"
  by (subst of_char_nat) simp

lemma of_char_chr_of:
  assumes "w AND 0xFF = (w :: 'a::len word)"
  shows "of_char (chr_of w) = w"
proof -
  have "w = take_bit 8 w"
    using assms by (simp add: take_bit_eq_mask mask_eq_exp_minus_1)
  then have "unat w = take_bit 8 (unat w)"
    by (metis unsigned_take_bit_eq)
  then have "unat w mod 256 = unat w"
    by (simp add: take_bit_eq_mod)
  then show ?thesis
    by (subst of_char_nat) (simp add: chr_of_def)
qed

lemma and_FF: "(w :: 'a::len word) AND 0xFF = take_bit 8 w"
  by (simp add: take_bit_eq_mask mask_eq_exp_minus_1)

lemma of_char_less: "8 \<le> LENGTH('a::len) \<Longrightarrow> (of_char c :: nat) < 2 ^ LENGTH('a)"
proof -
  assume "8 \<le> LENGTH('a)"
  then have "(2::nat) ^ 8 \<le> 2 ^ LENGTH('a)" by (rule power_increasing) simp
  moreover have "(of_char c :: nat) < 2 ^ 8" by simp
  ultimately show ?thesis by (rule order.strict_trans2 [rotated])
qed

lemma unat_of_char: "8 \<le> LENGTH('a::len) \<Longrightarrow> unat (of_char c :: 'a word) = of_char c"
  using of_char_less [where 'a = 'a, of c]
  by (simp add: of_char_nat [where 'a = "'a word"] unat_of_nat)

lemma chr_of_of_char: "8 \<le> LENGTH('a::len) \<Longrightarrow> chr_of (of_char c :: 'a word) = c"
  by (simp add: chr_of_def unat_of_char)

lemma take_bit_of_char:
  "8 \<le> LENGTH('a::len) \<Longrightarrow> take_bit 8 (of_char c :: 'a word) = of_char c"
proof -
  have "(of_char c :: nat) < 256" by simp
  then have "take_bit 8 (of_char c :: nat) = of_char c"
    by (simp add: take_bit_eq_mod)
  then show ?thesis
    by (simp add: of_char_nat [where 'a = "'a word"] flip: of_nat_take_bit)
qed

lemma bit_of_char:
  "8 \<le> LENGTH('a::len) \<Longrightarrow> bit (of_char c :: 'a word) n \<longleftrightarrow> n < 8 \<and> bit (of_char c :: nat) n"
proof -
  assume a: "8 \<le> LENGTH('a)"
  have "bit (of_char c :: 'a word) n \<longleftrightarrow> n < 8 \<and> bit (of_char c :: 'a word) n"
    by (metis a take_bit_of_char bit_take_bit_iff)
  also have "\<dots> \<longleftrightarrow> n < 8 \<and> bit (of_char c :: nat) n"
    using a by (auto simp: of_char_nat [where 'a = "'a word"] bit_simps)
  finally show ?thesis .
qed

lemma rd16_le16: "rd16 (chr_of (w AND 0xFF)) (chr_of (drop_bit 8 w AND 0xFF)) = w"
  unfolding rd16_def
  by (rule bit_word_eqI) (auto simp: of_char_chr_of and_FF bit_simps)

lemma rd32_le32:
  "rd32 (chr_of (w AND 0xFF)) (chr_of (drop_bit 8 w AND 0xFF))
     (chr_of (drop_bit 16 w AND 0xFF)) (chr_of (drop_bit 24 w AND 0xFF)) = w" (is "?l = w")
proof (rule bit_word_eqI)
  fix n assume "n < LENGTH(32)"
  then consider "n < 8" | "8 \<le> n" "n < 16" | "16 \<le> n" "n < 24" | "24 \<le> n" "n < 32"
    by fastforce
  then show "bit ?l n = bit w n"
    by cases (auto simp: rd32_def of_char_chr_of and_FF bit_simps)
qed

lemma le16_rd16: "le16 (rd16 a b) = [a, b]"
proof -
  have "take_bit 8 (rd16 a b) = of_char a"
    by (rule bit_word_eqI) (auto simp: rd16_def bit_simps bit_of_char)
  moreover have "take_bit 8 (drop_bit 8 (rd16 a b)) = of_char b"
    by (rule bit_word_eqI) (auto simp: rd16_def bit_simps bit_of_char)
  ultimately show ?thesis by (simp add: le16_def and_FF chr_of_of_char)
qed

lemma le32_rd32: "le32 (rd32 a b c d) = [a, b, c, d]"
proof -
  have "take_bit 8 (rd32 a b c d) = of_char a"
    by (rule bit_word_eqI) (auto simp: rd32_def bit_simps bit_of_char)
  moreover have "take_bit 8 (drop_bit 8 (rd32 a b c d)) = of_char b"
    by (rule bit_word_eqI) (auto simp: rd32_def bit_simps bit_of_char)
  moreover have "take_bit 8 (drop_bit 16 (rd32 a b c d)) = of_char c"
    by (rule bit_word_eqI) (auto simp: rd32_def bit_simps bit_of_char)
  moreover have "take_bit 8 (drop_bit 24 (rd32 a b c d)) = of_char d"
    by (rule bit_word_eqI) (auto simp: rd32_def bit_simps bit_of_char)
  ultimately show ?thesis by (simp add: le32_def and_FF chr_of_of_char)
qed

lemma length_le16 [simp]: "length (le16 w) = 2"
  by (simp add: le16_def)

lemma length_le32 [simp]: "length (le32 w) = 4"
  by (simp add: le32_def)

lemmas [codec_simps] = rd16_le16 rd32_le32 le16_rd16 le32_rd32 chr_of_of_char

section \<open>Reads through a pointer\<close>

text \<open>A buffer behind a pointer: reading outside it is undefined.\<close>

definition rd_at :: "string \<Rightarrow> nat \<Rightarrow> char result" where
  "rd_at mem i = (if i < length mem then Inr (mem ! i) else Inl Undefined)"

definition rd_range :: "string \<Rightarrow> nat \<Rightarrow> nat \<Rightarrow> string result" where
  "rd_range mem i n = (if i + n \<le> length mem then Inr (take n (drop i mem)) else Inl Undefined)"

text \<open>The two-byte little-endian length both file formats use.\<close>

definition rd_u16 :: "string \<Rightarrow> nat \<Rightarrow> 16 word result" where
  "rd_u16 mem i = rbind (rd_at mem i) (\<lambda>a. rbind (rd_at mem (i + 1)) (\<lambda>b. Inr (rd16 a b)))"

lemma rd_at_Inr [simp]: "i < length mem \<Longrightarrow> rd_at mem i = Inr (mem ! i)"
  by (simp add: rd_at_def)

lemma rd_range_Inr [simp]: "i + n \<le> length mem \<Longrightarrow> rd_range mem i n = Inr (take n (drop i mem))"
  by (simp add: rd_range_def)

lemma rd_u16_Inr [simp]: "i + 2 \<le> length mem \<Longrightarrow> rd_u16 mem i = Inr (rd16 (mem ! i) (mem ! (i + 1)))"
  by (simp add: rd_u16_def)

lemma rd_u16_le16: "rd_u16 (pre @ le16 w @ rest) (length pre) = Inr w"
  by (simp add: rd_u16_def rd_at_def le16_def nth_append rd16_le16)

lemma rd_u16_bytes:
  assumes "i + 2 \<le> length mem"
  shows "\<exists>w. rd_u16 mem i = Inr w \<and> take 2 (drop i mem) = le16 w"
proof -
  from assms have "drop i mem = mem ! i # mem ! (i + 1) # drop (i + 2) mem"
    by (metis Cons_nth_drop_Suc Suc_eq_plus1 add_2_eq_Suc' less_eq_Suc_le nat_less_le le_SucI Suc_lessD)
  with assms show ?thesis by (simp add: le16_rd16)
qed

text \<open>Four little-endian bytes.\<close>

definition rd_u32 :: "string \<Rightarrow> nat \<Rightarrow> 32 word result" where
  "rd_u32 mem i =
     rbind (rd_at mem i) (\<lambda>a. rbind (rd_at mem (i + 1)) (\<lambda>b.
     rbind (rd_at mem (i + 2)) (\<lambda>c. rbind (rd_at mem (i + 3)) (\<lambda>d. Inr (rd32 a b c d)))))"

lemma rd_u32_le32: "rd_u32 (pre @ le32 w @ rest) (length pre) = Inr w"
  by (simp add: rd_u32_def rd_at_def le32_def nth_append rd32_le32)

lemma unat_len16: "n < 2 ^ 16 \<Longrightarrow> unat (of_nat n :: 16 word) = n"
  by (simp add: unat_of_nat take_bit_nat_eq_self)

lemma unat_len32: "n < 2 ^ 32 \<Longrightarrow> unat (of_nat n :: 32 word) = n"
  by (simp add: unat_of_nat take_bit_nat_eq_self)

lemma take_drop_mid:
  "xs = pre @ x @ post \<Longrightarrow> i = length pre \<Longrightarrow> n = length x \<Longrightarrow> take n (drop i xs) = x"
  by simp

end
