(* ===== verification/Transition.thy ===== *)
theory Transition
  imports Main
begin

text \<open>
  Interleaved executions. The threads of the program are state machines whose steps are the sections
  of code between two points where another thread may run. This theory holds what their proofs
  share: an invariant that every step keeps (locale \<open>state_machine\<close>), and a size that every step
  decreases (locale \<open>terminating_machine\<close>).
\<close>

text \<open>A sum over the threads, when one of them takes a step.\<close>

lemma sum_list_map_update:
  fixes f :: "'a \<Rightarrow> 'b :: comm_monoid_add"
  assumes "i < length xs"
  shows "sum_list (map f (xs[i := y])) + f (xs ! i) = sum_list (map f xs) + f y"
  using assms by (induction xs arbitrary: i) (auto split: nat.splits simp: ac_simps)

text \<open>A state without a next step.\<close>

definition final :: "('s \<Rightarrow> 's \<Rightarrow> bool) \<Rightarrow> 's \<Rightarrow> bool" where
  "final step s \<longleftrightarrow> (\<forall>t. \<not> step s t)"

lemma finalI [intro?]: "(\<And>t. \<not> step s t) \<Longrightarrow> final step s"
  by (simp add: final_def)

lemma finalD: "final step s \<Longrightarrow> \<not> step s t"
  by (simp add: final_def)

lemma final_steps: "final step s \<Longrightarrow> step\<^sup>*\<^sup>* s t \<Longrightarrow> t = s"
  by (metis converse_rtranclpE finalD)

locale state_machine =
  fixes step :: "'s \<Rightarrow> 's \<Rightarrow> bool" and inv :: "'s \<Rightarrow> bool"
  assumes step_inv: "inv s \<Longrightarrow> step s t \<Longrightarrow> inv t"
begin

lemma steps_inv:
  assumes "step\<^sup>*\<^sup>* s t" and "inv s"
  shows "inv t"
  using assms by (induction rule: rtranclp_induct) (auto intro: step_inv)

text \<open>A property of two states that every step keeps relates the two ends of a run.\<close>

lemma steps_rel:
  assumes "step\<^sup>*\<^sup>* s t" and "inv s" and "P s" and "\<And>u v. inv u \<Longrightarrow> P u \<Longrightarrow> step u v \<Longrightarrow> P v"
  shows "P t"
  using assms(1)
proof (induction rule: rtranclp_induct)
  case base
  show ?case by (rule assms(3))
next
  case (step u v)
  with assms(2,4) steps_inv show ?case by blast
qed

end

locale terminating_machine = state_machine +
  fixes weight :: "'a \<Rightarrow> nat"
  assumes step_less: "inv s \<Longrightarrow> step s t \<Longrightarrow> weight t < weight s"
begin

text \<open>The length of a run is bounded by the weight of its first state.\<close>

lemma run_bounded:
  assumes "(step ^^ n) s t" and "inv s"
  shows "n + weight t \<le> weight s"
  using assms(1)
proof (induction n arbitrary: t)
  case (Suc n)
  then obtain u where u: "(step ^^ n) s u" "step u t" by auto
  then have "inv u" using assms(2) by (meson relpowp_imp_rtranclp steps_inv)
  with Suc.IH [OF u(1)] step_less [OF _ u(2)] show ?case by simp
qed simp

lemma reaches_final:
  assumes "inv s"
  shows "\<exists>t. step\<^sup>*\<^sup>* s t \<and> final step t"
  using assms
proof (induction "weight s" arbitrary: s rule: less_induct)
  case less
  show ?case
  proof (cases "final step s")
    case True
    then show ?thesis by blast
  next
    case False
    then obtain t where t: "step s t" by (auto simp: final_def)
    with less.hyps [OF step_less [OF less.prems t]] step_inv [OF less.prems t] show ?thesis
      by (meson converse_rtranclp_into_rtranclp)
  qed
qed

end

end
