(* ===== verification/ThreadPool.thy ===== *)
theory ThreadPool
  imports Prelude Transition "HOL-Library.Multiset"
begin

text \<open>
  The thread pool of \<open>include/common/thread_pool.h\<close>. A worker is a program counter; its steps are the
  sections of the loop between two points where another thread may run. The mutex is held by at most
  one worker; the critical section of \<open>Submit\<close> is one step. Waiting on the condition variable is two
  steps, as the predicate is evaluated before the thread goes to sleep, and a notification reaches
  only threads that sleep. The destructor changes \<open>running_\<close> without the mutex.

  The fields \<open>submitted\<close>, \<open>started\<close> and \<open>finished\<close> record the history: the tasks in the order of
  \<open>Submit\<close>, in the order in which workers took them, and in the order in which they were done.
\<close>

section \<open>The pool\<close>

datatype 't worker =
    W_Loop      \<comment> \<open>at the test of \<open>while (running_)\<close>\<close>
  | W_Lock      \<comment> \<open>about to lock the mutex, at the beginning or after a wake-up\<close>
  | W_Wait      \<comment> \<open>holds the mutex, about to evaluate the predicate of \<open>wait\<close>\<close>
  | W_Sleep     \<comment> \<open>holds the mutex, the predicate was false\<close>
  | W_Blocked   \<comment> \<open>sleeps on the condition variable\<close>
  | W_Run 't    \<comment> \<open>in \<open>task()\<close>\<close>
  | W_Exit      \<comment> \<open>has returned\<close>

datatype dtor_pc = Alive | Stopped | Joining | Joined

record 't ThreadPool =
  workers :: "'t worker list"
  tasks :: "'t list"
  mutex :: "nat option"
  running :: bool
  signals :: nat      \<comment> \<open>calls of \<open>Submit\<close> between the critical section and \<open>notify_one\<close>\<close>
  dtor :: dtor_pc
  submitted :: "'t list"
  started :: "'t list"
  finished :: "'t list"

definition ThreadPool_ctor :: "nat \<Rightarrow> 't ThreadPool" where
  "ThreadPool_ctor thread_count =
     \<lparr>workers = replicate (if thread_count = 0 then 4 else thread_count) W_Loop, tasks = [], mutex = None, running = True,
      signals = 0, dtor = Alive, submitted = [], started = [], finished = []\<rparr>"

definition Pool_Size :: "'t ThreadPool \<Rightarrow> nat" where
  "Pool_Size p = length (workers p)"

abbreviation set_worker :: "nat \<Rightarrow> 't worker \<Rightarrow> 't ThreadPool \<Rightarrow> 't ThreadPool" where
  "set_worker i w p \<equiv> p\<lparr>workers := (workers p)[i := w]\<rparr>"

text \<open>The next step of worker \<open>i\<close>; \<^const>\<open>None\<close> when it has to wait or has returned. The task is a
  \<open>std::packaged_task\<close>, which keeps an exception of the function for the future.\<close>

definition worker_step :: "nat \<Rightarrow> 't ThreadPool \<Rightarrow> 't ThreadPool option" where
  "worker_step i p =
     (case workers p ! i of
        W_Loop \<Rightarrow> Some (set_worker i (if running p then W_Lock else W_Exit) p)
      | W_Lock \<Rightarrow> if mutex p = None then Some ((set_worker i W_Wait p)\<lparr>mutex := Some i\<rparr>) else None
      | W_Wait \<Rightarrow>
          (case tasks p of
             t # ts \<Rightarrow> Some ((set_worker i (W_Run t) p)\<lparr>tasks := ts, mutex := None, started := started p @ [t]\<rparr>)
           | [] \<Rightarrow> if running p then Some (set_worker i W_Sleep p) else Some ((set_worker i W_Exit p)\<lparr>mutex := None\<rparr>))
      | W_Sleep \<Rightarrow> Some ((set_worker i W_Blocked p)\<lparr>mutex := None\<rparr>)
      | W_Blocked \<Rightarrow> None
      | W_Run t \<Rightarrow> Some ((set_worker i W_Loop p)\<lparr>finished := finished p @ [t]\<rparr>)
      | W_Exit \<Rightarrow> None)"

text \<open>The critical section of \<open>Submit\<close>.\<close>

definition Submit :: "'t \<Rightarrow> 't ThreadPool \<Rightarrow> unit result \<times> 't ThreadPool" where
  "Submit t p =
     (if \<not> running p then (Inl (RuntimeError ''Submit on stopped ThreadPool''), p)
      else (Inr (), p\<lparr>tasks := tasks p @ [t], signals := Suc (signals p), submitted := submitted p @ [t]\<rparr>))"

text \<open>\<open>notify_one\<close>; the sleeping worker that it wakes is given, if there is one.\<close>

definition notify_one :: "nat option \<Rightarrow> 't ThreadPool \<Rightarrow> 't ThreadPool" where
  "notify_one w p =
     (case w of
        None \<Rightarrow> p\<lparr>signals := signals p - 1\<rparr>
      | Some i \<Rightarrow> (set_worker i W_Lock p)\<lparr>signals := signals p - 1\<rparr>)"

definition notify_all :: "'t ThreadPool \<Rightarrow> 't ThreadPool" where
  "notify_all p = p\<lparr>workers := map (\<lambda>w. if w = W_Blocked then W_Lock else w) (workers p)\<rparr>"

text \<open>The destructor: \<open>running_ = false\<close>, \<open>notify_all\<close>, and the loop of \<open>join\<close>, which ends when all workers
  have returned.\<close>

definition dtor_step :: "'t ThreadPool \<Rightarrow> 't ThreadPool option" where
  "dtor_step p =
     (case dtor p of
        Alive \<Rightarrow> Some (p\<lparr>running := False, dtor := Stopped\<rparr>)
      | Stopped \<Rightarrow> Some ((notify_all p)\<lparr>dtor := Joining\<rparr>)
      | Joining \<Rightarrow> if set (workers p) \<subseteq> {W_Exit} then Some (p\<lparr>dtor := Joined\<rparr>) else None
      | Joined \<Rightarrow> None)"

text \<open>\<open>work_step\<close>: the pool works on what it has. \<open>pool_step\<close>: also new tasks, wake-ups without a reason,
  and the destructor.\<close>

inductive work_step :: "'t ThreadPool \<Rightarrow> 't ThreadPool \<Rightarrow> bool" where
  worker: "i < length (workers p) \<Longrightarrow> worker_step i p = Some q \<Longrightarrow> work_step p q"
| wake: "0 < signals p \<Longrightarrow> i < length (workers p) \<Longrightarrow> workers p ! i = W_Blocked \<Longrightarrow> work_step p (notify_one (Some i) p)"
| no_wake: "0 < signals p \<Longrightarrow> W_Blocked \<notin> set (workers p) \<Longrightarrow> work_step p (notify_one None p)"

inductive pool_step :: "'t ThreadPool \<Rightarrow> 't ThreadPool \<Rightarrow> bool" where
  work: "work_step p q \<Longrightarrow> pool_step p q"
| spurious: "i < length (workers p) \<Longrightarrow> workers p ! i = W_Blocked \<Longrightarrow> pool_step p (set_worker i W_Lock p)"
| submit: "mutex p = None \<Longrightarrow> Submit t p = (Inr (), q) \<Longrightarrow> pool_step p q"
| destroy: "dtor_step p = Some q \<Longrightarrow> pool_step p q"

lemmas pool_defs = worker_step_def Submit_def notify_one_def notify_all_def dtor_step_def

section \<open>The invariant\<close>

fun run_of :: "'t worker \<Rightarrow> 't multiset" where
  "run_of (W_Run t) = {#t#}"
| "run_of _ = {#}"

text \<open>The tasks that are being run.\<close>

definition in_progress :: "'t ThreadPool \<Rightarrow> 't multiset" where
  "in_progress p = sum_list (map run_of (workers p))"

definition holds_mutex :: "'t worker \<Rightarrow> bool" where
  "holds_mutex w \<longleftrightarrow> w = W_Wait \<or> w = W_Sleep"

lemma holds_mutex_simps [simp]:
  "holds_mutex W_Wait" "holds_mutex W_Sleep" "\<not> holds_mutex W_Loop" "\<not> holds_mutex W_Lock" "\<not> holds_mutex W_Blocked"
  "\<not> holds_mutex (W_Run t)" "\<not> holds_mutex W_Exit"
  by (simp_all add: holds_mutex_def)

text \<open>A worker that will look at the queue again without being woken.\<close>

definition awake :: "'t worker \<Rightarrow> bool" where
  "awake w \<longleftrightarrow> w \<noteq> W_Blocked \<and> w \<noteq> W_Exit"

definition mutex_inv :: "'t ThreadPool \<Rightarrow> bool" where
  "mutex_inv p \<longleftrightarrow> (\<forall>i < length (workers p). holds_mutex (workers p ! i) \<longleftrightarrow> mutex p = Some i)
     \<and> (\<forall>i. mutex p = Some i \<longrightarrow> i < length (workers p))"

definition history_inv :: "'t ThreadPool \<Rightarrow> bool" where
  "history_inv p \<longleftrightarrow> submitted p = started p @ tasks p \<and> mset (started p) = mset (finished p) + in_progress p"

definition wake_inv :: "'t ThreadPool \<Rightarrow> bool" where
  "wake_inv p \<longleftrightarrow> (W_Sleep \<in> set (workers p) \<longrightarrow> tasks p = [])
     \<and> (running p \<longrightarrow> W_Exit \<notin> set (workers p) \<and> workers p \<noteq> []
          \<and> (tasks p \<noteq> [] \<longrightarrow> 0 < signals p \<or> (\<exists>w \<in> set (workers p). awake w)))"

definition pool_inv :: "'t ThreadPool \<Rightarrow> bool" where
  "pool_inv p \<longleftrightarrow> mutex_inv p \<and> history_inv p \<and> wake_inv p"

lemma mutex_inv_worker:
  assumes "mutex_inv p" and "i < length (workers p)" and "worker_step i p = Some q"
  shows "mutex_inv q"
proof -
  have i: "holds_mutex (workers p ! i) \<longleftrightarrow> mutex p = Some i"
    and j: "j < length (workers p) \<Longrightarrow> i \<noteq> j \<Longrightarrow> holds_mutex (workers p ! j) \<longleftrightarrow> mutex p = Some j"
    and r: "mutex p = Some j \<Longrightarrow> j < length (workers p)" for j
    using assms(1,2) by (simp_all add: mutex_inv_def)
  show ?thesis
    using i assms(2,3) unfolding mutex_inv_def
    by (cases "workers p ! i")
      (auto simp: worker_step_def nth_list_update j r split: list.splits if_splits)
qed

lemma history_inv_worker:
  assumes "history_inv p" and "i < length (workers p)" and "worker_step i p = Some q"
  shows "history_inv q"
  using assms sum_list_map_update [OF assms(2), of run_of]
  by (auto simp: history_inv_def in_progress_def worker_step_def add_eq_conv_ex
      split: worker.splits list.splits if_splits)

lemma wake_inv_worker:
  assumes "mutex_inv p" and "wake_inv p" and "i < length (workers p)" and "worker_step i p = Some q"
  shows "wake_inv q"
proof -
  have only: "W_Sleep \<notin> set ((workers p)[i := w])" if "holds_mutex (workers p ! i)" "w \<noteq> W_Sleep" for w
  proof
    assume "W_Sleep \<in> set ((workers p)[i := w])"
    then obtain j where "j < length (workers p)" "(workers p)[i := w] ! j = W_Sleep" by (auto simp: in_set_conv_nth)
    then have "j \<noteq> i" "workers p ! j = W_Sleep" using that(2) assms(3) by (auto simp: nth_list_update split: if_splits)
    with assms(1,3) that(1) \<open>j < _\<close> show False by (auto simp: mutex_inv_def)
  qed
  have mono: "x \<in> set ((workers p)[i := w]) \<Longrightarrow> x = w \<or> x \<in> set (workers p)" for x w
    using set_update_subset_insert by fastforce
  have new: "w \<in> set ((workers p)[i := w])" for w using assms(3) by (rule set_update_memI)
  show ?thesis
    using assms(2,4) nth_mem [OF assms(3)]
    by (cases "workers p ! i")
      (auto simp: worker_step_def wake_inv_def awake_def dest!: mono dest: bspec [OF _ new] only split: list.splits if_splits)
qed

text \<open>Waking a sleeping worker.\<close>

lemma pool_inv_wake:
  assumes "pool_inv p" and "i < length (workers p)" and "workers p ! i = W_Blocked"
  shows "pool_inv ((set_worker i W_Lock p)\<lparr>signals := n\<rparr>)"
proof -
  have "mutex_inv ((set_worker i W_Lock p)\<lparr>signals := n\<rparr>)"
    using assms by (auto simp: pool_inv_def mutex_inv_def nth_list_update)
  moreover have "history_inv ((set_worker i W_Lock p)\<lparr>signals := n\<rparr>)"
    using assms sum_list_map_update [OF assms(2), of run_of W_Lock] by (simp add: pool_inv_def history_inv_def in_progress_def)
  moreover have "W_Lock \<in> set ((workers p)[i := W_Lock])" using assms(2) by (rule set_update_memI)
  then have "wake_inv ((set_worker i W_Lock p)\<lparr>signals := n\<rparr>)"
    using assms(1) set_update_subset_insert [of "workers p" i W_Lock]
    by (auto simp: pool_inv_def wake_inv_def awake_def)
  ultimately show ?thesis by (simp add: pool_inv_def)
qed

lemma work_step_inv:
  assumes "pool_inv p" and "work_step p q"
  shows "pool_inv q"
  using assms(2,1)
proof cases
  case (worker i)
  then show ?thesis
    using assms(1) mutex_inv_worker history_inv_worker wake_inv_worker by (auto simp: pool_inv_def)
next
  case (wake i)
  with pool_inv_wake [OF assms(1)] show ?thesis by (simp add: notify_one_def)
next
  case no_wake
  have "\<exists>w \<in> set (workers p). awake w" if "running p"
  proof -
    have "workers p \<noteq> []" using assms(1) that by (simp add: pool_inv_def wake_inv_def)
    then obtain w where "w \<in> set (workers p)" by (cases "workers p") auto
    moreover from this have "awake w"
      using assms(1) no_wake that by (auto simp: pool_inv_def wake_inv_def awake_def)
    ultimately show ?thesis by blast
  qed
  with no_wake assms(1) show ?thesis
    by (auto simp: pool_inv_def mutex_inv_def history_inv_def wake_inv_def in_progress_def notify_one_def)
qed

abbreviation wake_up :: "'t worker \<Rightarrow> 't worker" where
  "wake_up w \<equiv> (if w = W_Blocked then W_Lock else w)"

lemma pool_inv_notify_all:
  assumes "pool_inv p"
  shows "pool_inv (notify_all p)"
proof -
  have h: "holds_mutex (wake_up w) = holds_mutex w" for w :: "'a worker" by simp
  have "mutex_inv (notify_all p)" using assms by (simp add: pool_inv_def mutex_inv_def notify_all_def h)
  moreover have "run_of \<circ> wake_up = (run_of :: 'a worker \<Rightarrow> _)" by (simp add: fun_eq_iff)
  then have "history_inv (notify_all p)"
    using assms by (simp add: pool_inv_def history_inv_def in_progress_def notify_all_def)
  moreover have "wake_inv (notify_all p)"
  proof -
    have "W_Sleep \<in> wake_up ` set (workers p) \<longleftrightarrow> W_Sleep \<in> set (workers p)"
      "W_Exit \<in> wake_up ` set (workers p) \<longleftrightarrow> W_Exit \<in> set (workers p)" by (auto split: if_splits)
    moreover have "\<exists>w \<in> wake_up ` set (workers p). awake w" if "w \<in> set (workers p)" "awake w" for w
      using that by (force simp: awake_def)
    ultimately show ?thesis using assms by (simp add: pool_inv_def wake_inv_def notify_all_def) blast
  qed
  ultimately show ?thesis by (simp add: pool_inv_def)
qed

lemma pool_inv_dtor: "pool_inv p \<Longrightarrow> pool_inv (p\<lparr>dtor := d\<rparr>)"
  by (simp add: pool_inv_def mutex_inv_def history_inv_def wake_inv_def in_progress_def)

lemma dtor_step_inv:
  assumes "pool_inv p" and "dtor_step p = Some q"
  shows "pool_inv q"
proof (cases "dtor p")
  case Alive
  with assms show ?thesis
    by (auto simp: dtor_step_def pool_inv_def mutex_inv_def history_inv_def wake_inv_def in_progress_def)
next
  case Stopped
  with assms pool_inv_notify_all [OF assms(1)] show ?thesis by (auto simp: dtor_step_def intro: pool_inv_dtor)
qed (use assms in \<open>auto simp: dtor_step_def intro: pool_inv_dtor split: if_splits\<close>)

lemma Submit_inv:
  assumes "pool_inv p" and "mutex p = None" and "Submit t p = (Inr (), q)"
  shows "pool_inv q"
proof -
  have "W_Sleep \<notin> set (workers p)"
    using assms(1,2) by (fastforce simp: pool_inv_def mutex_inv_def in_set_conv_nth)
  with assms show ?thesis
    by (auto simp: Submit_def pool_inv_def mutex_inv_def history_inv_def wake_inv_def in_progress_def split: if_splits)
qed

lemma spurious_inv:
  assumes "pool_inv p" and "i < length (workers p)" and "workers p ! i = W_Blocked"
  shows "pool_inv (set_worker i W_Lock p)"
  using pool_inv_wake [OF assms, of "signals p"] by simp

lemma pool_step_inv:
  assumes "pool_inv p" and "pool_step p q"
  shows "pool_inv q"
  using assms(2)
proof (cases rule: pool_step.cases)
  case work
  show ?thesis using assms(1) work by (rule work_step_inv)
next
  case (spurious i)
  show ?thesis unfolding spurious(1) using assms(1) spurious(2,3) by (rule spurious_inv)
next
  case (submit t)
  show ?thesis using assms(1) submit by (rule Submit_inv)
next
  case destroy
  show ?thesis using assms(1) destroy by (rule dtor_step_inv)
qed

lemma pool_inv_ctor: "pool_inv (ThreadPool_ctor n)"
proof -
  obtain k where k: "workers (ThreadPool_ctor n :: 'a ThreadPool) = replicate (Suc k) W_Loop"
  proof (rule that)
    show "workers (ThreadPool_ctor n :: 'a ThreadPool) = replicate (Suc (if n = 0 then 3 else n - 1)) W_Loop"
      by (cases n) (simp_all add: ThreadPool_ctor_def numeral_eq_Suc)
  qed
  have "sum_list (map run_of (replicate m W_Loop)) = ({#} :: 'a multiset)" for m by (induction m) auto
  then have "in_progress (ThreadPool_ctor n :: 'a ThreadPool) = {#}" by (simp only: in_progress_def k)
  moreover have "mutex_inv (ThreadPool_ctor n :: 'a ThreadPool)"
    unfolding mutex_inv_def k by (simp add: ThreadPool_ctor_def del: replicate.simps)
  moreover have "wake_inv (ThreadPool_ctor n :: 'a ThreadPool)"
    unfolding wake_inv_def k by (simp add: ThreadPool_ctor_def)
  ultimately show ?thesis by (simp add: pool_inv_def history_inv_def) (simp add: ThreadPool_ctor_def)
qed

section \<open>The pool finishes its work\<close>

fun worker_weight :: "'t worker \<Rightarrow> nat" where
  "worker_weight (W_Run t) = 5"
| "worker_weight W_Loop = 4"
| "worker_weight W_Lock = 3"
| "worker_weight W_Wait = 2"
| "worker_weight W_Sleep = 1"
| "worker_weight _ = 0"

text \<open>Each queued task costs one round of a worker, each signal one wake-up.\<close>

definition pool_weight :: "'t ThreadPool \<Rightarrow> nat" where
  "pool_weight p = 6 * length (tasks p) + 4 * signals p + sum_list (map worker_weight (workers p))"

lemma work_step_less:
  assumes "work_step p q"
  shows "pool_weight q < pool_weight p"
  using assms
proof cases
  case (worker i)
  note w = sum_list_map_update [OF worker(1), of worker_weight]
  show ?thesis
  proof (cases "workers p ! i")
    case W_Loop
    with worker(2) w [of "if running p then W_Lock else W_Exit"] show ?thesis
      by (auto simp: worker_step_def pool_weight_def split: if_splits)
  next
    case W_Lock
    with worker(2) w [of W_Wait] show ?thesis by (auto simp: worker_step_def pool_weight_def split: if_splits)
  next
    case W_Wait
    with worker(2) w [of W_Sleep] w [of W_Exit] w [of "W_Run (hd (tasks p))"] show ?thesis
      by (auto simp: worker_step_def pool_weight_def split: if_splits list.splits)
  next
    case W_Sleep
    with worker(2) w [of W_Blocked] show ?thesis by (auto simp: worker_step_def pool_weight_def)
  next
    case (W_Run t)
    with worker(2) w [of W_Loop] show ?thesis by (auto simp: worker_step_def pool_weight_def)
  qed (use worker(2) in \<open>auto simp: worker_step_def\<close>)
next
  case (wake i)
  with sum_list_map_update [OF wake(3), of worker_weight W_Lock] show ?thesis by (simp add: notify_one_def pool_weight_def)
qed (auto simp: notify_one_def pool_weight_def)

interpretation pool: state_machine pool_step pool_inv
  by unfold_locales (rule pool_step_inv)

interpretation pool_work: terminating_machine work_step pool_inv pool_weight
  by unfold_locales (auto intro: work_step_inv work_step_less)

text \<open>Where the pool comes to rest, every worker sleeps or has returned.\<close>

lemma final_workers:
  assumes "pool_inv p" and "final work_step p"
  shows "signals p = 0" and "set (workers p) \<subseteq> {W_Blocked, W_Exit}"
proof -
  have none: "worker_step i p = None" if "i < length (workers p)" for i
    using finalD [OF assms(2)] work_step.worker [OF that] by (cases "worker_step i p") auto
  have "mutex p = None"
  proof (cases "mutex p")
    case (Some i)
    with assms(1) have "i < length (workers p)" "holds_mutex (workers p ! i)"
      by (auto simp: pool_inv_def mutex_inv_def)
    with none [of i] show ?thesis by (auto simp: holds_mutex_def worker_step_def split: list.splits if_splits)
  qed
  then have "workers p ! i = W_Blocked \<or> workers p ! i = W_Exit" if "i < length (workers p)" for i
    using none [OF that]
    by (cases "workers p ! i") (simp_all add: worker_step_def split: list.splits if_splits)
  then show "set (workers p) \<subseteq> {W_Blocked, W_Exit}" by (metis in_set_conv_nth insertCI subsetI)
  show "signals p = 0"
  proof (cases "W_Blocked \<in> set (workers p)")
    case True
    then obtain i where "i < length (workers p)" "workers p ! i = W_Blocked" by (auto simp: in_set_conv_nth)
    with finalD [OF assms(2)] work_step.wake [of p i] show ?thesis by blast
  next
    case False
    with finalD [OF assms(2)] work_step.no_wake [of p] show ?thesis by blast
  qed
qed

lemma worker_step_keeps:
  assumes "worker_step i p = Some q"
  shows "running q = running p \<and> submitted q = submitted p \<and> length (workers q) = length (workers p)
    \<and> signals q = signals p \<and> dtor q = dtor p"
  using assms by (cases "workers p ! i") (auto simp: worker_step_def split: list.splits if_splits)

lemma work_step_keeps:
  assumes "work_step p q"
  shows "running q = running p" and "submitted q = submitted p" and "length (workers q) = length (workers p)"
    and "dtor q = dtor p"
  using assms by (cases; simp add: worker_step_keeps notify_one_def)+

lemma work_steps_keep:
  assumes "work_step\<^sup>*\<^sup>* p q"
  shows "running q = running p" and "submitted q = submitted p" and "length (workers q) = length (workers p)"
  using assms by (induction rule: rtranclp_induct) (simp_all add: work_step_keeps)

lemma final_idle:
  assumes "pool_inv p" and "final work_step p" and "running p"
  shows "tasks p = []" and "mset (finished p) = mset (submitted p)"
proof -
  note f = final_workers [OF assms(1,2)]
  with assms(1,3) show t: "tasks p = []"
    by (auto simp: pool_inv_def wake_inv_def awake_def)
  have "\<forall>w \<in> set (workers p). run_of w = {#}" using f(2) by auto
  then have "map run_of (workers p) = map (\<lambda>_. {#}) (workers p)" by (intro map_cong) auto
  then have "map run_of (workers p) = replicate (length (workers p)) {#}" by (simp only: map_replicate_const)
  moreover have "sum_list (replicate k {#}) = {#}" for k by (induction k) auto
  ultimately have "in_progress p = {#}" by (simp only: in_progress_def)
  with assms(1) t show "mset (finished p) = mset (submitted p)"
    by (simp add: pool_inv_def history_inv_def)
qed

section \<open>One worker\<close>

text \<open>A pool with one worker runs the tasks one after the other.\<close>

definition single_inv :: "'t ThreadPool \<Rightarrow> bool" where
  "single_inv p \<longleftrightarrow> (\<forall>w. workers p = [w] \<longrightarrow> started p = finished p @ (case w of W_Run t \<Rightarrow> [t] | _ \<Rightarrow> []))"

lemma single_inv_step:
  assumes "single_inv p" and "pool_step p q"
  shows "single_inv q"
proof (cases "\<exists>w. workers p = [w]")
  case True
  then obtain w where w: "workers p = [w]" by blast
  have "started p = finished p @ (case w of W_Run t \<Rightarrow> [t] | _ \<Rightarrow> [])" using assms(1) w by (simp add: single_inv_def)
  with assms(2) w show ?thesis
    by (auto simp: single_inv_def pool_defs elim!: pool_step.cases work_step.cases
        split: worker.splits list.splits dtor_pc.splits if_splits)
next
  case False
  then have "length (workers p) \<noteq> 1" by (auto simp: length_Suc_conv)
  moreover have "length (workers q) = length (workers p)"
    using assms(2) by (cases) (auto simp: work_step_keeps pool_defs split: dtor_pc.splits if_splits)
  ultimately show ?thesis by (auto simp: single_inv_def)
qed

section \<open>The destructor\<close>

lemma dtor_running:
  assumes "pool_step\<^sup>*\<^sup>* (ThreadPool_ctor n) p"
  shows "running p \<longleftrightarrow> dtor p = Alive"
  using assms
proof (induction rule: rtranclp_induct)
  case (step p q)
  from step.hyps(2) step.IH show ?case
    by (cases) (auto simp: work_step_keeps pool_defs split: dtor_pc.splits if_splits)
qed (simp add: ThreadPool_ctor_def)

text \<open>A worker that has not passed the queue since \<open>running_\<close> became false.\<close>

fun pending :: "'t worker \<Rightarrow> nat" where
  "pending W_Lock = 1"
| "pending W_Wait = 1"
| "pending W_Sleep = 1"
| "pending W_Blocked = 1"
| "pending _ = 0"

lemma stopped_started:
  assumes "\<not> running p" and "work_step p q"
  shows "length (started q) + sum_list (map pending (workers q)) \<le> length (started p) + sum_list (map pending (workers p))"
  using assms(2)
proof cases
  case (worker i)
  note w = sum_list_map_update [OF worker(1), of pending]
  show ?thesis
    using worker(2) assms(1) w [of W_Exit] w [of W_Wait] w [of "W_Run (hd (tasks p))"] w [of W_Blocked] w [of W_Loop]
    by (auto simp: worker_step_def split: worker.splits list.splits if_splits)
next
  case (wake i)
  with sum_list_map_update [OF wake(3), of pending W_Lock] show ?thesis by (simp add: notify_one_def)
qed (simp add: notify_one_def)

lemma stopped_no_sleep:
  assumes "\<not> running p" and "set (workers p) \<inter> {W_Blocked, W_Sleep} = {}" and "work_step p q"
  shows "set (workers q) \<inter> {W_Blocked, W_Sleep} = {}"
proof -
  have "x = w \<or> x \<in> set (workers p)" if "x \<in> set ((workers p)[i := w])" for x w i
    using that set_update_subset_insert by fastforce
  moreover have "workers p ! i \<noteq> W_Blocked" "workers p ! i \<noteq> W_Sleep" if "i < length (workers p)" for i
    using assms(2) nth_mem [OF that] by auto
  ultimately show ?thesis
    using assms by (cases rule: work_step.cases [OF assms(3)])
      (fastforce simp: worker_step_def notify_one_def split: worker.splits list.splits if_splits)+
qed

lemma stopped_sleeper:
  assumes "i < length (workers p)" and "workers p ! i \<in> {W_Blocked, W_Sleep}" and "signals p = 0" and "work_step p q"
  shows "i < length (workers q) \<and> workers q ! i \<in> {W_Blocked, W_Sleep} \<and> signals q = 0"
  using assms(4)
proof cases
  case (worker j)
  with assms(1-3) show ?thesis
    by (cases "j = i") (auto simp: worker_step_def split: worker.splits list.splits if_splits)
qed (use assms(3) in auto)

text \<open>The same along a run: after the notification nobody can be woken any more.\<close>

lemma stopped_bound:
  assumes "work_step\<^sup>*\<^sup>* p q" and "\<not> running p"
  shows "length (started q) \<le> length (started p) + length (workers p)"
proof -
  have "length (started q) + sum_list (map pending (workers q)) \<le> length (started p) + sum_list (map pending (workers p))"
    using assms(1)
  proof (induction rule: rtranclp_induct)
    case (step u v)
    from work_steps_keep(1) [OF step.hyps(1)] assms(2) stopped_started [OF _ step.hyps(2)] step.IH show ?case by simp
  qed simp
  moreover have "sum_list (map pending ws) \<le> length ws" for ws :: "'a worker list"
  proof (induction ws)
    case (Cons w ws)
    then show ?case by (cases w) auto
  qed simp
  ultimately show ?thesis by (meson add_le_mono le_add1 le_refl order_trans)
qed

lemma stopped_hangs:
  assumes "work_step\<^sup>*\<^sup>* p q" and "W_Sleep \<in> set (workers p)" and "signals p = 0"
  shows "\<not> set (workers q) \<subseteq> {W_Exit}"
proof -
  from assms(2) obtain j where "j < length (workers p)" "workers p ! j = W_Sleep" by (auto simp: in_set_conv_nth)
  with assms(3) have "j < length (workers p) \<and> workers p ! j \<in> {W_Blocked, W_Sleep} \<and> signals p = 0" by simp
  with assms(1) have "j < length (workers q) \<and> workers q ! j \<in> {W_Blocked, W_Sleep} \<and> signals q = 0"
    by (induction rule: rtranclp_induct) (use stopped_sleeper in blast)+
  then show ?thesis using nth_mem [of j "workers q"] by (metis insertE singletonD subsetD worker.distinct)
qed

lemma stopped_exits:
  assumes "work_step\<^sup>*\<^sup>* p q" and "\<not> running p" and "set (workers p) \<inter> {W_Blocked, W_Sleep} = {}"
    and "pool_inv p" and "final work_step q"
  shows "set (workers q) \<subseteq> {W_Exit}"
proof -
  have "set (workers q) \<inter> {W_Blocked, W_Sleep} = {}"
    using assms(1)
  proof (induction rule: rtranclp_induct)
    case (step u v)
    from step.IH work_steps_keep(1) [OF step.hyps(1)] assms(2) show ?case
      by (intro stopped_no_sleep [OF _ _ step.hyps(2)]) simp_all
  qed (rule assms(3))
  with final_workers(2) [OF pool_work.steps_inv [OF assms(1,4)] assms(5)] show ?thesis by blast
qed

section \<open>Properties\<close>

text \<open>C34: in every interleaving of workers, submitters, wake-ups and the destructor, every task that \<open>Submit\<close>
  accepted is in the queue or was taken exactly once, and tasks are taken in the order of their
  submission; a task that was taken is done or being run by one worker. A pool of one worker also
  completes them in that order.\<close>

theorem pool_fifo_exactly_once:
  assumes "pool_step\<^sup>*\<^sup>* (ThreadPool_ctor n) p"
  shows "submitted p = started p @ tasks p \<and> mset (started p) = mset (finished p) + in_progress p
     \<and> (length (workers p) = 1 \<longrightarrow> take (length (finished p)) (submitted p) = finished p)"
proof -
  have h: "submitted p = started p @ tasks p" "mset (started p) = mset (finished p) + in_progress p"
    using pool.steps_inv [OF assms pool_inv_ctor] by (simp_all add: pool_inv_def history_inv_def)
  have "single_inv p"
  proof (rule pool.steps_rel [OF assms pool_inv_ctor])
    show "single_inv (ThreadPool_ctor n :: 'a ThreadPool)"
      unfolding single_inv_def
    proof (intro allI impI)
      fix w :: "'a worker" assume "workers (ThreadPool_ctor n) = [w]"
      then have "w \<in> set (workers (ThreadPool_ctor n))" by simp
      then have "w = W_Loop" by (auto simp: ThreadPool_ctor_def split: if_splits)
      then show "started (ThreadPool_ctor n) = finished (ThreadPool_ctor n) @ (case w of W_Run t \<Rightarrow> [t] | _ \<Rightarrow> [])"
        by (simp add: ThreadPool_ctor_def)
    qed
  qed (rule single_inv_step)
  with h show ?thesis by (auto simp: single_inv_def length_Suc_conv)
qed

abbreviation submit_step :: "'t \<Rightarrow> 't ThreadPool \<Rightarrow> 't ThreadPool" where
  "submit_step t p \<equiv> snd (Submit t p)"

theorem pool_fifo_exactly_once_witness:
  "\<exists>p. pool_step\<^sup>*\<^sup>* (ThreadPool_ctor 1) p \<and> submitted p = [7 :: nat] \<and> started p @ tasks p = [7]"
proof -
  let ?p = "submit_step (7 :: nat) (ThreadPool_ctor 1)"
  have "pool_step (ThreadPool_ctor 1) ?p"
    by (rule pool_step.submit [of _ 7]) (simp_all add: ThreadPool_ctor_def Submit_def)
  then have r: "pool_step\<^sup>*\<^sup>* (ThreadPool_ctor 1) ?p" by blast
  moreover have "submitted ?p = [7]" by (simp add: Submit_def ThreadPool_ctor_def)
  ultimately show ?thesis using pool_fifo_exactly_once [OF r] by auto
qed

text \<open>C35: a running pool finishes its work. From every state that it can reach, workers and pending
  notifications can only take a bounded number of steps before the pool is at rest, and wherever it
  comes to rest every task that was submitted is done: no wake-up for a task is lost.\<close>

theorem pool_finishes_all:
  assumes "pool_step\<^sup>*\<^sup>* (ThreadPool_ctor n) p" and "running p"
  shows "(\<forall>k q. (work_step ^^ k) p q \<longrightarrow> k \<le> pool_weight p) \<and> (\<exists>q. work_step\<^sup>*\<^sup>* p q \<and> final work_step q)
     \<and> (\<forall>q. work_step\<^sup>*\<^sup>* p q \<and> final work_step q \<longrightarrow> tasks q = [] \<and> mset (finished q) = mset (submitted p))"
proof -
  have i: "pool_inv p" using pool.steps_inv [OF assms(1) pool_inv_ctor] .
  have "k \<le> pool_weight p" if "(work_step ^^ k) p q" for k q
    using pool_work.run_bounded [OF that i] by simp
  moreover have "\<exists>q. work_step\<^sup>*\<^sup>* p q \<and> final work_step q" using pool_work.reaches_final [OF i] .
  moreover have "tasks q = [] \<and> mset (finished q) = mset (submitted p)" if "work_step\<^sup>*\<^sup>* p q" "final work_step q" for q
    using final_idle [OF pool_work.steps_inv [OF that(1) i] that(2)] work_steps_keep [OF that(1)] assms(2) by simp
  ultimately show ?thesis by blast
qed

theorem pool_finishes_all_witness:
  "\<exists>q. work_step\<^sup>*\<^sup>* (submit_step (7 :: nat) (ThreadPool_ctor 0)) q \<and> mset (finished q) = {#7#}"
proof -
  let ?p = "submit_step (7 :: nat) (ThreadPool_ctor 0)"
  have "pool_step (ThreadPool_ctor 0) ?p"
    by (rule pool_step.submit [of _ 7]) (simp_all add: ThreadPool_ctor_def Submit_def)
  then have r: "pool_step\<^sup>*\<^sup>* (ThreadPool_ctor 0) ?p" by blast
  have "running ?p" "submitted ?p = [7]" by (simp_all add: Submit_def ThreadPool_ctor_def)
  with pool_finishes_all [OF r] show ?thesis by auto
qed

text \<open>C38: the destructor. It has set \<open>running_\<close> and is about to notify all workers. It returns, in every
  interleaving, exactly when no worker is between the evaluation of the predicate of \<open>wait\<close> and going
  to sleep: such a worker misses the notification, since the flag is changed without the mutex, and is
  waited for forever. At most one more task per worker is started; the rest of the queue is dropped.\<close>

theorem destructor_returns_iff:
  assumes "pool_step\<^sup>*\<^sup>* (ThreadPool_ctor n) p" and "dtor p = Stopped" and "signals p = 0"
    and "dtor_step p = Some p'" and "work_step\<^sup>*\<^sup>* p' q" and "final work_step q"
  shows "(dtor_step q \<noteq> None \<longleftrightarrow> W_Sleep \<notin> set (workers p)) \<and> length (started q) \<le> length (started p) + length (workers p)"
proof -
  have i: "pool_inv p" using pool.steps_inv [OF assms(1) pool_inv_ctor] .
  have p': "p' = (notify_all p)\<lparr>dtor := Joining\<rparr>" using assms(2,4) by (simp add: dtor_step_def)
  have i': "pool_inv p'" using dtor_step_inv [OF i assms(4)] .
  have stopped: "\<not> running p'" using dtor_running [OF assms(1)] assms(2) p' by (simp add: notify_all_def)
  have bound: "length (started q) \<le> length (started p) + length (workers p)"
    using stopped_bound [OF assms(5) stopped] unfolding p' by (simp add: notify_all_def)
  have "dtor q = dtor p'" using assms(5) by (induction rule: rtranclp_induct) (simp_all add: work_step_keeps)
  then have iff: "dtor_step q \<noteq> None \<longleftrightarrow> set (workers q) \<subseteq> {W_Exit}" by (simp add: p' dtor_step_def)
  show ?thesis
  proof (cases "W_Sleep \<in> set (workers p)")
    case True
    then have "W_Sleep \<in> set (workers p')" "signals p' = 0" unfolding p' using assms(3) by (auto simp: notify_all_def)
    from stopped_hangs [OF assms(5) this] True iff bound show ?thesis by blast
  next
    case False
    then have "set (workers p') \<inter> {W_Blocked, W_Sleep} = {}" unfolding p' by (auto simp: notify_all_def split: if_splits)
    from stopped_exits [OF assms(5) stopped this i' assms(6)] False iff bound show ?thesis by blast
  qed
qed

abbreviation one_worker :: "nat worker \<Rightarrow> nat option \<Rightarrow> dtor_pc \<Rightarrow> nat ThreadPool" where
  "one_worker w m d \<equiv> \<lparr>workers = [w], tasks = [], mutex = m, running = (d = Alive), signals = 0, dtor = d, submitted = [],
     started = [], finished = []\<rparr>"

theorem destructor_returns_iff_witness:
  "pool_step\<^sup>*\<^sup>* (ThreadPool_ctor 1) (one_worker W_Sleep (Some 0) Stopped)
     \<and> work_step\<^sup>*\<^sup>* (one_worker W_Sleep (Some 0) Joining) (one_worker W_Blocked None Joining)
     \<and> final work_step (one_worker W_Blocked None Joining) \<and> dtor_step (one_worker W_Blocked None Joining) = None"
proof -
  have w: "pool_step (one_worker a m d) (one_worker b m' d)"
    if "worker_step 0 (one_worker a m d) = Some (one_worker b m' d)" for a b m m' d
    using that by (intro pool_step.work work_step.worker [of 0]) simp_all
  have "ThreadPool_ctor 1 = one_worker W_Loop None Alive" by (simp add: ThreadPool_ctor_def)
  moreover have "pool_step (one_worker W_Loop None Alive) (one_worker W_Lock None Alive)"
    "pool_step (one_worker W_Lock None Alive) (one_worker W_Wait (Some 0) Alive)"
    "pool_step (one_worker W_Wait (Some 0) Alive) (one_worker W_Sleep (Some 0) Alive)"
    by (rule w; simp add: worker_step_def)+
  moreover have "pool_step (one_worker W_Sleep (Some 0) Alive) (one_worker W_Sleep (Some 0) Stopped)"
    by (rule pool_step.destroy) (simp add: dtor_step_def)
  ultimately have r: "pool_step\<^sup>*\<^sup>* (ThreadPool_ctor 1) (one_worker W_Sleep (Some 0) Stopped)"
    by (metis (no_types, lifting) converse_rtranclp_into_rtranclp rtranclp.rtrancl_refl)
  have d: "dtor_step (one_worker W_Sleep (Some 0) Stopped) = Some (one_worker W_Sleep (Some 0) Joining)"
    by (simp add: dtor_step_def notify_all_def)
  have "work_step (one_worker W_Sleep (Some 0) Joining) (one_worker W_Blocked None Joining)"
    by (rule work_step.worker [of 0]) (simp_all add: worker_step_def)
  then have s: "work_step\<^sup>*\<^sup>* (one_worker W_Sleep (Some 0) Joining) (one_worker W_Blocked None Joining)" by blast
  have f: "final work_step (one_worker W_Blocked None Joining)"
    by (rule finalI) (auto simp: worker_step_def elim!: work_step.cases)
  from destructor_returns_iff [OF r _ _ d s f] r s f show ?thesis by auto
qed

end
