(* ===== verification/TcpServer.thy ===== *)
theory TcpServer
  imports ThreadPool "HOL-Library.Word"
begin

text \<open>
  The TCP server of \<open>include/server/tcp_server.h\<close> and \<open>src/server/tcp_server.cpp\<close>, in its Linux branches: an
  event loop over \<open>epoll\<close> that accepts connections, reads what arrives and submits it to the thread
  pool, where the callback is run and its reply sent. What the system calls return is an argument of the
  operations that make them. The state of the kernel that the calls change is the record \<open>net\<close>.
  The callback works on a state of its own, of type \<open>'a\<close>; a callback that does not return is \<^const>\<open>None\<close>.
\<close>

section \<open>Sockets\<close>

text \<open>A descriptor stands for a connection as long as it is open; the number of a closed one is used again.
  \<open>outbox\<close> holds the bytes that were sent to each connection.\<close>

record net =
  conns :: "int \<Rightarrow> nat option"
  accepted :: nat
  nonblocking :: "int set"
  outbox :: "nat \<Rightarrow> string"

definition net_start :: net where
  "net_start = \<lparr>conns = (\<lambda>_. None), accepted = 0, nonblocking = {}, outbox = (\<lambda>_. [])\<rparr>"

text \<open>The return values of \<open>recv\<close> and \<open>send\<close>; no bytes is the end of the stream. The buffer has 4096 bytes.\<close>

datatype recv_result = Received string | RecvAgain | RecvError

datatype send_result = Sent nat | SendAgain | SendError

definition sock_accept :: "int \<Rightarrow> net \<Rightarrow> net" where
  "sock_accept fd n = n\<lparr>conns := (conns n)(fd \<mapsto> accepted n), accepted := Suc (accepted n)\<rparr>"

definition sock_send :: "int \<Rightarrow> string \<Rightarrow> send_result \<Rightarrow> net \<Rightarrow> send_result \<times> net" where
  "sock_send fd d r n =
     (case conns n fd of
        None \<Rightarrow> (SendError, n)
      | Some c \<Rightarrow>
          (case r of
             Sent k \<Rightarrow> (Sent k, n\<lparr>outbox := (outbox n)(c := outbox n c @ take k d)\<rparr>)
           | _ \<Rightarrow> (r, n)))"

definition sock_close :: "int \<Rightarrow> net \<Rightarrow> net" where
  "sock_close fd n = n\<lparr>conns := (conns n)(fd := None), nonblocking := nonblocking n - {fd}\<rparr>"

definition SetNonBlocking :: "int \<Rightarrow> net \<Rightarrow> net" where
  "SetNonBlocking fd n = n\<lparr>nonblocking := insert fd (nonblocking n)\<rparr>"

section \<open>The server\<close>

type_synonym task = "int \<times> string"

type_synonym 'a callback = "int \<Rightarrow> string \<Rightarrow> 'a \<Rightarrow> (string result \<times> 'a) option"

record epoll_events =
  EPOLLIN :: bool
  EPOLLOUT :: bool
  EPOLLET :: bool

text \<open>\<open>interest\<close> is the interest list of the \<open>epoll\<close> instance, \<open>event_loops\<close> the number of event loop threads that were
  started.\<close>

record 'a TcpServer =
  tcp_port :: "16 word"
  server_fd :: int
  tcp_running :: bool
  on_message :: "'a callback option"
  thread_pool :: "task ThreadPool option"
  thread_count :: nat
  epoll_fd :: int
  interest :: "int \<Rightarrow> epoll_events option"
  write_buffers :: "int \<Rightarrow> string option"
  event_loops :: nat

definition TcpServer_ctor :: "16 word \<Rightarrow> nat \<Rightarrow> 'a TcpServer" where
  "TcpServer_ctor port tc =
     \<lparr>tcp_port = port, server_fd = -1, tcp_running = False, on_message = None, thread_pool = None, thread_count = tc,
      epoll_fd = -1, interest = (\<lambda>_. None), write_buffers = (\<lambda>_. None), event_loops = 0\<rparr>"

definition SetOnMessage :: "'a callback \<Rightarrow> 'a TcpServer \<Rightarrow> 'a TcpServer" where
  "SetOnMessage cb t = t\<lparr>on_message := Some cb\<rparr>"

text \<open>What the calls of \<open>Start\<close> return.\<close>

record start_calls =
  rc_socket :: int
  rc_bind :: int
  rc_listen :: int
  rc_epoll_create1 :: int

definition TcpServer_Start :: "start_calls \<Rightarrow> 'a TcpServer \<Rightarrow> net \<Rightarrow> bool \<times> 'a TcpServer \<times> net" where
  "TcpServer_Start c t n =
     (let t1 = t\<lparr>server_fd := rc_socket c\<rparr>
      in if rc_socket c < 0 then (False, t1, n)
         else if rc_bind c < 0 then (False, t1, n)
         else if rc_listen c < 0 then (False, t1, n)
         else
           let t2 = t1\<lparr>tcp_running := True, thread_pool := Some (ThreadPool_ctor (thread_count t)), epoll_fd := rc_epoll_create1 c\<rparr>;
               n1 = SetNonBlocking (rc_socket c) n
           in if rc_epoll_create1 c < 0 then (False, t2, n1)
              else (True, t2\<lparr>interest := [rc_socket c \<mapsto> \<lparr>EPOLLIN = True, EPOLLOUT = False, EPOLLET = False\<rparr>],
                             event_loops := Suc (event_loops t)\<rparr>, n1))"

text \<open>The loop of \<open>HandleAccept\<close>: the list has the results of \<open>accept\<close>; a list that ends is followed by a call
  that fails because no connection is waiting.\<close>

definition accept_once :: "int \<Rightarrow> 'a TcpServer \<Rightarrow> net \<Rightarrow> 'a TcpServer \<times> net" where
  "accept_once fd t n =
     (t\<lparr>interest := (interest t)(fd \<mapsto> \<lparr>EPOLLIN = True, EPOLLOUT = False, EPOLLET = True\<rparr>)\<rparr>,
      SetNonBlocking fd (sock_accept fd n))"

fun HandleAccept :: "int list \<Rightarrow> 'a TcpServer \<Rightarrow> net \<Rightarrow> 'a TcpServer \<times> net" where
  "HandleAccept [] t n = (t, n)"
| "HandleAccept (client_fd # fds) t n =
     (if client_fd < 0 then (t, n) else let (t1, n1) = accept_once client_fd t n in HandleAccept fds t1 n1)"

definition CloseConnection :: "int \<Rightarrow> 'a TcpServer \<Rightarrow> net \<Rightarrow> 'a TcpServer \<times> net" where
  "CloseConnection fd t n =
     (t\<lparr>interest := (interest t)(fd := None), write_buffers := (write_buffers t)(fd := None)\<rparr>, sock_close fd n)"

text \<open>One round of the loop of \<open>HandleRead\<close>, with the result of \<open>recv\<close>; the value is whether the loop goes on. After
  \<open>Stop\<close> the pointer to the pool is null.\<close>

definition read_once :: "int \<Rightarrow> recv_result \<Rightarrow> 'a TcpServer \<Rightarrow> net \<Rightarrow> bool result \<times> 'a TcpServer \<times> net" where
  "read_once fd r t n =
     (case r of
        RecvAgain \<Rightarrow> (Inr False, t, n)
      | RecvError \<Rightarrow> (Inr False, CloseConnection fd t n)
      | Received d \<Rightarrow>
          if d = [] then (Inr False, CloseConnection fd t n)
          else
            (case (on_message t, thread_pool t) of
               (None, _) \<Rightarrow> (Inr True, t, n)
             | (Some _, None) \<Rightarrow> (Inl Undefined, t, n)
             | (Some _, Some p) \<Rightarrow>
                 (case Submit (fd, d) p of
                    (Inl e, p1) \<Rightarrow> (Inl e, t\<lparr>thread_pool := Some p1\<rparr>, n)
                  | (Inr _, p1) \<Rightarrow> (Inr True, t\<lparr>thread_pool := Some p1\<rparr>, n))))"

fun HandleRead :: "int \<Rightarrow> recv_result list \<Rightarrow> 'a TcpServer \<Rightarrow> net \<Rightarrow> unit result \<times> 'a TcpServer \<times> net" where
  "HandleRead fd [] t n = (Inr (), t, n)"
| "HandleRead fd (r # rs) t n =
     (case read_once fd r t n of
        (Inl e, t1, n1) \<Rightarrow> (Inl e, t1, n1)
      | (Inr go_on, t1, n1) \<Rightarrow> if go_on then HandleRead fd rs t1 n1 else (Inr (), t1, n1))"

text \<open>\<open>HandleWrite\<close>. It holds \<open>write_mutex_\<close>; when \<open>send\<close> fails it calls \<open>CloseConnection\<close>, which locks the same mutex
  again: undefined for a \<open>std::mutex\<close>.\<close>

fun write_out :: "int \<Rightarrow> send_result list \<Rightarrow> string \<Rightarrow> net \<Rightarrow> string result \<times> net" where
  "write_out fd [] b n = (Inr b, n)"
| "write_out fd (r # rs) b n =
     (if b = [] then (Inr b, n)
      else
        (case sock_send fd b r n of
           (Sent k, n1) \<Rightarrow> write_out fd rs (drop k b) n1
         | (SendAgain, n1) \<Rightarrow> (Inr b, n1)
         | (SendError, n1) \<Rightarrow> (Inl Undefined, n1)))"

definition HandleWrite :: "int \<Rightarrow> send_result list \<Rightarrow> 'a TcpServer \<Rightarrow> net \<Rightarrow> unit result \<times> 'a TcpServer \<times> net" where
  "HandleWrite fd rs t n =
     (case write_buffers t fd of
        None \<Rightarrow> (Inr (), t, n)
      | Some b \<Rightarrow>
          (case write_out fd rs b n of
             (Inl e, n1) \<Rightarrow> (Inl e, t, n1)
           | (Inr b1, n1) \<Rightarrow>
               if b1 = [] then
                 (Inr (), t\<lparr>write_buffers := (write_buffers t)(fd := None),
                            interest := (if interest t fd = None then interest t
                              else (interest t)(fd \<mapsto> \<lparr>EPOLLIN = True, EPOLLOUT = False, EPOLLET = True\<rparr>))\<rparr>, n1)
               else (Inr (), t\<lparr>write_buffers := (write_buffers t)(fd \<mapsto> b1)\<rparr>, n1)))"

text \<open>An event of \<open>epoll_wait\<close>, with the results of the calls that handling it makes.\<close>

record ready_event =
  ev_fd :: int
  ev_in :: bool
  ev_out :: bool
  ev_accepts :: "int list"
  ev_recvs :: "recv_result list"
  ev_sends :: "send_result list"

datatype wait_result = Ready "ready_event list" | Interrupted | WaitError

definition dispatch :: "ready_event \<Rightarrow> 'a TcpServer \<Rightarrow> net \<Rightarrow> unit result \<times> 'a TcpServer \<times> net" where
  "dispatch e t n =
     (if ev_fd e = server_fd t then (Inr (), HandleAccept (ev_accepts e) t n)
      else if ev_in e then HandleRead (ev_fd e) (ev_recvs e) t n
      else if ev_out e then HandleWrite (ev_fd e) (ev_sends e) t n
      else (Inr (), t, n))"

fun dispatch_all :: "ready_event list \<Rightarrow> 'a TcpServer \<Rightarrow> net \<Rightarrow> unit result \<times> 'a TcpServer \<times> net" where
  "dispatch_all [] t n = (Inr (), t, n)"
| "dispatch_all (e # es) t n =
     (case dispatch e t n of
        (Inl x, t1, n1) \<Rightarrow> (Inl x, t1, n1)
      | (Inr _, t1, n1) \<Rightarrow> dispatch_all es t1 n1)"

text \<open>\<open>EventLoop\<close>, for the calls of \<open>epoll_wait\<close> that have returned. The first component is whether the thread is still
  in the loop; an exception that leaves it ends the program.\<close>

fun EventLoop :: "wait_result list \<Rightarrow> 'a TcpServer \<Rightarrow> net \<Rightarrow> bool result \<times> 'a TcpServer \<times> net" where
  "EventLoop [] t n = (Inr (tcp_running t), t, n)"
| "EventLoop (w # ws) t n =
     (if \<not> tcp_running t then (Inr False, t, n)
      else
        (case w of
           Interrupted \<Rightarrow> EventLoop ws t n
         | WaitError \<Rightarrow> (Inr False, t, n)
         | Ready es \<Rightarrow>
             (case dispatch_all es t n of
                (Inl x, t1, n1) \<Rightarrow> (Inl x, t1, n1)
              | (Inr _, t1, n1) \<Rightarrow> EventLoop ws t1 n1)))"

text \<open>\<open>Stop\<close>, once the destructor of the pool has returned. The connections are not closed.\<close>

definition TcpServer_Stop :: "'a TcpServer \<Rightarrow> net \<Rightarrow> 'a TcpServer \<times> net" where
  "TcpServer_Stop t n =
     (let t1 = t\<lparr>tcp_running := False, thread_pool := None\<rparr>;
          t2 = (if 0 \<le> epoll_fd t1 then t1\<lparr>epoll_fd := -1, interest := (\<lambda>_. None)\<rparr> else t1)
      in if 0 \<le> server_fd t2 then (t2\<lparr>server_fd := -1\<rparr>, n\<lparr>nonblocking := nonblocking n - {server_fd t2}\<rparr>) else (t2, n))"

definition TcpServer_dtor :: "'a TcpServer \<Rightarrow> net \<Rightarrow> 'a TcpServer \<times> net" where
  "TcpServer_dtor t n = TcpServer_Stop t n"

lemmas socket_defs = sock_accept_def sock_send_def sock_close_def SetNonBlocking_def

section \<open>Reading\<close>

abbreviation enqueue :: "'t list \<Rightarrow> 't ThreadPool \<Rightarrow> 't ThreadPool" where
  "enqueue ts p \<equiv> p\<lparr>tasks := tasks p @ ts, signals := signals p + length ts, submitted := submitted p @ ts\<rparr>"

lemma Submit_running: "running p \<Longrightarrow> Submit t p = (Inr (), enqueue [t] p)"
  by (simp add: Submit_def)

lemma read_once_data:
  assumes "on_message t \<noteq> None" and "thread_pool t = Some p" and "running p" and "d \<noteq> []"
  shows "read_once fd (Received d) t n = (Inr True, t\<lparr>thread_pool := Some (enqueue [(fd, d)] p)\<rparr>, n)"
  using assms by (auto simp: read_once_def Submit_running)

lemma thread_pool_self: "thread_pool t = Some p \<Longrightarrow> (t :: 'a TcpServer)\<lparr>thread_pool := Some p\<rparr> = t"
  by simp

lemma HandleRead_data:
  assumes "on_message t \<noteq> None" and "thread_pool t = Some p" and "running p" and "\<forall>d \<in> set ds. d \<noteq> []"
  shows "HandleRead fd (map Received ds @ rs) t n = HandleRead fd rs (t\<lparr>thread_pool := Some (enqueue (map (Pair fd) ds) p)\<rparr>) n"
  using assms
proof (induction ds arbitrary: t p)
  case Nil
  then show ?case by (simp add: thread_pool_self)
next
  case (Cons d ds)
  have "read_once fd (Received d) t n = (Inr True, t\<lparr>thread_pool := Some (enqueue [(fd, d)] p)\<rparr>, n)"
    using Cons.prems by (intro read_once_data) simp_all
  with Cons.IH [of "t\<lparr>thread_pool := Some (enqueue [(fd, d)] p)\<rparr>" "enqueue [(fd, d)] p"] Cons.prems show ?case by simp
qed

section \<open>The event loop\<close>

definition quiet_interest :: "epoll_events option \<Rightarrow> bool" where
  "quiet_interest e \<longleftrightarrow> (\<forall>x. e = Some x \<longrightarrow> EPOLLIN x \<and> \<not> EPOLLOUT x)"

definition reactor_inv :: "'a TcpServer \<Rightarrow> net \<Rightarrow> bool" where
  "reactor_inv t n \<longleftrightarrow> dom (interest t) \<subseteq> nonblocking n \<and> dom (interest t) \<subseteq> insert (server_fd t) (dom (conns n))
     \<and> (\<forall>fd. quiet_interest (interest t fd)) \<and> write_buffers t = (\<lambda>_. None)
     \<and> tcp_running t \<and> (\<exists>p. thread_pool t = Some p \<and> running p)"

lemma reactor_inv_accept:
  assumes "reactor_inv t n"
  shows "reactor_inv (fst (HandleAccept fds t n)) (snd (HandleAccept fds t n)) \<and> server_fd (fst (HandleAccept fds t n)) = server_fd t"
  using assms
proof (induction fds arbitrary: t n)
  case (Cons fd fds)
  obtain t1 n1 where a: "accept_once fd t n = (t1, n1)" by fastforce
  with Cons.prems have "reactor_inv t1 n1" "server_fd t1 = server_fd t"
    by (auto simp: accept_once_def socket_defs reactor_inv_def quiet_interest_def split: if_splits dest: subsetD [OF _ domI])
  with Cons.IH [of t1 n1] Cons.prems a show ?case by simp
qed simp

lemma reactor_inv_close:
  assumes "reactor_inv t n" and "fd \<noteq> server_fd t" and "CloseConnection fd t n = (t1, n1)"
  shows "reactor_inv t1 n1 \<and> server_fd t1 = server_fd t"
  using assms by (auto simp: CloseConnection_def socket_defs reactor_inv_def quiet_interest_def split: if_splits dest: subsetD [OF _ domI])

lemma reactor_inv_read_once:
  assumes "reactor_inv t n" and "fd \<noteq> server_fd t" and "read_once fd r t n = (b, t1, n1)"
  shows "reactor_inv t1 n1 \<and> server_fd t1 = server_fd t \<and> (\<exists>x. b = Inr x)"
proof -
  from assms(1) obtain p where p: "thread_pool t = Some p" "running p" by (auto simp: reactor_inv_def)
  have q: "reactor_inv (t\<lparr>thread_pool := Some (enqueue [(fd, d)] p)\<rparr>) n" for d using assms(1) p by (simp add: reactor_inv_def)
  note c = reactor_inv_close [OF assms(1,2)]
  show ?thesis
  proof (cases r)
    case (Received d)
    with assms p q c show ?thesis by (auto simp: read_once_def Submit_running split: if_splits option.splits)
  qed (use assms c in \<open>auto simp: read_once_def\<close>)
qed

lemma reactor_inv_read:
  assumes "reactor_inv t n" and "fd \<noteq> server_fd t" and "HandleRead fd rs t n = (b, t1, n1)"
  shows "reactor_inv t1 n1 \<and> server_fd t1 = server_fd t \<and> b = Inr ()"
  using assms
proof (induction rs arbitrary: t n)
  case (Cons r rs)
  obtain b2 t2 n2 where r: "read_once fd r t n = (b2, t2, n2)" by (cases "read_once fd r t n") auto
  with reactor_inv_read_once [OF Cons.prems(1,2) r] Cons.IH [of t2 n2] Cons.prems show ?case by (auto split: if_splits)
qed simp

lemma reactor_inv_dispatch:
  assumes "reactor_inv t n" and "dispatch e t n = (b, t1, n1)"
  shows "reactor_inv t1 n1 \<and> server_fd t1 = server_fd t \<and> b = Inr ()"
proof (cases "ev_fd e = server_fd t")
  case True
  with assms reactor_inv_accept [OF assms(1), of "ev_accepts e"] show ?thesis by (auto simp: dispatch_def)
next
  case False
  with assms reactor_inv_read [OF assms(1) False, of "ev_recvs e" b t1 n1] show ?thesis
    by (auto simp: dispatch_def HandleWrite_def reactor_inv_def split: if_splits)
qed

lemma reactor_inv_dispatch_all:
  assumes "reactor_inv t n" and "dispatch_all es t n = (b, t1, n1)"
  shows "reactor_inv t1 n1 \<and> server_fd t1 = server_fd t \<and> b = Inr ()"
  using assms
proof (induction es arbitrary: t n)
  case (Cons e es)
  obtain b2 t2 n2 where d: "dispatch e t n = (b2, t2, n2)" by (cases "dispatch e t n") auto
  with reactor_inv_dispatch [OF Cons.prems(1) d] Cons.IH [of t2 n2] Cons.prems show ?case by auto
qed simp

lemma reactor_inv_loop:
  assumes "reactor_inv t n" and "EventLoop ws t n = (b, t1, n1)"
  shows "reactor_inv t1 n1 \<and> server_fd t1 = server_fd t \<and> b = Inr (WaitError \<notin> set ws)"
  using assms
proof (induction ws arbitrary: t n)
  case (Cons w ws)
  have run: "tcp_running t" using Cons.prems(1) by (simp add: reactor_inv_def)
  show ?case
  proof (cases w)
    case (Ready es)
    obtain b2 t2 n2 where d: "dispatch_all es t n = (b2, t2, n2)" by (cases "dispatch_all es t n") auto
    with reactor_inv_dispatch_all [OF Cons.prems(1) d] Cons.IH [of t2 n2] Cons.prems run Ready show ?thesis by auto
  next
    case Interrupted
    with Cons run show ?thesis by simp
  next
    case WaitError
    with Cons.prems run show ?thesis by simp
  qed
qed (auto simp: reactor_inv_def)

lemma Start_reactor_inv:
  assumes "TcpServer_Start c t n = (True, t1, n1)" and "write_buffers t = (\<lambda>_. None)"
  shows "reactor_inv t1 n1" and "server_fd t1 = rc_socket c" and "on_message t1 = on_message t"
    and "conns n1 = conns n" and "outbox n1 = outbox n" and "accepted n1 = accepted n"
    and "thread_pool t1 = Some (ThreadPool_ctor (thread_count t))"
  using assms
  by (auto simp: TcpServer_Start_def Let_def reactor_inv_def quiet_interest_def ThreadPool_ctor_def SetNonBlocking_def split: if_splits)

section \<open>Properties\<close>

text \<open>C22: \<open>Start\<close> succeeds exactly when the four calls do, and after a failure no event loop is running. The server then
  never blocks in a read and never ends by an exception: whatever the kernel reports, every descriptor that is
  watched is open and non-blocking, and only a failing \<open>epoll_wait\<close> ends the loop. The write buffers are never
  filled and no write event is asked for, so \<open>HandleWrite\<close> has nothing to do.\<close>

theorem event_loop_safe:
  assumes "TcpServer_Start c (SetOnMessage cb (TcpServer_ctor port tc)) n0 = (ok, t0, n1)"
  shows "ok = (0 \<le> rc_socket c \<and> 0 \<le> rc_bind c \<and> 0 \<le> rc_listen c \<and> 0 \<le> rc_epoll_create1 c)
     \<and> event_loops t0 = (if ok then 1 else 0)
     \<and> (ok \<longrightarrow> (\<forall>ws r t n. EventLoop ws t0 n1 = (r, t, n) \<longrightarrow>
          r = Inr (WaitError \<notin> set ws) \<and> dom (interest t) \<subseteq> nonblocking n
          \<and> dom (interest t) \<subseteq> insert (server_fd t) (dom (conns n))
          \<and> (\<forall>fd e. interest t fd = Some e \<longrightarrow> \<not> EPOLLOUT e) \<and> (\<forall>fd rs. HandleWrite fd rs t n = (Inr (), t, n))))"
proof -
  have s: "ok = (0 \<le> rc_socket c \<and> 0 \<le> rc_bind c \<and> 0 \<le> rc_listen c \<and> 0 \<le> rc_epoll_create1 c)"
    "event_loops t0 = (if ok then 1 else 0)"
    using assms by (auto simp: TcpServer_Start_def SetOnMessage_def TcpServer_ctor_def Let_def split: if_splits)
  have "r = Inr (WaitError \<notin> set ws) \<and> dom (interest t) \<subseteq> nonblocking n \<and> dom (interest t) \<subseteq> insert (server_fd t) (dom (conns n))
      \<and> (\<forall>fd e. interest t fd = Some e \<longrightarrow> \<not> EPOLLOUT e) \<and> (\<forall>fd rs. HandleWrite fd rs t n = (Inr (), t, n))"
    if "ok" "EventLoop ws t0 n1 = (r, t, n)" for ws r t n
  proof -
    have "reactor_inv t0 n1"
      using Start_reactor_inv(1) [of c "SetOnMessage cb (TcpServer_ctor port tc)" n0 t0 n1] assms that(1)
      by (simp add: SetOnMessage_def TcpServer_ctor_def)
    from reactor_inv_loop [OF this that(2)] show ?thesis
      by (auto simp: reactor_inv_def quiet_interest_def HandleWrite_def)
  qed
  with s show ?thesis by blast
qed

abbreviation ex_calls :: start_calls where
  "ex_calls \<equiv> \<lparr>rc_socket = 3, rc_bind = 0, rc_listen = 0, rc_epoll_create1 = 4\<rparr>"

abbreviation ex_event :: "int \<Rightarrow> int list \<Rightarrow> recv_result list \<Rightarrow> ready_event" where
  "ex_event fd as rs \<equiv> \<lparr>ev_fd = fd, ev_in = True, ev_out = False, ev_accepts = as, ev_recvs = rs, ev_sends = []\<rparr>"

abbreviation echo :: "nat callback" where
  "echo \<equiv> \<lambda>fd d k. Some (Inr d, Suc k)"

theorem event_loop_safe_witness:
  "case TcpServer_Start ex_calls (SetOnMessage echo (TcpServer_ctor 6379 0)) net_start of (ok, t0, n1) \<Rightarrow>
     ok \<and> (case EventLoop [Ready [ex_event 3 [5, -1] []], Interrupted, Ready [ex_event 5 [] [Received ''x'', RecvAgain]]] t0 n1 of
       (r, t, n) \<Rightarrow> r = Inr True \<and> dom (interest t) \<subseteq> nonblocking n)"
proof -
  obtain ok t0 n1 where s: "TcpServer_Start ex_calls (SetOnMessage echo (TcpServer_ctor 6379 0)) net_start = (ok, t0, n1)"
    by (cases "TcpServer_Start ex_calls (SetOnMessage echo (TcpServer_ctor 6379 0)) net_start") auto
  let ?ws = "[Ready [ex_event 3 [5, -1] []], Interrupted, Ready [ex_event 5 [] [Received ''x'', RecvAgain]]]"
  obtain r t n where l: "EventLoop ?ws t0 n1 = (r, t, n)" by (cases "EventLoop ?ws t0 n1") auto
  have ok: "ok" using event_loop_safe [OF s] by simp
  with event_loop_safe [OF s] l have "r = Inr (WaitError \<notin> set ?ws)" "dom (interest t) \<subseteq> nonblocking n" by blast+
  with ok have "ok" "r = Inr True" "dom (interest t) \<subseteq> nonblocking n" by simp_all
  then show ?thesis unfolding s l prod.case by simp
qed

text \<open>Reading a connection. The pieces that \<open>recv\<close> returns before it would block are submitted to the pool in
  the order in which they arrived, none is lost or changed, nothing else is; and the connection is closed
  exactly when the peer has closed it or an error occurred.\<close>

theorem HandleRead_submits_stream:
  assumes "on_message t \<noteq> None" and "thread_pool t = Some p" and "running p" and "\<forall>d \<in> set ds. d \<noteq> []"
    and "r \<in> {RecvAgain, RecvError, Received []}"
    and "HandleRead fd (map Received ds @ r # rs) t n = (res, t', n')"
  shows "res = Inr () \<and> thread_pool t' = Some (enqueue (map (Pair fd) ds) p)
     \<and> conns n' = (if r = RecvAgain then conns n else (conns n)(fd := None))
     \<and> interest t' = (if r = RecvAgain then interest t else (interest t)(fd := None)) \<and> outbox n' = outbox n"
  using assms(5,6) HandleRead_data [OF assms(1-4), of fd "r # rs" n]
  by (auto simp: read_once_def CloseConnection_def sock_close_def)

theorem HandleRead_submits_stream_witness:
  "case TcpServer_Start ex_calls (SetOnMessage echo (TcpServer_ctor 6379 0)) net_start of (ok, t0, n1) \<Rightarrow>
     case HandleRead 5 (map Received [''ab'', ''c''] @ RecvAgain # []) t0 n1 of (res, t, n) \<Rightarrow>
       res = Inr () \<and> map_option submitted (thread_pool t) = Some [(5, ''ab''), (5, ''c'')]"
proof -
  obtain ok t0 n1 where s: "TcpServer_Start ex_calls (SetOnMessage echo (TcpServer_ctor 6379 0)) net_start = (ok, t0, n1)"
    by (cases "TcpServer_Start ex_calls (SetOnMessage echo (TcpServer_ctor 6379 0)) net_start") auto
  obtain res t n where h: "HandleRead 5 (map Received [''ab'', ''c''] @ RecvAgain # []) t0 n1 = (res, t, n)"
    by (cases "HandleRead 5 (map Received [''ab'', ''c''] @ RecvAgain # []) t0 n1") auto
  have "on_message t0 \<noteq> None" "thread_pool t0 = Some (ThreadPool_ctor 0)" "running (ThreadPool_ctor 0 :: task ThreadPool)"
    "submitted (ThreadPool_ctor 0 :: task ThreadPool) = []"
    using s by (auto simp: TcpServer_Start_def SetOnMessage_def TcpServer_ctor_def ThreadPool_ctor_def Let_def)
  with HandleRead_submits_stream [OF this(1-3) _ _ h] have "res = Inr ()" "map_option submitted (thread_pool t) = Some [(5, ''ab''), (5, ''c'')]"
    by simp_all
  then show ?thesis unfolding s h prod.case by simp
qed

end
