(* ===== verification/ServerRun.thy ===== *)
theory ServerRun
  imports TcpServer "HOL-Library.Sublist"
begin

text \<open>
  The TCP server at work: the thread of the event loop, the workers of the pool and the kernel take turns.
  A task of the pool is what \<open>HandleRead\<close> submits: it runs the callback and sends the reply. The
  handlers of two workers are not interleaved with each other here; the steps of the store's operations
  are the subject of the theory \<open>ConcurrentStore\<close>. The theorems hold for every callback.
\<close>

section \<open>Steps\<close>

text \<open>\<open>answer\<close> has, for each worker, the reply that its task has computed and not yet sent; \<open>handled\<close> records the
  tasks in the order in which their callback ran.\<close>

record 'a sys =
  tcp :: "'a TcpServer"
  sys_net :: net
  app :: 'a
  answer :: "string result option list"
  handled :: "task list"

datatype pool_event = PE_Worker nat | PE_Wake nat | PE_NoWake | PE_Spurious nat

datatype event =
    E_Accept int                 \<comment> \<open>one \<open>accept\<close> of \<open>HandleAccept\<close>\<close>
  | E_Read int recv_result       \<comment> \<open>one round of \<open>HandleRead\<close>\<close>
  | E_Pool pool_event            \<comment> \<open>the pool, between tasks\<close>
  | E_Handle nat                 \<comment> \<open>a worker runs the callback\<close>
  | E_Send nat send_result       \<comment> \<open>a worker sends the reply, and its task ends\<close>

fun busy :: "'t worker \<Rightarrow> 't list" where
  "busy (W_Run t) = [t]"
| "busy _ = []"

definition pool_event :: "pool_event \<Rightarrow> task ThreadPool \<Rightarrow> task ThreadPool option" where
  "pool_event e p =
     (case e of
        PE_Worker i \<Rightarrow> if i < length (workers p) \<and> busy (workers p ! i) = [] then worker_step i p else None
      | PE_Wake i \<Rightarrow>
          if 0 < signals p \<and> i < length (workers p) \<and> workers p ! i = W_Blocked then Some (notify_one (Some i) p) else None
      | PE_NoWake \<Rightarrow> if 0 < signals p \<and> W_Blocked \<notin> set (workers p) then Some (notify_one None p) else None
      | PE_Spurious i \<Rightarrow> if i < length (workers p) \<and> workers p ! i = W_Blocked then Some (set_worker i W_Lock p) else None)"

text \<open>The end of the task: the exception of a callback stays in the \<open>packaged_task\<close>, an empty reply is not sent, and
  the result of \<open>send\<close> is ignored.\<close>

definition send_reply :: "int \<Rightarrow> string result \<Rightarrow> send_result \<Rightarrow> net \<Rightarrow> net" where
  "send_reply fd r sr n =
     (case r of Inl _ \<Rightarrow> n | Inr resp \<Rightarrow> if resp = [] then n else snd (sock_send fd resp sr n))"

definition submits :: "recv_result \<Rightarrow> bool" where
  "submits r \<longleftrightarrow> (case r of Received d \<Rightarrow> d \<noteq> [] | _ \<Rightarrow> False)"

abbreviation set_pool :: "task ThreadPool \<Rightarrow> 'a sys \<Rightarrow> 'a sys" where
  "set_pool q s \<equiv> s\<lparr>tcp := (tcp s)\<lparr>thread_pool := Some q\<rparr>\<rparr>"

text \<open>The state after an event, \<^const>\<open>None\<close> where it cannot happen. The kernel gives a new connection a descriptor that is
  not in use. A callback that does not return leaves its worker where it is.\<close>

definition server_step :: "event \<Rightarrow> 'a sys \<Rightarrow> 'a sys option" where
  "server_step e s =
     (case thread_pool (tcp s) of
        None \<Rightarrow> None
      | Some p \<Rightarrow>
          (case e of
             E_Accept fd \<Rightarrow>
               if 0 \<le> fd \<and> conns (sys_net s) fd = None \<and> fd \<noteq> server_fd (tcp s) then
                 let (t, n) = accept_once fd (tcp s) (sys_net s) in Some (s\<lparr>tcp := t, sys_net := n\<rparr>)
               else None
           | E_Read fd r \<Rightarrow>
               if interest (tcp s) fd = None \<or> fd = server_fd (tcp s) \<or> submits r \<and> mutex p \<noteq> None then None
               else
                 (case read_once fd r (tcp s) (sys_net s) of
                    (Inl _, _, _) \<Rightarrow> None
                  | (Inr _, t, n) \<Rightarrow> Some (s\<lparr>tcp := t, sys_net := n\<rparr>))
           | E_Pool pe \<Rightarrow> map_option (\<lambda>q. set_pool q s) (pool_event pe p)
           | E_Handle i \<Rightarrow>
               if i < length (workers p) then
                 (case (busy (workers p ! i), answer s ! i, on_message (tcp s)) of
                    ([(fd, d)], None, Some cb) \<Rightarrow>
                      (case cb fd d (app s) of
                         None \<Rightarrow> None
                       | Some (r, a) \<Rightarrow>
                           if r = Inl Undefined then None
                           else Some (s\<lparr>app := a, answer := (answer s)[i := Some r], handled := handled s @ [(fd, d)]\<rparr>))
                  | _ \<Rightarrow> None)
               else None
           | E_Send i sr \<Rightarrow>
               if i < length (workers p) then
                 (case (busy (workers p ! i), answer s ! i) of
                    ([(fd, d)], Some r) \<Rightarrow>
                      map_option (\<lambda>q. (set_pool q s)\<lparr>sys_net := send_reply fd r sr (sys_net s), answer := (answer s)[i := None]\<rparr>)
                        (worker_step i p)
                  | _ \<Rightarrow> None)
               else None))"

fun run_events :: "event list \<Rightarrow> 'a sys \<Rightarrow> 'a sys option" where
  "run_events [] s = Some s"
| "run_events (e # es) s = (case server_step e s of None \<Rightarrow> None | Some s1 \<Rightarrow> run_events es s1)"

text \<open>The server right after \<open>Start\<close>.\<close>

definition sys_start :: "start_calls \<Rightarrow> 16 word \<Rightarrow> nat \<Rightarrow> 'a callback \<Rightarrow> 'a \<Rightarrow> 'a sys option" where
  "sys_start c port tc cb a =
     (case TcpServer_Start c (SetOnMessage cb (TcpServer_ctor port tc)) net_start of
        (ok, t, n) \<Rightarrow>
          (case thread_pool t of
             Some p \<Rightarrow>
               if ok then Some \<lparr>tcp = t, sys_net = n, app = a, answer = replicate (length (workers p)) None, handled = []\<rparr>
               else None
           | None \<Rightarrow> None))"

section \<open>The sequential server\<close>

text \<open>The reference: the callback runs on one task after the other.\<close>

fun run_tasks :: "'a callback \<Rightarrow> task list \<Rightarrow> 'a \<Rightarrow> ((int \<times> string result) list \<times> 'a) option" where
  "run_tasks cb [] a = Some ([], a)"
| "run_tasks cb ((fd, d) # ts) a =
     (case cb fd d a of
        None \<Rightarrow> None
      | Some (r, a1) \<Rightarrow> (case run_tasks cb ts a1 of None \<Rightarrow> None | Some (rs, a2) \<Rightarrow> Some ((fd, r) # rs, a2)))"

text \<open>The tasks of a connection, and the bytes that answer it.\<close>

definition of_conn :: "int \<Rightarrow> (int \<times> 'b) list \<Rightarrow> (int \<times> 'b) list" where
  "of_conn fd ts = filter (\<lambda>t. fst t = fd) ts"

definition replies_to :: "int \<Rightarrow> (int \<times> string result) list \<Rightarrow> string" where
  "replies_to fd rs = concat (map (\<lambda>r. case snd r of Inl _ \<Rightarrow> [] | Inr x \<Rightarrow> x) (of_conn fd rs))"

definition sent_on :: "net \<Rightarrow> int \<Rightarrow> string" where
  "sent_on n fd = (case conns n fd of None \<Rightarrow> [] | Some c \<Rightarrow> outbox n c)"

definition outstanding :: "task ThreadPool \<Rightarrow> int list" where
  "outstanding p = map fst (concat (map busy (workers p)) @ tasks p)"

text \<open>A client that waits for its answer: the next piece of a connection is read when the previous one is done,
  connections stay open, and \<open>send\<close> takes the whole reply.\<close>

definition orderly :: "event \<Rightarrow> 'a sys \<Rightarrow> bool" where
  "orderly e s =
     (case e of
        E_Read fd r \<Rightarrow>
          r = RecvAgain \<or> submits r \<and> (case thread_pool (tcp s) of None \<Rightarrow> False | Some p \<Rightarrow> fd \<notin> set (outstanding p))
      | E_Send i sr \<Rightarrow>
          (case answer s ! i of Some (Inr resp) \<Rightarrow> (case sr of Sent k \<Rightarrow> length resp \<le> k | _ \<Rightarrow> False) | _ \<Rightarrow> True)
      | _ \<Rightarrow> True)"

definition orderly_step :: "'a sys \<Rightarrow> 'a sys \<Rightarrow> bool" where
  "orderly_step s s' \<longleftrightarrow> (\<exists>e. orderly e s \<and> server_step e s = Some s')"

lemma of_conn_simps [simp]:
  "of_conn fd [] = []" "of_conn fd (x # xs) = (if fst x = fd then x # of_conn fd xs else of_conn fd xs)"
  "of_conn fd (xs @ ys) = of_conn fd xs @ of_conn fd ys"
  by (simp_all add: of_conn_def)

lemma replies_to_simps [simp]:
  "replies_to fd [] = []" "replies_to fd (xs @ ys) = replies_to fd xs @ replies_to fd ys"
  "replies_to fd ((fd', r) # xs) = (if fd' = fd then (case r of Inl _ \<Rightarrow> [] | Inr x \<Rightarrow> x) else []) @ replies_to fd xs"
  by (simp_all add: replies_to_def)

lemma of_conn_none: "fd \<notin> fst ` set xs \<Longrightarrow> of_conn fd xs = []"
  by (auto simp: of_conn_def filter_empty_conv)

lemma run_tasks_append:
  "run_tasks cb (xs @ ys) a =
     (case run_tasks cb xs a of
        None \<Rightarrow> None
      | Some (rs, a1) \<Rightarrow> (case run_tasks cb ys a1 of None \<Rightarrow> None | Some (rs2, a2) \<Rightarrow> Some (rs @ rs2, a2)))"
  by (induction cb xs a rule: run_tasks.induct) (auto split: option.splits)

section \<open>The invariant\<close>

text \<open>The contributions of a worker: its task, if the callback has not run yet, and the reply that waits to be sent.\<close>

fun waiting :: "task list \<times> string result option \<Rightarrow> task list" where
  "waiting (b, None) = b"
| "waiting (b, Some r) = []"

fun pending_reply :: "int \<Rightarrow> task list \<times> string result option \<Rightarrow> string" where
  "pending_reply fd (b, Some (Inr x)) = (if map fst b = [fd] then x else [])"
| "pending_reply fd _ = []"

abbreviation jobs :: "task ThreadPool \<Rightarrow> 'a sys \<Rightarrow> (task list \<times> string result option) list" where
  "jobs p s \<equiv> zip (map busy (workers p)) (answer s)"

definition unhandled :: "task ThreadPool \<Rightarrow> 'a sys \<Rightarrow> task list" where
  "unhandled p s = concat (map waiting (jobs p s)) @ tasks p"

definition pending_for :: "int \<Rightarrow> task ThreadPool \<Rightarrow> 'a sys \<Rightarrow> string" where
  "pending_for fd p s = concat (map (pending_reply fd) (jobs p s))"

definition shape_ok :: "task ThreadPool \<Rightarrow> 'a sys \<Rightarrow> bool" where
  "shape_ok p s \<longleftrightarrow> pool_inv p \<and> running p \<and> length (answer s) = length (workers p)
     \<and> (\<forall>i < length (workers p). busy (workers p ! i) = [] \<longrightarrow> answer s ! i = None)"

definition order_ok :: "task ThreadPool \<Rightarrow> 'a sys \<Rightarrow> bool" where
  "order_ok p s \<longleftrightarrow> distinct (outstanding p) \<and> (\<forall>fd. of_conn fd (submitted p) = of_conn fd (handled s) @ of_conn fd (unhandled p s))"

definition reply_ok :: "'a callback \<Rightarrow> 'a \<Rightarrow> task ThreadPool \<Rightarrow> 'a sys \<Rightarrow> bool" where
  "reply_ok cb a0 p s \<longleftrightarrow> (\<exists>ans. run_tasks cb (handled s) a0 = Some (ans, app s)
     \<and> (\<forall>fd. replies_to fd ans = sent_on (sys_net s) fd @ pending_for fd p s))"

definition net_ok :: "task ThreadPool \<Rightarrow> 'a TcpServer \<Rightarrow> net \<Rightarrow> bool" where
  "net_ok p t n \<longleftrightarrow> (\<forall>fd c. conns n fd = Some c \<longrightarrow> c < accepted n) \<and> (\<forall>fd fd' c. conns n fd = Some c \<and> conns n fd' = Some c \<longrightarrow> fd = fd')
     \<and> (\<forall>c \<ge> accepted n. outbox n c = []) \<and> set (outstanding p) \<subseteq> dom (conns n)
     \<and> dom (interest t) \<subseteq> insert (server_fd t) (dom (conns n))"

definition sys_inv :: "'a callback \<Rightarrow> 'a \<Rightarrow> 'a sys \<Rightarrow> bool" where
  "sys_inv cb a0 s \<longleftrightarrow> (\<exists>p. thread_pool (tcp s) = Some p \<and> on_message (tcp s) = Some cb
     \<and> shape_ok p s \<and> order_ok p s \<and> reply_ok cb a0 p s \<and> net_ok p (tcp s) (sys_net s))"

lemma waiting_subset: "set (concat (map waiting (zip bs rs))) \<subseteq> set (concat bs)"
proof -
  have "set (waiting (b, r)) \<subseteq> set b" for b r by (cases r) simp_all
  then show ?thesis by (fastforce dest: set_zip_leftD)
qed

lemma waiting_none: "fd \<notin> fst ` set (concat bs) \<Longrightarrow> of_conn fd (concat (map waiting (zip bs rs))) = []"
  by (rule of_conn_none) (use waiting_subset [of bs rs] in blast)

lemma pending_none: "fd \<notin> fst ` set (concat bs) \<Longrightarrow> concat (map (pending_reply fd) (zip bs rs)) = []"
proof -
  assume a: "fd \<notin> fst ` set (concat bs)"
  have "pending_reply fd (b, r) = []" if "b \<in> set bs" for b r
  proof (cases r)
    case (Some x)
    have "map fst b \<noteq> [fd]" using a that by force
    with Some show ?thesis by (cases x) simp_all
  qed simp
  then show ?thesis by (auto dest: set_zip_leftD)
qed

text \<open>The jobs around worker \<open>i\<close>.\<close>

lemma jobs_split:
  assumes "i < length (workers p)" and "length (answer s) = length (workers p)"
  obtains bA rA bB rB where
    "jobs p s = zip bA rA @ (busy (workers p ! i), answer s ! i) # zip bB rB"
    "concat (map busy (workers p)) = concat bA @ busy (workers p ! i) @ concat bB"
    "\<And>b r. zip ((map busy (workers p))[i := b]) ((answer s)[i := r]) = zip bA rA @ (b, r) # zip bB rB"
    "\<And>b. concat ((map busy (workers p))[i := b]) = concat bA @ b @ concat bB"
proof -
  let ?bs = "map busy (workers p)" and ?rs = "answer s"
  have i: "i < length ?bs" "i < length ?rs" using assms by simp_all
  have b: "?bs = take i ?bs @ busy (workers p ! i) # drop (Suc i) ?bs"
    using id_take_nth_drop [OF i(1)] assms(1) by simp
  have r: "?rs = take i ?rs @ ?rs ! i # drop (Suc i) ?rs" using id_take_nth_drop [OF i(2)] .
  have z: "zip (take i ?bs @ x # drop (Suc i) ?bs) (take i ?rs @ y # drop (Suc i) ?rs)
      = zip (take i ?bs) (take i ?rs) @ (x, y) # zip (drop (Suc i) ?bs) (drop (Suc i) ?rs)" for x y
    using assms by (simp add: zip_append)
  show ?thesis
  proof (rule that [of "take i ?bs" "take i ?rs" "drop (Suc i) ?bs" "drop (Suc i) ?rs"])
    show "jobs p s = zip (take i ?bs) (take i ?rs) @ (busy (workers p ! i), answer s ! i) # zip (drop (Suc i) ?bs) (drop (Suc i) ?rs)"
      using z b r by metis
    show "concat ?bs = concat (take i ?bs) @ busy (workers p ! i) @ concat (drop (Suc i) ?bs)"
      by (subst b) simp
    show "zip (?bs[i := x]) (?rs[i := y]) = zip (take i ?bs) (take i ?rs) @ (x, y) # zip (drop (Suc i) ?bs) (drop (Suc i) ?rs)" for x y
      using z i by (simp only: upd_conv_take_nth_drop)
    show "concat (?bs[i := x]) = concat (take i ?bs) @ x @ concat (drop (Suc i) ?bs)" for x
      using i by (simp add: upd_conv_take_nth_drop)
  qed
qed

section \<open>Steps keep the invariant\<close>

lemma pool_event_step: "pool_event e p = Some q \<Longrightarrow> pool_step p q"
  by (auto simp: pool_event_def split: pool_event.splits if_splits intro: pool_step.intros work_step.intros)

lemma busy_update: "i < length ws \<Longrightarrow> map busy (ws[i := w]) = (map busy ws)[i := busy w]"
  by (simp add: map_update)

lemma busy_same: "i < length ws \<Longrightarrow> busy w = busy (ws ! i) \<Longrightarrow> map busy (ws[i := w]) = map busy ws"
  by (simp add: map_update list_update_same_conv)

lemma pool_event_keeps:
  assumes "pool_event e p = Some q"
  shows "running q = running p" and "submitted q = submitted p" and "length (workers q) = length (workers p)"
  using assms
  by (auto simp: pool_event_def notify_one_def dest: worker_step_keeps split: pool_event.splits if_splits)

text \<open>The pool between tasks: either the tasks stay where they are, or a worker takes the first one.\<close>

lemma pool_event_effect:
  assumes "pool_event e p = Some q"
  shows "map busy (workers q) = map busy (workers p) \<and> tasks q = tasks p
     \<or> (\<exists>i t. i < length (workers p) \<and> busy (workers p ! i) = [] \<and> tasks p = t # tasks q
          \<and> map busy (workers q) = (map busy (workers p))[i := [t]])"
proof (cases e)
  case (PE_Worker i)
  with assms have i: "i < length (workers p)" "busy (workers p ! i) = []" and w: "worker_step i p = Some q"
    by (auto simp: pool_event_def split: if_splits)
  note same = busy_same [OF i(1)]
  show ?thesis
  proof (cases "workers p ! i")
    case W_Wait
    show ?thesis
    proof (cases "tasks p")
      case Nil
      with W_Wait w same show ?thesis by (auto simp: worker_step_def split: if_splits)
    next
      case (Cons t ts)
      with W_Wait w i busy_update [OF i(1), of "W_Run t"] show ?thesis by (auto simp: worker_step_def)
    qed
  qed (use i w same in \<open>auto simp: worker_step_def split: if_splits\<close>)
next
  case (PE_Wake i)
  with assms show ?thesis by (auto simp: pool_event_def notify_one_def busy_same split: if_splits)
next
  case PE_NoWake
  with assms show ?thesis by (auto simp: pool_event_def notify_one_def split: if_splits)
next
  case (PE_Spurious i)
  with assms show ?thesis by (auto simp: pool_event_def busy_same split: if_splits)
qed

text \<open>A worker takes a task.\<close>

lemma take_task_ok:
  assumes "shape_ok p s" and "order_ok p s" and "i < length (workers p)" and "busy (workers p ! i) = []"
    and "tasks p = t # tasks q" and "map busy (workers q) = (map busy (workers p))[i := [t]]" and "submitted q = submitted p"
  shows "order_ok q s" and "\<And>fd. pending_for fd q s = pending_for fd p s" and "set (outstanding q) = set (outstanding p)"
proof -
  have len: "length (answer s) = length (workers p)" and none: "answer s ! i = None"
    using assms(1,3,4) by (simp_all add: shape_ok_def)
  obtain bA rA bB rB where j: "jobs p s = zip bA rA @ (busy (workers p ! i), answer s ! i) # zip bB rB"
    "concat (map busy (workers p)) = concat bA @ busy (workers p ! i) @ concat bB"
    "\<And>b r. zip ((map busy (workers p))[i := b]) ((answer s)[i := r]) = zip bA rA @ (b, r) # zip bB rB"
    "\<And>b. concat ((map busy (workers p))[i := b]) = concat bA @ b @ concat bB"
    using jobs_split [OF assms(3) len] by blast
  have jq: "jobs q s = zip bA rA @ ([t], None) # zip bB rB"
    using j(3) [of "[t]" None] none assms(6) by (metis list_update_id)
  show "pending_for fd q s = pending_for fd p s" for fd by (simp add: pending_for_def jq j(1) none)
  have oq: "outstanding q = map fst (concat bA @ [t] @ concat bB @ tasks q)"
    using j(4) [of "[t]"] assms(6) by (simp add: outstanding_def)
  have op: "outstanding p = map fst (concat bA @ concat bB @ t # tasks q)"
    using j(2) assms(4,5) by (simp add: outstanding_def)
  show "set (outstanding q) = set (outstanding p)" by (auto simp: oq op)
  have d: "distinct (map fst (concat bA @ concat bB @ t # tasks q))" using assms(2) op by (simp add: order_ok_def)
  then have dq: "distinct (outstanding q)" unfolding oq by auto
  have "fst t \<notin> fst ` set (concat bB)" using d by auto
  then have "of_conn (fst t) (concat (map waiting (zip bB rB))) = []" by (rule waiting_none)
  then have "of_conn fd (unhandled q s) = of_conn fd (unhandled p s)" for fd
    by (auto simp: unhandled_def jq j(1) none assms(4,5))
  with assms(2,7) dq show "order_ok q s" by (simp add: order_ok_def)
qed

lemma pool_event_inv:
  assumes "sys_inv cb a0 s" and "thread_pool (tcp s) = Some p" and "pool_event e p = Some q"
  shows "sys_inv cb a0 (set_pool q s)"
proof -
  have i: "on_message (tcp s) = Some cb" "shape_ok p s" "order_ok p s" "reply_ok cb a0 p s" "net_ok p (tcp s) (sys_net s)"
    using assms(1,2) by (auto simp: sys_inv_def)
  note k = pool_event_keeps [OF assms(3)]
  have inv: "pool_inv q" using i(2) pool_step_inv [OF _ pool_event_step [OF assms(3)]] by (simp add: shape_ok_def)
  have c: "(map busy (workers q) = map busy (workers p) \<and> tasks q = tasks p)
     \<or> (\<exists>i t. i < length (workers p) \<and> busy (workers p ! i) = [] \<and> tasks p = t # tasks q
          \<and> map busy (workers q) = (map busy (workers p))[i := [t]])"
    using pool_event_effect [OF assms(3)] .
  then have "order_ok q s \<and> (\<forall>fd. pending_for fd q s = pending_for fd p s) \<and> set (outstanding q) = set (outstanding p)
     \<and> (\<forall>j < length (workers p). busy (workers q ! j) = [] \<longrightarrow> busy (workers p ! j) = [])"
  proof (elim disjE exE conjE)
    assume b: "map busy (workers q) = map busy (workers p)" "tasks q = tasks p"
    then have "busy (workers q ! j) = busy (workers p ! j)" if "j < length (workers p)" for j
      using that k(3) by (metis nth_map)
    with b i(3) k(2) show ?thesis by (simp add: order_ok_def pending_for_def unhandled_def outstanding_def)
  next
    fix j t assume b: "j < length (workers p)" "busy (workers p ! j) = []" "tasks p = t # tasks q"
      "map busy (workers q) = (map busy (workers p))[j := [t]]"
    have "busy (workers q ! l) = (if l = j then [t] else busy (workers p ! l))" if "l < length (workers p)" for l
      using arg_cong [OF b(4), of "\<lambda>xs. xs ! l"] that k(3) by (simp add: nth_list_update)
    with take_task_ok [OF i(2,3) b k(2)] show ?thesis by simp
  qed
  then have o: "order_ok q s" "\<And>fd. pending_for fd q s = pending_for fd p s" "set (outstanding q) = set (outstanding p)"
    "\<And>j. j < length (workers p) \<Longrightarrow> busy (workers q ! j) = [] \<Longrightarrow> busy (workers p ! j) = []" by blast+
  have "shape_ok q (set_pool q s)" using i(2) inv k o(4) by (simp add: shape_ok_def)
  moreover have "order_ok q (set_pool q s)" using o(1) by (simp add: order_ok_def unhandled_def)
  moreover have "reply_ok cb a0 q (set_pool q s)"
    using i(4) o(2) by (simp add: reply_ok_def pending_for_def)
  moreover have "net_ok q (tcp (set_pool q s)) (sys_net s)" using i(5) o(3) by (simp add: net_ok_def)
  ultimately show ?thesis using i(1) by (simp add: sys_inv_def)
qed

lemma accept_inv:
  assumes "sys_inv cb a0 s" and "conns (sys_net s) fd = None" and "accept_once fd (tcp s) (sys_net s) = (t, n)"
  shows "sys_inv cb a0 (s\<lparr>tcp := t, sys_net := n\<rparr>)"
proof -
  obtain p where i: "thread_pool (tcp s) = Some p" "on_message (tcp s) = Some cb" "shape_ok p s" "order_ok p s"
    "reply_ok cb a0 p s" "net_ok p (tcp s) (sys_net s)" using assms(1) by (auto simp: sys_inv_def)
  let ?s = "s\<lparr>tcp := t, sys_net := n\<rparr>"
  have n: "conns n = (conns (sys_net s))(fd \<mapsto> accepted (sys_net s))" "accepted n = Suc (accepted (sys_net s))"
    "outbox n = outbox (sys_net s)" and t: "thread_pool t = Some p" "on_message t = Some cb" "server_fd t = server_fd (tcp s)"
      "dom (interest t) = insert fd (dom (interest (tcp s)))"
    using assms(3) i(1,2) by (auto simp: accept_once_def socket_defs)
  have "outbox (sys_net s) (accepted (sys_net s)) = []" using i(6) by (simp add: net_ok_def)
  then have "sent_on n x = sent_on (sys_net s) x" for x using assms(2) by (auto simp: sent_on_def n split: option.splits)
  then have "reply_ok cb a0 p ?s" using i(5) by (simp add: reply_ok_def pending_for_def)
  moreover have "shape_ok p ?s" "order_ok p ?s" using i(3,4) by (simp_all add: shape_ok_def order_ok_def unhandled_def)
  moreover have "net_ok p t n"
    unfolding net_ok_def n t
  proof (intro conjI allI impI)
    note k = i(6) [unfolded net_ok_def]
    show "c < Suc (accepted (sys_net s))" if "((conns (sys_net s))(fd \<mapsto> accepted (sys_net s))) x = Some c" for x c
      using that k by (auto simp: less_Suc_eq split: if_splits)
    show "x = y" if "((conns (sys_net s))(fd \<mapsto> accepted (sys_net s))) x = Some c
        \<and> ((conns (sys_net s))(fd \<mapsto> accepted (sys_net s))) y = Some c" for x y c
      using that k by (metis fun_upd_apply less_irrefl option.inject)
    show "outbox (sys_net s) c = []" if "Suc (accepted (sys_net s)) \<le> c" for c using that k by simp
    show "set (outstanding p) \<subseteq> dom ((conns (sys_net s))(fd \<mapsto> accepted (sys_net s)))" using k by auto
    show "insert fd (dom (interest (tcp s))) \<subseteq> insert (server_fd (tcp s)) (dom ((conns (sys_net s))(fd \<mapsto> accepted (sys_net s))))"
      using k by auto
  qed
  ultimately show ?thesis using t(1,2) by (simp add: sys_inv_def)
qed

lemma read_inv:
  assumes "sys_inv cb a0 s" and "thread_pool (tcp s) = Some p" and "interest (tcp s) fd \<noteq> None" and "fd \<noteq> server_fd (tcp s)"
    and "mutex p = None" and "d \<noteq> []" and "fd \<notin> set (outstanding p)"
  shows "sys_inv cb a0 (set_pool (enqueue [(fd, d)] p) s)"
proof -
  have i: "on_message (tcp s) = Some cb" "shape_ok p s" "order_ok p s" "reply_ok cb a0 p s" "net_ok p (tcp s) (sys_net s)"
    using assms(1,2) by (auto simp: sys_inv_def)
  let ?q = "enqueue [(fd, d)] p" and ?s = "set_pool (enqueue [(fd, d)] p) s"
  have r: "running p" "pool_inv p" using i(2) by (simp_all add: shape_ok_def)
  have "pool_inv ?q" using r(2) assms(5) Submit_running [OF r(1)] by (rule Submit_inv)
  then have "shape_ok ?q ?s" using i(2) by (simp add: shape_ok_def)
  moreover have o: "outstanding ?q = outstanding p @ [fd]" by (simp add: outstanding_def)
  then have "order_ok ?q ?s" using i(3) assms(7) by (auto simp: order_ok_def unhandled_def)
  moreover have "reply_ok cb a0 ?q ?s" using i(4) by (simp add: reply_ok_def pending_for_def)
  moreover have "fd \<in> dom (conns (sys_net s))" using i(5) assms(3,4) by (auto simp: net_ok_def)
  then have "net_ok ?q (tcp ?s) (sys_net s)" using i(5) o by (simp add: net_ok_def)
  ultimately show ?thesis using i(1) by (simp add: sys_inv_def)
qed

lemma handle_inv:
  assumes "sys_inv cb a0 s" and "thread_pool (tcp s) = Some p" and "i < length (workers p)"
    and "busy (workers p ! i) = [(fd, d)]" and "answer s ! i = None" and "cb fd d (app s) = Some (r, a)"
  shows "sys_inv cb a0 (s\<lparr>app := a, answer := (answer s)[i := Some r], handled := handled s @ [(fd, d)]\<rparr>)"
proof -
  have inv: "on_message (tcp s) = Some cb" "shape_ok p s" "order_ok p s" "reply_ok cb a0 p s" "net_ok p (tcp s) (sys_net s)"
    using assms(1,2) by (auto simp: sys_inv_def)
  let ?s = "s\<lparr>app := a, answer := (answer s)[i := Some r], handled := handled s @ [(fd, d)]\<rparr>"
  have len: "length (answer s) = length (workers p)" using inv(2) by (simp add: shape_ok_def)
  obtain bA rA bB rB where j: "jobs p s = zip bA rA @ (busy (workers p ! i), answer s ! i) # zip bB rB"
    "concat (map busy (workers p)) = concat bA @ busy (workers p ! i) @ concat bB"
    "\<And>b r. zip ((map busy (workers p))[i := b]) ((answer s)[i := r]) = zip bA rA @ (b, r) # zip bB rB"
    "\<And>b. concat ((map busy (workers p))[i := b]) = concat bA @ b @ concat bB"
    using jobs_split [OF assms(3) len] by blast
  have "(map busy (workers p))[i := busy (workers p ! i)] = map busy (workers p)"
    using assms(3) by (simp add: list_update_same_conv)
  with j(3) [of "busy (workers p ! i)" "Some r"] have js: "jobs p ?s = zip bA rA @ ([(fd, d)], Some r) # zip bB rB"
    using assms(4) by simp
  have "distinct (map fst (concat bA @ [(fd, d)] @ concat bB @ tasks p))"
    using inv(3) j(2) assms(4) by (simp add: order_ok_def outstanding_def)
  then have f: "fd \<notin> fst ` set (concat bA)" "fd \<notin> fst ` set (concat bB)" "fd \<notin> fst ` set (tasks p)" by auto
  note e = waiting_none [OF f(1), of rA] waiting_none [OF f(2), of rB] of_conn_none [OF f(3)]
  have u: "unhandled p s = concat (map waiting (zip bA rA)) @ (fd, d) # concat (map waiting (zip bB rB)) @ tasks p"
    "unhandled p ?s = concat (map waiting (zip bA rA)) @ concat (map waiting (zip bB rB)) @ tasks p"
    by (simp_all only: unhandled_def js j(1) assms(4,5)) simp_all
  have "of_conn x (submitted p) = of_conn x (handled s) @ of_conn x (unhandled p s)" for x
    using inv(3) by (simp add: order_ok_def)
  then have "of_conn x (submitted p) = of_conn x (handled ?s) @ of_conn x (unhandled p ?s)" for x
    using e unfolding u by (cases "x = fd") simp_all
  then have "order_ok p ?s" using inv(3) unfolding order_ok_def by simp
  moreover have "shape_ok p ?s" using inv(2) assms(3,4) by (auto simp: shape_ok_def nth_list_update)
  moreover from inv(4) obtain ans where ans: "run_tasks cb (handled s) a0 = Some (ans, app s)"
    "\<And>x. replies_to x ans = sent_on (sys_net s) x @ pending_for x p s" by (auto simp: reply_ok_def)
  have "replies_to x (ans @ [(fd, r)]) = sent_on (sys_net s) x @ pending_for x p ?s" for x
    using ans(2) [of x] unfolding pending_for_def js j(1) assms(4,5)
    by (cases r; cases "x = fd") (simp_all add: pending_none [OF f(1)] pending_none [OF f(2)])
  moreover have "run_tasks cb (handled ?s) a0 = Some (ans @ [(fd, r)], app ?s)"
    by (simp add: run_tasks_append ans(1) assms(6))
  ultimately have "shape_ok p ?s" "order_ok p ?s" "reply_ok cb a0 p ?s" unfolding reply_ok_def by auto
  with inv(1,5) assms(2) show ?thesis by (simp add: sys_inv_def)
qed

lemma send_inv:
  assumes "sys_inv cb a0 s" and "thread_pool (tcp s) = Some p" and "i < length (workers p)"
    and "busy (workers p ! i) = [(fd, d)]" and "answer s ! i = Some r" and "worker_step i p = Some q"
    and "orderly (E_Send i sr) s"
  shows "sys_inv cb a0 ((set_pool q s)\<lparr>sys_net := send_reply fd r sr (sys_net s), answer := (answer s)[i := None]\<rparr>)"
proof -
  have inv: "on_message (tcp s) = Some cb" "shape_ok p s" "order_ok p s" "reply_ok cb a0 p s" "net_ok p (tcp s) (sys_net s)"
    using assms(1,2) by (auto simp: sys_inv_def)
  let ?n = "send_reply fd r sr (sys_net s)"
  let ?s = "(set_pool q s)\<lparr>sys_net := ?n, answer := (answer s)[i := None]\<rparr>"
  have len: "length (answer s) = length (workers p)" using inv(2) by (simp add: shape_ok_def)
  have w: "workers p ! i = W_Run (fd, d)" using assms(4) by (cases "workers p ! i") simp_all
  with assms(6) have q: "q = (set_worker i W_Loop p)\<lparr>finished := finished p @ [(fd, d)]\<rparr>" by (simp add: worker_step_def)
  obtain bA rA bB rB where j: "jobs p s = zip bA rA @ (busy (workers p ! i), answer s ! i) # zip bB rB"
    "concat (map busy (workers p)) = concat bA @ busy (workers p ! i) @ concat bB"
    "\<And>b r. zip ((map busy (workers p))[i := b]) ((answer s)[i := r]) = zip bA rA @ (b, r) # zip bB rB"
    "\<And>b. concat ((map busy (workers p))[i := b]) = concat bA @ b @ concat bB"
    using jobs_split [OF assms(3) len] by blast
  have bq: "map busy (workers q) = (map busy (workers p))[i := []]" using assms(3) by (simp add: q busy_update)
  have js: "jobs q ?s = zip bA rA @ ([], None) # zip bB rB" using j(3) [of "[]" None] bq by simp
  have oq: "outstanding q = map fst (concat bA @ concat bB @ tasks p)" using j(4) [of "[]"] bq by (simp add: outstanding_def q)
  have op: "outstanding p = map fst (concat bA @ [(fd, d)] @ concat bB @ tasks p)" using j(2) assms(4) by (simp add: outstanding_def)
  have dp: "distinct (map fst (concat bA @ [(fd, d)] @ concat bB @ tasks p))" using inv(3) op by (simp add: order_ok_def)
  then have f: "fd \<notin> fst ` set (concat bA)" "fd \<notin> fst ` set (concat bB)" and dq: "distinct (outstanding q)"
    by (auto simp: oq)
  have pool: "pool_inv q" "running q"
    using work_step_inv [OF _ work_step.worker [OF assms(3,6)]] inv(2) by (simp_all add: shape_ok_def q)
  have "tasks q = tasks p" "submitted q = submitted p" by (simp_all add: q)
  then have u: "unhandled q ?s = unhandled p s" "submitted q = submitted p"
    by (simp_all only: unhandled_def js j(1) assms(4,5)) simp_all
  have "order_ok q ?s" using inv(3) dq unfolding order_ok_def u by simp
  moreover have "shape_ok q ?s" using inv(2) pool assms(3) by (auto simp: shape_ok_def q nth_list_update)
  moreover obtain c where c: "conns (sys_net s) fd = Some c" using inv(5) by (auto simp: net_ok_def op)
  define x where "x = (case r of Inl _ \<Rightarrow> [] | Inr y \<Rightarrow> y)"
  have n: "?n = (if x = [] then sys_net s else (sys_net s)\<lparr>outbox := (outbox (sys_net s))(c := outbox (sys_net s) c @ x)\<rparr>)"
    using assms(5,7) c
    by (auto simp: send_reply_def x_def orderly_def sock_send_def split: sum.splits send_result.splits)
  have st: "sent_on ?n fd' = sent_on (sys_net s) fd' @ (if fd' = fd then x else [])" for fd'
    using inv(5) c by (auto simp: sent_on_def n net_ok_def split: option.splits)
  have pd: "pending_for fd' p s = (if fd' = fd then x else []) @ pending_for fd' q ?s" for fd'
    unfolding pending_for_def js j(1) assms(4,5) x_def
    by (cases r; cases "fd' = fd") (simp_all add: pending_none [OF f(1)] pending_none [OF f(2)])
  have "reply_ok cb a0 q ?s" using inv(4) by (auto simp: reply_ok_def st pd)
  moreover have "c < accepted (sys_net s)" using inv(5) c by (simp add: net_ok_def)
  then have "net_ok q (tcp ?s) ?n" using inv(5) by (auto simp: net_ok_def n op oq)
  ultimately show ?thesis using inv(1) by (simp add: sys_inv_def)
qed

lemma orderly_step_inv:
  assumes "sys_inv cb a0 s" and "orderly_step s s'"
  shows "sys_inv cb a0 s'"
proof -
  from assms(1) obtain p where p: "thread_pool (tcp s) = Some p" "on_message (tcp s) = Some cb" "running p"
    by (auto simp: sys_inv_def shape_ok_def)
  from assms(2) obtain e where e: "orderly e s" "server_step e s = Some s'" by (auto simp: orderly_step_def)
  show ?thesis
  proof (cases e)
    case (E_Accept fd)
    obtain t n where a: "accept_once fd (tcp s) (sys_net s) = (t, n)" by fastforce
    with E_Accept e(2) p(1) have "conns (sys_net s) fd = None" "s' = s\<lparr>tcp := t, sys_net := n\<rparr>"
      by (auto simp: server_step_def split: if_splits)
    with accept_inv [OF assms(1) _ a] show ?thesis by simp
  next
    case (E_Read fd r)
    with e(1) consider "r = RecvAgain" | d where "r = Received d" "d \<noteq> []" "fd \<notin> set (outstanding p)"
      using p(1) by (auto simp: orderly_def submits_def split: recv_result.splits)
    then show ?thesis
    proof cases
      case 1
      with E_Read e(2) p(1) assms(1) show ?thesis by (auto simp: server_step_def read_once_def split: if_splits)
    next
      case 2
      have "read_once fd (Received d) (tcp s) (sys_net s) = (Inr True, (tcp s)\<lparr>thread_pool := Some (enqueue [(fd, d)] p)\<rparr>, sys_net s)"
        using p 2(2) by (intro read_once_data) simp_all
      with E_Read e(2) p(1) 2 have "s' = set_pool (enqueue [(fd, d)] p) s" "interest (tcp s) fd \<noteq> None" "fd \<noteq> server_fd (tcp s)" "mutex p = None"
        by (auto simp: server_step_def submits_def split: if_splits)
      with read_inv [OF assms(1) p(1) _ _ _ 2(2,3)] show ?thesis by simp
    qed
  next
    case (E_Pool pe)
    with e(2) p(1) obtain q where "pool_event pe p = Some q" "s' = set_pool q s" by (auto simp: server_step_def)
    with pool_event_inv [OF assms(1) p(1)] show ?thesis by simp
  next
    case (E_Handle i)
    with e(2) p(1,2) obtain fd d r a where "i < length (workers p)" "busy (workers p ! i) = [(fd, d)]" "answer s ! i = None"
      "cb fd d (app s) = Some (r, a)" "s' = s\<lparr>app := a, answer := (answer s)[i := Some r], handled := handled s @ [(fd, d)]\<rparr>"
      by (auto simp: server_step_def split: if_splits list.splits option.splits)
    with handle_inv [OF assms(1) p(1)] show ?thesis by simp
  next
    case (E_Send i sr)
    with e(2) p(1) obtain fd d r q where "i < length (workers p)" "busy (workers p ! i) = [(fd, d)]" "answer s ! i = Some r"
      "worker_step i p = Some q" "s' = (set_pool q s)\<lparr>sys_net := send_reply fd r sr (sys_net s), answer := (answer s)[i := None]\<rparr>"
      by (auto simp: server_step_def split: if_splits list.splits option.splits)
    with send_inv [OF assms(1) p(1)] e(1) E_Send show ?thesis by simp
  qed
qed

interpretation server: state_machine orderly_step "sys_inv cb a0" for cb a0
  by unfold_locales (rule orderly_step_inv)

lemma busy_ctor: "map busy (workers (ThreadPool_ctor k)) = replicate (length (workers (ThreadPool_ctor k :: 't ThreadPool))) ([] :: 't list)"
  by (simp add: ThreadPool_ctor_def)

lemma sys_start_inv:
  assumes "sys_start c port tc cb a0 = Some s"
  shows "sys_inv cb a0 s" and "handled s = []" and "map_option submitted (thread_pool (tcp s)) = Some []"
proof -
  let ?t = "SetOnMessage cb (TcpServer_ctor port tc)" and ?p = "ThreadPool_ctor tc :: task ThreadPool"
  obtain t n where st: "TcpServer_Start c ?t net_start = (True, t, n)"
    using assms by (auto simp: sys_start_def split: prod.splits option.splits if_splits)
  have "write_buffers ?t = (\<lambda>_. None)" "thread_count ?t = tc" "on_message ?t = Some cb" by (simp_all add: SetOnMessage_def TcpServer_ctor_def)
  note i = Start_reactor_inv [OF st this(1), unfolded this(2,3)]
  have s: "s = \<lparr>tcp = t, sys_net = n, app = a0, answer = replicate (length (workers ?p)) None, handled = []\<rparr>"
    using assms st i(7) by (simp add: sys_start_def)
  have p: "tasks ?p = []" "submitted ?p = []" "running ?p" by (simp_all add: ThreadPool_ctor_def)
  have out: "outstanding ?p = []" by (simp add: outstanding_def busy_ctor p)
  have jobs: "jobs ?p s = replicate (length (workers ?p)) ([], None)" by (simp add: s busy_ctor)
  have "concat (map waiting (replicate k ([], None))) = []" "concat (map (pending_reply fd) (replicate k ([], None))) = []" for k fd
    by (induction k) simp_all
  then have u: "unhandled ?p s = []" "pending_for fd ?p s = []" for fd
    unfolding unhandled_def pending_for_def jobs p by simp_all
  have "shape_ok ?p s" using p pool_inv_ctor by (simp add: shape_ok_def s)
  moreover have "order_ok ?p s" using out u(1) p by (simp add: order_ok_def s)
  moreover have "reply_ok cb a0 ?p s" using u(2) i(4) by (simp add: reply_ok_def s sent_on_def net_start_def)
  moreover have "net_ok ?p t n" using out i(1,4,5,6) by (simp add: net_ok_def net_start_def reactor_inv_def)
  ultimately show "sys_inv cb a0 s" using i(3,7) by (simp add: sys_inv_def s)
  show "handled s = []" "map_option submitted (thread_pool (tcp s)) = Some []" using i(7) p by (simp_all add: s)
qed

section \<open>Coming to rest\<close>

text \<open>The steps with which the server works on what it has read, without wake-ups that have no reason.\<close>

definition serve_step :: "'a sys \<Rightarrow> 'a sys \<Rightarrow> bool" where
  "serve_step s s' \<longleftrightarrow> (\<exists>e. orderly e s \<and> server_step e s = Some s'
     \<and> (case e of E_Pool pe \<Rightarrow> (\<forall>i. pe \<noteq> PE_Spurious i) | E_Handle i \<Rightarrow> True | E_Send i sr \<Rightarrow> True | _ \<Rightarrow> False))"

definition serve_weight :: "'a sys \<Rightarrow> nat" where
  "serve_weight s = (case thread_pool (tcp s) of None \<Rightarrow> 0
     | Some p \<Rightarrow> 2 * pool_weight p + length (concat (map waiting (jobs p s))))"

lemma serve_orderly: "serve_step s s' \<Longrightarrow> orderly_step s s'"
  by (auto simp: serve_step_def orderly_step_def)

lemma serve_steps_orderly: "serve_step\<^sup>*\<^sup>* s s' \<Longrightarrow> orderly_step\<^sup>*\<^sup>* s s'"
  by (induction rule: rtranclp_induct) (auto intro: rtranclp.rtrancl_into_rtrancl serve_orderly)

lemma waiting_update:
  assumes "i < length (workers p)" and "length (answer s) = length (workers p)"
  shows "length (concat (map waiting (zip ((map busy (workers p))[i := b]) ((answer s)[i := r])))) + length (waiting (busy (workers p ! i), answer s ! i))
     = length (concat (map waiting (jobs p s))) + length (waiting (b, r))"
proof -
  obtain bA rA bB rB where j: "jobs p s = zip bA rA @ (busy (workers p ! i), answer s ! i) # zip bB rB"
    "concat (map busy (workers p)) = concat bA @ busy (workers p ! i) @ concat bB"
    "\<And>b r. zip ((map busy (workers p))[i := b]) ((answer s)[i := r]) = zip bA rA @ (b, r) # zip bB rB"
    "\<And>b. concat ((map busy (workers p))[i := b]) = concat bA @ b @ concat bB"
    using jobs_split [OF assms] by blast
  show ?thesis unfolding j(1,3) by simp
qed

lemma pool_event_work: "pool_event e p = Some q \<Longrightarrow> \<forall>i. e \<noteq> PE_Spurious i \<Longrightarrow> work_step p q"
  by (auto simp: pool_event_def split: pool_event.splits if_splits intro: work_step.intros)

lemma pool_event_waiting:
  assumes "shape_ok p s" and "pool_event e p = Some q"
  shows "length (concat (map waiting (jobs q s))) \<le> Suc (length (concat (map waiting (jobs p s))))"
  using pool_event_effect [OF assms(2)]
proof (elim disjE exE conjE)
  fix i t assume i: "i < length (workers p)" "busy (workers p ! i) = []" "map busy (workers q) = (map busy (workers p))[i := [t]]"
  have a: "length (answer s) = length (workers p)" "answer s ! i = None" using assms(1) i(1,2) by (simp_all add: shape_ok_def)
  then have "(answer s)[i := None] = answer s" by (metis list_update_id)
  with waiting_update [OF i(1) a(1), of "[t]" None] i(2,3) a(2) show ?thesis by simp
qed simp

lemma serve_step_less:
  assumes "sys_inv cb a0 s" and "serve_step s s'"
  shows "serve_weight s' < serve_weight s"
proof -
  from assms(1) obtain p where p: "thread_pool (tcp s) = Some p" "shape_ok p s" by (auto simp: sys_inv_def)
  then have len: "length (answer s) = length (workers p)" by (simp add: shape_ok_def)
  from assms(2) obtain e where e: "server_step e s = Some s'"
    "case e of E_Pool pe \<Rightarrow> (\<forall>i. pe \<noteq> PE_Spurious i) | E_Handle i \<Rightarrow> True | E_Send i sr \<Rightarrow> True | _ \<Rightarrow> False"
    by (auto simp: serve_step_def)
  show ?thesis
  proof (cases e)
    case (E_Pool pe)
    with e p(1) obtain q where q: "pool_event pe p = Some q" "s' = set_pool q s" by (auto simp: server_step_def)
    have "pool_weight q < pool_weight p" using E_Pool e(2) q(1) by (intro work_step_less pool_event_work [of pe]) simp_all
    with pool_event_waiting [OF p(2) q(1)] p(1) q(2) show ?thesis by (simp add: serve_weight_def)
  next
    case (E_Handle i)
    with e(1) p(1) obtain fd d r a where h: "i < length (workers p)" "busy (workers p ! i) = [(fd, d)]" "answer s ! i = None"
      "s' = s\<lparr>app := a, answer := (answer s)[i := Some r], handled := handled s @ [(fd, d)]\<rparr>"
      by (auto simp: server_step_def split: if_splits list.splits option.splits)
    have "(map busy (workers p))[i := busy (workers p ! i)] = map busy (workers p)" using h(1) by (simp add: list_update_same_conv)
    with waiting_update [OF h(1) len, of "busy (workers p ! i)" "Some r"] h(2,3) have
      "length (concat (map waiting (zip (map busy (workers p)) ((answer s)[i := Some r])))) < length (concat (map waiting (jobs p s)))" by simp
    with p(1) h(4) show ?thesis by (simp add: serve_weight_def)
  next
    case (E_Send i sr)
    with e(1) p(1) obtain fd d r q where h: "i < length (workers p)" "busy (workers p ! i) = [(fd, d)]" "answer s ! i = Some r"
      "worker_step i p = Some q" "s' = (set_pool q s)\<lparr>sys_net := send_reply fd r sr (sys_net s), answer := (answer s)[i := None]\<rparr>"
      by (auto simp: server_step_def split: if_splits list.splits option.splits)
    have "workers p ! i = W_Run (fd, d)" using h(2) by (cases "workers p ! i") simp_all
    with h(4) have "workers q = (workers p)[i := W_Loop]" by (auto simp: worker_step_def)
    then have "map busy (workers q) = (map busy (workers p))[i := []]" using h(1) by (simp add: busy_update)
    with waiting_update [OF h(1) len, of "[]" None] h(2,3) have
      "length (concat (map waiting (zip (map busy (workers q)) ((answer s)[i := None])))) = length (concat (map waiting (jobs p s)))" by simp
    moreover have "pool_weight q < pool_weight p" using h(1,4) by (intro work_step_less work_step.worker)
    ultimately show ?thesis using p(1) h(5) by (simp add: serve_weight_def)
  qed (use e(2) in simp_all)
qed

interpretation serving: terminating_machine serve_step "sys_inv cb a0" serve_weight for cb a0
  by unfold_locales (auto intro: orderly_step_inv serve_orderly serve_step_less)

lemma serve_step_submitted:
  assumes "serve_step s s'" and "thread_pool (tcp s) = Some p"
  shows "\<exists>q. thread_pool (tcp s') = Some q \<and> submitted q = submitted p"
proof -
  from assms(1) obtain e where e: "server_step e s = Some s'"
    "case e of E_Pool pe \<Rightarrow> (\<forall>i. pe \<noteq> PE_Spurious i) | E_Handle i \<Rightarrow> True | E_Send i sr \<Rightarrow> True | _ \<Rightarrow> False"
    by (auto simp: serve_step_def)
  show ?thesis
  proof (cases e)
    case (E_Pool pe)
    with e(1) assms(2) show ?thesis by (auto simp: server_step_def dest: pool_event_keeps)
  next
    case (E_Handle i)
    with e(1) assms(2) show ?thesis by (auto simp: server_step_def split: if_splits list.splits option.splits)
  next
    case (E_Send i sr)
    with e(1) assms(2) show ?thesis
      using worker_step_keeps [of i p] by (auto simp: server_step_def split: if_splits list.splits option.splits)
  qed (use e(2) in simp_all)
qed

lemma serve_steps_submitted:
  assumes "serve_step\<^sup>*\<^sup>* s s'" and "thread_pool (tcp s) = Some p"
  shows "\<exists>q. thread_pool (tcp s') = Some q \<and> submitted q = submitted p"
  using assms
proof (induction rule: rtranclp_induct)
  case (step u v)
  then show ?case using serve_step_submitted by metis
qed simp

lemma unhandled_head:
  assumes "shape_ok p s" and "order_ok p s" and "i < length (workers p)" and "busy (workers p ! i) = [(fd, d)]" and "answer s ! i = None"
  shows "of_conn fd (unhandled p s) = [(fd, d)]"
proof -
  have len: "length (answer s) = length (workers p)" using assms(1) by (simp add: shape_ok_def)
  obtain bA rA bB rB where j: "jobs p s = zip bA rA @ (busy (workers p ! i), answer s ! i) # zip bB rB"
    "concat (map busy (workers p)) = concat bA @ busy (workers p ! i) @ concat bB"
    "\<And>b r. zip ((map busy (workers p))[i := b]) ((answer s)[i := r]) = zip bA rA @ (b, r) # zip bB rB"
    "\<And>b. concat ((map busy (workers p))[i := b]) = concat bA @ b @ concat bB"
    using jobs_split [OF assms(3) len] by blast
  have "distinct (map fst (concat bA @ [(fd, d)] @ concat bB @ tasks p))"
    using assms(2) j(2) assms(4) by (simp add: order_ok_def outstanding_def)
  then have f: "fd \<notin> fst ` set (concat bA)" "fd \<notin> fst ` set (concat bB)" "fd \<notin> fst ` set (tasks p)" by auto
  show ?thesis
    unfolding unhandled_def j(1) assms(4,5)
    by (simp add: waiting_none [OF f(1)] waiting_none [OF f(2)] of_conn_none [OF f(3)])
qed

text \<open>The callback returns on every sequence of the submitted tasks that keeps the order of each connection.\<close>

definition returns_on :: "'a callback \<Rightarrow> 'a \<Rightarrow> task list \<Rightarrow> bool" where
  "returns_on cb a0 sub \<longleftrightarrow> (\<forall>ts. (\<forall>fd. prefix (of_conn fd ts) (of_conn fd sub)) \<longrightarrow>
     (\<exists>ans a. run_tasks cb ts a0 = Some (ans, a) \<and> Inl Undefined \<notin> snd ` set ans))"

lemma busy_handled:
  assumes "sys_inv cb a0 s" and "thread_pool (tcp s) = Some p" and "returns_on cb a0 (submitted p)"
    and "i < length (workers p)" and "busy (workers p ! i) = [(fd, d)]" and "answer s ! i = None"
  shows "\<exists>s'. server_step (E_Handle i) s = Some s'"
proof -
  have inv: "on_message (tcp s) = Some cb" "shape_ok p s" "order_ok p s" "reply_ok cb a0 p s"
    using assms(1,2) by (auto simp: sys_inv_def)
  note u = unhandled_head [OF inv(2,3) assms(4-6)]
  have "of_conn x (submitted p) = of_conn x (handled s) @ of_conn x (unhandled p s)" for x
    using inv(3) by (simp add: order_ok_def)
  then have "prefix (of_conn x (handled s @ [(fd, d)])) (of_conn x (submitted p))" for x
    using u by (cases "x = fd") simp_all
  with assms(3) obtain ans a where r: "run_tasks cb (handled s @ [(fd, d)]) a0 = Some (ans, a)" "Inl Undefined \<notin> snd ` set ans"
    unfolding returns_on_def by blast
  from inv(4) obtain ans0 where h: "run_tasks cb (handled s) a0 = Some (ans0, app s)" by (auto simp: reply_ok_def)
  from r h obtain y where "cb fd d (app s) = Some (y, a)" "y \<noteq> Inl Undefined"
    by (auto simp: run_tasks_append split: option.splits prod.splits)
  with assms(2,4-6) inv(1) show ?thesis by (simp add: server_step_def)
qed

lemma serve_final:
  assumes "sys_inv cb a0 s" and "thread_pool (tcp s) = Some p" and "returns_on cb a0 (submitted p)" and "final serve_step s"
  shows "outstanding p = []"
proof -
  have no: "server_step e s = None" if "orderly e s"
    "case e of E_Pool pe \<Rightarrow> (\<forall>i. pe \<noteq> PE_Spurious i) | E_Handle i \<Rightarrow> True | E_Send i sr \<Rightarrow> True | _ \<Rightarrow> False" for e
  proof (cases "server_step e s")
    case (Some s')
    with that have "serve_step s s'" unfolding serve_step_def by blast
    with finalD [OF assms(4)] show ?thesis by blast
  qed
  have shape: "shape_ok p s" using assms(1,2) by (auto simp: sys_inv_def)
  have idle: "busy (workers p ! i) = []" if i: "i < length (workers p)" for i
  proof (rule ccontr)
    assume "busy (workers p ! i) \<noteq> []"
    then obtain fd d where b: "busy (workers p ! i) = [(fd, d)]" by (cases "workers p ! i") auto
    show False
    proof (cases "answer s ! i")
      case None
      with busy_handled [OF assms(1-3) i b] no [of "E_Handle i"] show False by (auto simp: orderly_def)
    next
      case (Some r)
      let ?e = "E_Send i (Sent (case r of Inl _ \<Rightarrow> 0 | Inr x \<Rightarrow> length x))"
      have "orderly ?e s" using Some by (auto simp: orderly_def split: sum.splits)
      moreover have "workers p ! i = W_Run (fd, d)" using b by (cases "workers p ! i") simp_all
      then have "server_step ?e s \<noteq> None" using Some b i assms(2) by (simp add: server_step_def worker_step_def)
      ultimately show False using no [of ?e] by simp
    qed
  qed
  have none: "pool_event pe p = None" if "\<forall>i. pe \<noteq> PE_Spurious i" for pe
    using no [of "E_Pool pe"] that assms(2) by (simp add: server_step_def orderly_def)
  have "final work_step p"
  proof
    fix q show "\<not> work_step p q"
    proof
      assume "work_step p q"
      then show False
      proof cases
        case (worker i)
        with none [of "PE_Worker i"] idle show False by (simp add: pool_event_def)
      next
        case (wake i)
        with none [of "PE_Wake i"] show False by (simp add: pool_event_def)
      next
        case no_wake
        with none [of PE_NoWake] show False by (simp add: pool_event_def)
      qed
    qed
  qed
  from final_idle(1) [OF _ this] have "tasks p = []" using shape by (simp add: shape_ok_def)
  moreover have "concat (map busy (workers p)) = []" using idle by (auto simp: in_set_conv_nth)
  ultimately show ?thesis by (simp add: outstanding_def)
qed

lemma outstanding_unhandled: "outstanding p = [] \<Longrightarrow> unhandled p s = [] \<and> pending_for fd p s = []"
proof -
  assume "outstanding p = []"
  then have t: "tasks p = []" and b: "concat (map busy (workers p)) = []" by (simp_all add: outstanding_def)
  have "unhandled p s = []" using waiting_subset [of "map busy (workers p)" "answer s"] t b by (auto simp: unhandled_def)
  moreover have "pending_for fd p s = []" unfolding pending_for_def by (rule pending_none) (simp add: b)
  ultimately show ?thesis by simp
qed

text \<open>A sequence of events that are all orderly.\<close>

fun run_orderly :: "event list \<Rightarrow> 'a sys \<Rightarrow> 'a sys option" where
  "run_orderly [] s = Some s"
| "run_orderly (e # es) s =
     (if orderly e s then (case server_step e s of None \<Rightarrow> None | Some s1 \<Rightarrow> run_orderly es s1) else None)"

lemma run_orderly_steps: "run_orderly es s = Some s' \<Longrightarrow> orderly_step\<^sup>*\<^sup>* s s'"
proof (induction es arbitrary: s)
  case (Cons e es)
  then obtain s1 where "orderly e s" "server_step e s = Some s1" "run_orderly es s1 = Some s'"
    by (auto split: if_splits option.splits)
  with Cons.IH show ?case by (metis converse_rtranclp_into_rtranclp orderly_step_def)
qed simp

section \<open>Runs\<close>

text \<open>A server with any number of workers is sequential for clients that wait for their answers. In every
  state that it can reach, the callback has run on a sequence of tasks, one after the other, which has the
  pieces of each connection in the order in which they were read; what was sent on a connection is the
  beginning of the replies to its own pieces, and all of them once nothing is outstanding.\<close>

lemma orderly_runs_sequential:
  assumes "sys_start c port tc cb a0 = Some s0" and "orderly_step\<^sup>*\<^sup>* s0 s" and "thread_pool (tcp s) = Some p"
  shows "\<exists>ans. run_tasks cb (handled s) a0 = Some (ans, app s)
     \<and> (\<forall>fd. prefix (of_conn fd (handled s)) (of_conn fd (submitted p)) \<and> prefix (sent_on (sys_net s) fd) (replies_to fd ans))
     \<and> (outstanding p = [] \<longrightarrow> (\<forall>fd. of_conn fd (handled s) = of_conn fd (submitted p) \<and> sent_on (sys_net s) fd = replies_to fd ans))"
proof -
  have i: "order_ok p s" "reply_ok cb a0 p s"
    using server.steps_inv [OF assms(2) sys_start_inv(1) [OF assms(1)]] assms(3) by (auto simp: sys_inv_def)
  from i(2) obtain ans where ans: "run_tasks cb (handled s) a0 = Some (ans, app s)"
    "\<And>fd. replies_to fd ans = sent_on (sys_net s) fd @ pending_for fd p s" by (auto simp: reply_ok_def)
  have o: "of_conn fd (submitted p) = of_conn fd (handled s) @ of_conn fd (unhandled p s)" for fd
    using i(1) by (simp add: order_ok_def)
  show ?thesis
    using outstanding_unhandled [of p s] by (intro exI [of _ ans]) (auto simp: ans o)
qed

text \<open>The server comes to rest. From every state that such a run reaches, if the callback returns, then
  the workers take only a bounded number of steps before there is nothing left to do, and wherever
  they stop, every piece that was read has been handled and answered.\<close>

lemma server_comes_to_rest:
  assumes "sys_start c port tc cb a0 = Some s0" and "orderly_step\<^sup>*\<^sup>* s0 s" and "thread_pool (tcp s) = Some p"
    and "returns_on cb a0 (submitted p)"
  shows "(\<forall>k s'. (serve_step ^^ k) s s' \<longrightarrow> k \<le> serve_weight s) \<and> (\<exists>s'. serve_step\<^sup>*\<^sup>* s s' \<and> final serve_step s')
     \<and> (\<forall>s'. serve_step\<^sup>*\<^sup>* s s' \<and> final serve_step s' \<longrightarrow>
          (\<exists>q. thread_pool (tcp s') = Some q \<and> outstanding q = []) \<and> (\<forall>fd. of_conn fd (handled s') = of_conn fd (submitted p)))"
proof -
  have i: "sys_inv cb a0 s" using server.steps_inv [OF assms(2) sys_start_inv(1) [OF assms(1)]] .
  have "k \<le> serve_weight s" if "(serve_step ^^ k) s s'" for k s' using serving.run_bounded [OF that i] by simp
  moreover have "\<exists>s'. serve_step\<^sup>*\<^sup>* s s' \<and> final serve_step s'" using serving.reaches_final [OF i] .
  moreover have "(\<exists>q. thread_pool (tcp s') = Some q \<and> outstanding q = []) \<and> (\<forall>fd. of_conn fd (handled s') = of_conn fd (submitted p))"
    if r: "serve_step\<^sup>*\<^sup>* s s'" "final serve_step s'" for s'
  proof -
    from serve_steps_submitted [OF r(1) assms(3)] obtain q where q: "thread_pool (tcp s') = Some q" "submitted q = submitted p" by blast
    have i': "sys_inv cb a0 s'" using serving.steps_inv [OF r(1) i] .
    have o: "outstanding q = []" using serve_final [OF i' q(1) _ r(2)] assms(4) q(2) by simp
    moreover have "order_ok q s'" using i' q(1) by (auto simp: sys_inv_def)
    ultimately show ?thesis using q outstanding_unhandled [OF o, of s'] by (simp add: order_ok_def)
  qed
  ultimately show ?thesis by blast
qed

section \<open>Clients that do not wait\<close>

lemmas step_eval = server_step_def accept_once_def read_once_def CloseConnection_def socket_defs submits_def Submit_def
  pool_event_def worker_step_def send_reply_def ThreadPool_ctor_def

lemma ex_start:
  assumes "sys_start ex_calls port tc cb a0 = Some s0"
  shows "s0 = \<lparr>tcp = \<lparr>tcp_port = port, server_fd = 3, tcp_running = True, on_message = Some cb,
      thread_pool = Some (ThreadPool_ctor tc), thread_count = tc, epoll_fd = 4,
      interest = [3 \<mapsto> \<lparr>EPOLLIN = True, EPOLLOUT = False, EPOLLET = False\<rparr>], write_buffers = (\<lambda>_. None), event_loops = 1\<rparr>,
      sys_net = \<lparr>conns = (\<lambda>_. None), accepted = 0, nonblocking = {3}, outbox = (\<lambda>_. [])\<rparr>, app = a0,
      answer = replicate (length (workers (ThreadPool_ctor tc :: task ThreadPool))) None, handled = []\<rparr>"
  using assms
  by (simp add: sys_start_def TcpServer_Start_def SetOnMessage_def TcpServer_ctor_def SetNonBlocking_def net_start_def)

lemma ex_start_Some: "\<exists>s0. sys_start ex_calls port tc cb a0 = Some s0"
  by (simp add: sys_start_def TcpServer_Start_def SetOnMessage_def TcpServer_ctor_def)

text \<open>Two workers take two pieces of one connection; the second is handled first.\<close>

abbreviation ex_race :: "string \<Rightarrow> string \<Rightarrow> event list" where
  "ex_race d1 d2 \<equiv> [E_Accept 5, E_Read 5 (Received d1), E_Read 5 (Received d2),
     E_Pool (PE_Worker 0), E_Pool (PE_Worker 0), E_Pool (PE_Worker 0), E_Pool (PE_Worker 1), E_Pool (PE_Worker 1), E_Pool (PE_Worker 1),
     E_Handle 1, E_Send 1 (Sent 4096), E_Handle 0, E_Send 0 (Sent 4096)]"

lemma second_piece_first:
  assumes "sys_start ex_calls port tc cb a0 = Some s0" and "tc \<noteq> 1" and "d1 \<noteq> []" and "d2 \<noteq> []"
    and "cb 5 d2 a0 = Some (Inr r2, a1)" and "cb 5 d1 a1 = Some (Inr r1, a2)" and "length r1 \<le> 4096" and "length r2 \<le> 4096"
  shows "\<exists>s p. run_events (ex_race d1 d2) s0 = Some s \<and> app s = a2 \<and> thread_pool (tcp s) = Some p
     \<and> submitted p = [(5, d1), (5, d2)] \<and> handled s = [(5, d2), (5, d1)] \<and> sent_on (sys_net s) 5 = r2 @ r1"
proof -
  have "\<exists>k. (if tc = 0 then 4 else tc) = Suc (Suc k)" using assms(2) by presburger
  then obtain k where k: "(if tc = 0 then 4 else tc) = Suc (Suc k)" by blast
  show ?thesis
    unfolding ex_start [OF assms(1)] using assms(3-8)
    by (simp add: step_eval k sent_on_def)
qed

text \<open>C25: a reply can go to the wrong client. A connection is closed while its request is still in the queue; the next
  client gets the same descriptor, and the reply is sent to it, while the first client gets nothing.\<close>

theorem reply_to_wrong_connection:
  assumes "sys_start ex_calls port tc cb a0 = Some s0" and "d \<noteq> []" and "cb 5 d a0 = Some (Inr resp, a)" and "resp \<noteq> []"
  shows "\<exists>s. run_events [E_Accept 5, E_Read 5 (Received d), E_Read 5 (Received []), E_Accept 5,
        E_Pool (PE_Worker 0), E_Pool (PE_Worker 0), E_Pool (PE_Worker 0), E_Handle 0, E_Send 0 (Sent (length resp))] s0 = Some s
     \<and> outbox (sys_net s) 0 = [] \<and> outbox (sys_net s) 1 = resp"
proof -
  have "\<exists>k. (if tc = 0 then 4 else tc) = Suc k" by presburger
  then obtain k where k: "(if tc = 0 then 4 else tc) = Suc k" by blast
  show ?thesis
    unfolding ex_start [OF assms(1)] using assms(2-4) by (simp add: step_eval k)
qed

theorem reply_to_wrong_connection_witness:
  "\<exists>s0 s. sys_start ex_calls 6379 0 echo 0 = Some s0
     \<and> run_events [E_Accept 5, E_Read 5 (Received ''x''), E_Read 5 (Received []), E_Accept 5,
        E_Pool (PE_Worker 0), E_Pool (PE_Worker 0), E_Pool (PE_Worker 0), E_Handle 0, E_Send 0 (Sent 1)] s0 = Some s
     \<and> outbox (sys_net s) 0 = [] \<and> outbox (sys_net s) 1 = ''x''"
proof -
  obtain s0 where s: "sys_start ex_calls 6379 0 echo 0 = Some s0" using ex_start_Some [of 6379 0 echo 0] by blast
  from reply_to_wrong_connection [OF s, of "''x''" "''x''" 1] s show ?thesis by simp
qed

end
