(* ===== verification/Protocol.thy ===== *)
theory Protocol
  imports Prelude "HOL-Library.Sublist"
begin

text \<open>
  The RESP protocol of \<open>include/common/protocol.h\<close> and \<open>src/common/protocol.cpp\<close>: commands and
  responses, their serialisation, and the streaming reader that extracts one command at a time
  from a connection's buffer. A position is a \<open>size_t\<close>; a bulk length is an \<open>int\<close> that the source
  converts to \<open>size_t\<close>, so negative lengths wrap around. What the source reads past the end of a
  vector is \<^const>\<open>Undefined\<close>.
\<close>

section \<open>Data\<close>

datatype CommandType = SET | GET | DEL | EXISTS | KEYS | UNKNOWN

datatype ParseError = NONE | EMPTY | UNKNOWN_COMMAND | WRONG_ARG_COUNT | PROTOCOL_ERROR

record Command =
  type :: CommandType
  args :: "string list"
  error :: ParseError

datatype Status = OK | VALUE | NOT_FOUND | ERR | COUNT

record Response =
  status :: Status
  message :: string

datatype Result = R_OK | R_PARTIAL | R_PROTOCOL_ERROR

text \<open>A \<open>Command\<close> declared without an initialiser takes the default member initialisers.\<close>

definition Command_default :: Command where
  "Command_default = \<lparr>type = UNKNOWN, args = [], error = NONE\<rparr>"

text \<open>
  \<open>cmd = {{}, {}, e}\<close> initialises every member from its clause. The first clause \<open>{}\<close>
  value-initialises the enumeration: it becomes the enumerator with value 0, which is \<open>SET\<close>,
  and not the default member initialiser \<open>UNKNOWN\<close>.
\<close>

definition CommandType_value_init :: CommandType where
  "CommandType_value_init = SET"

definition Command_braced :: "ParseError \<Rightarrow> Command" where
  "Command_braced e = \<lparr>type = CommandType_value_init, args = [], error = e\<rparr>"

section \<open>Helpers\<close>

definition upper_char :: "char \<Rightarrow> char" where
  "upper_char c =
     (if 97 \<le> (of_char c :: nat) \<and> (of_char c :: nat) \<le> 122 then char_of (of_char c - 32 :: nat) else c)"

definition ToUpper :: "string \<Rightarrow> string" where
  "ToUpper s = map upper_char s"

text \<open>\<open>ReadLine\<close> returns the line and the new position, or nothing with the position unchanged.\<close>

definition ReadLine :: "string \<Rightarrow> nat \<Rightarrow> (string \<times> nat) option" where
  "ReadLine buf pos =
     (case str_find buf crlf pos of
        None \<Rightarrow> None
      | Some i \<Rightarrow> Some (take (i - pos) (drop pos buf), i + 2))"

text \<open>
  \<open>ReadBulkString\<close> returns the string or nothing, and the new position. The sum
  \<open>pos + static_cast<size_t>(len) + 2\<close> is taken modulo \<open>2 ^ 64\<close>; \<open>substr(pos, len)\<close> converts
  \<open>len\<close> to \<open>size_t\<close> and stops at the end of the buffer; \<open>len + 2\<close> is an \<open>int\<close> sum.
\<close>

definition ReadBulkString :: "string \<Rightarrow> nat \<Rightarrow> (string option \<times> nat) result" where
  "ReadBulkString buf pos =
     (if length buf \<le> pos \<or> buf ! pos \<noteq> CHR ''$'' then Inr (None, pos)
      else case ReadLine buf pos of
        None \<Rightarrow> Inr (None, pos)
      | Some (line, pos1) \<Rightarrow>
          rbind (rbind (substr line 1 size_max) stoi) (\<lambda>len.
            if len = -1 then Inr (None, pos1)
            else if length buf < to_size (int pos1 + len + 2) then Inr (None, pos)
            else rbind (substr buf pos1 (to_size len)) (\<lambda>res.
              if int_max < len + 2 then Inl Undefined
              else Inr (Some res, to_size (int pos1 + len + 2)))))"

section \<open>Serialisation\<close>

definition SerializeResponse :: "Response \<Rightarrow> string" where
  "SerializeResponse resp =
     (case status resp of
        OK \<Rightarrow> ''+OK'' @ crlf
      | VALUE \<Rightarrow> ''$'' @ to_string (length (message resp)) @ crlf @ message resp @ crlf
      | NOT_FOUND \<Rightarrow> ''$-1'' @ crlf
      | ERR \<Rightarrow> ''-ERR '' @ message resp @ crlf
      | COUNT \<Rightarrow> '':'' @ message resp @ crlf)"

fun CommandType_name :: "CommandType \<Rightarrow> string" where
  "CommandType_name SET = ''SET''"
| "CommandType_name GET = ''GET''"
| "CommandType_name DEL = ''DEL''"
| "CommandType_name EXISTS = ''EXISTS''"
| "CommandType_name KEYS = ''KEYS''"
| "CommandType_name UNKNOWN = ''UNKNOWN''"

definition bulk :: "string \<Rightarrow> string" where
  "bulk s = ''$'' @ to_string (length s) @ crlf @ s @ crlf"

definition SerializeCommand :: "Command \<Rightarrow> string" where
  "SerializeCommand cmd =
     ''*'' @ to_string (1 + length (args cmd)) @ crlf
     @ bulk (CommandType_name (type cmd)) @ concat (map bulk (args cmd))"

section \<open>The streaming reader\<close>

type_synonym RespReader = string

definition Feed :: "RespReader \<Rightarrow> string \<Rightarrow> RespReader" where
  "Feed buf data = buf @ data"

text \<open>The loop over the announced number of bulk strings; nothing when one is incomplete.\<close>

fun read_tokens :: "nat \<Rightarrow> string \<Rightarrow> nat \<Rightarrow> ((string list \<times> nat) option) result" where
  "read_tokens 0 buf pos = Inr (Some ([], pos))"
| "read_tokens (Suc n) buf pos =
     rbind (ReadBulkString buf pos) (\<lambda>(bulk, pos1).
       case bulk of
         None \<Rightarrow> Inr None
       | Some tok \<Rightarrow> rbind (read_tokens n buf pos1) (\<lambda>r.
           case r of None \<Rightarrow> Inr None | Some (toks, pos2) \<Rightarrow> Inr (Some (tok # toks, pos2))))"

definition classify :: "string \<Rightarrow> CommandType option" where
  "classify cmd_upper =
     (if cmd_upper = ''SET'' then Some SET
      else if cmd_upper = ''GET'' then Some GET
      else if cmd_upper = ''DEL'' then Some DEL
      else if cmd_upper = ''EXISTS'' then Some EXISTS
      else if cmd_upper = ''KEYS'' then Some KEYS
      else None)"

text \<open>The command built from the tokens; \<open>tokens[1]\<close> of a one-element vector is undefined.\<close>

definition build_command :: "string list \<Rightarrow> Command result" where
  "build_command tokens =
     (case tokens of
        [] \<Rightarrow> Inl Undefined
      | name # rest \<Rightarrow>
          (case classify (ToUpper name) of
             None \<Rightarrow> Inr (Command_braced UNKNOWN_COMMAND)
           | Some SET \<Rightarrow>
               (case rest of
                  k # v # _ \<Rightarrow> Inr \<lparr>type = SET, args = [k, v], error = NONE\<rparr>
                | _ \<Rightarrow> Inr (Command_braced WRONG_ARG_COUNT))
           | Some KEYS \<Rightarrow> Inr \<lparr>type = KEYS, args = [], error = NONE\<rparr>
           | Some t \<Rightarrow>
               (case rest of
                  k # _ \<Rightarrow> Inr \<lparr>type = t, args = [k], error = NONE\<rparr>
                | [] \<Rightarrow> Inl Undefined)))"

text \<open>
  \<open>TryParse\<close>: the result, the out-parameter \<open>cmd\<close> (given as it was on entry, returned as it is on
  exit) and the remaining buffer. An exception leaves the buffer as it was.
\<close>

definition TryParse :: "Command \<Rightarrow> RespReader \<Rightarrow> (Result \<times> Command \<times> RespReader) result" where
  "TryParse cmd buf =
     (case ReadLine buf 0 of
        None \<Rightarrow> Inr (R_PARTIAL, cmd, buf)
      | Some (line, pos) \<Rightarrow>
          if line = [] \<or> hd line \<noteq> CHR ''*'' then Inr (R_PROTOCOL_ERROR, cmd, drop pos buf)
          else rbind (rbind (substr line 1 size_max) stoi) (\<lambda>count.
            if count \<le> 0 then Inr (R_PROTOCOL_ERROR, cmd, drop pos buf)
            else rbind (read_tokens (nat count) buf pos) (\<lambda>r.
              case r of
                None \<Rightarrow> Inr (R_PARTIAL, cmd, buf)
              | Some (tokens, pos1) \<Rightarrow>
                  rbind (build_command tokens) (\<lambda>c. Inr (R_OK, c, drop pos1 buf)))))"

lemma strict_prefix_append_cases:
  assumes "strict_prefix p (xs @ ys)"
  shows "strict_prefix p xs \<or> (\<exists>q. p = xs @ q \<and> strict_prefix q ys)"
  using assms by (auto simp: strict_prefix_def prefix_append)

section \<open>Lines and bulk strings\<close>

lemma cr_not_digit: "is_digit c \<Longrightarrow> c \<noteq> CHR 0x0D"
  using digit_not_sign by blast

lemma cr_notin_to_string: "CHR 0x0D \<notin> set (to_string n)"
  using to_string_digits cr_not_digit by blast

lemma find_sub_crlf_snoc: "CHR 0x0D \<notin> set xs \<Longrightarrow> find_sub crlf (xs @ [CHR 0x0D]) = None"
  by (induction xs) (auto simp: crlf_def)

text \<open>A proper prefix of a text that starts with a line either stops inside the line or before the
  line feed that ends it, or goes on with a proper prefix of what follows.\<close>

lemma strict_prefix_line:
  assumes "strict_prefix p (l @ crlf @ r)"
  shows "prefix p (l @ [CHR 0x0D]) \<or> (\<exists>q. p = l @ crlf @ q \<and> strict_prefix q r)"
proof -
  have "l @ crlf @ r = (l @ [CHR 0x0D]) @ CHR 0x0A # r" by (simp add: crlf_def)
  with assms have "strict_prefix p ((l @ [CHR 0x0D]) @ CHR 0x0A # r)" by (simp only:)
  from strict_prefix_append_cases [OF this] show ?thesis
  proof
    assume "strict_prefix p (l @ [CHR 0x0D])"
    then have "prefix p (l @ [CHR 0x0D])" by (rule prefix_order.less_imp_le)
    then show ?thesis ..
  next
    assume "\<exists>q. p = (l @ [CHR 0x0D]) @ q \<and> strict_prefix q (CHR 0x0A # r)"
    then obtain q where p: "p = (l @ [CHR 0x0D]) @ q" and q: "strict_prefix q (CHR 0x0A # r)"
      by blast
    from q show ?thesis
      by (cases q) (use p in \<open>auto simp: crlf_def\<close>)
  qed
qed

lemma find_sub_crlf_prefix:
  assumes "prefix p (l @ [CHR 0x0D])" and l: "CHR 0x0D \<notin> set l"
  shows "find_sub crlf p = None"
proof (cases "p = l @ [CHR 0x0D]")
  case True
  with find_sub_crlf_snoc [OF l] show ?thesis by (simp only:)
next
  case False
  with assms(1) have "prefix p l" unfolding prefix_snoc by blast
  then have "set p \<subseteq> set l" by (rule set_mono_prefix)
  with l show ?thesis unfolding crlf_def by (intro find_sub_absent) blast
qed

lemma ReadLine_found:
  assumes "CHR 0x0D \<notin> set xs"
  shows "ReadLine (pre @ xs @ crlf @ rest) (length pre) = Some (xs, length pre + length xs + 2)"
  using str_find_fresh [OF assms, of pre "[CHR 0x0A]" rest]
  by (simp add: ReadLine_def crlf_def)

lemma ReadLine_missing:
  assumes "find_sub crlf p = None"
  shows "ReadLine (pre @ p) (length pre) = None"
  using assms by (simp add: ReadLine_def str_find_def)

lemma ReadLine_bounds: "ReadLine buf pos = Some (line, pos1) \<Longrightarrow> pos + 2 \<le> pos1 \<and> pos1 \<le> length buf"
  by (auto simp: ReadLine_def split: option.splits dest: str_find_Some(1) str_find_Some(2))

text \<open>The longest bulk string whose length and terminator the parser can add as an \<open>int\<close>.\<close>

definition fits_bulk :: "string \<Rightarrow> bool" where
  "fits_bulk s \<longleftrightarrow> int (length s) + 2 \<le> int_max"

lemma fits_bulkD: "fits_bulk s \<Longrightarrow> length s < 2 ^ 31 - 2"
  by (simp add: fits_bulk_def int_max_def)

lemma length_bulk: "length (bulk s) = 5 + length (to_string (length s)) + length s"
  by (simp add: bulk_def)

lemma ReadBulkString_header:
  assumes "fits_bulk s" and "length (pre @ ''$'' @ to_string (length s) @ crlf @ q) < 2 ^ 63"
  shows "ReadBulkString (pre @ ''$'' @ to_string (length s) @ crlf @ q) (length pre) =
     (if length q < length s + 2 then Inr (None, length pre)
      else Inr (Some (take (length s) q), length pre + 3 + length (to_string (length s)) + length s + 2))"
proof -
  let ?n = "to_string (length s)"
  let ?buf = "pre @ ''$'' @ ?n @ crlf @ q"
  define p where "p = length pre + 3 + length ?n"
  have line: "ReadLine ?buf (length pre) = Some (CHR ''$'' # ?n, p)"
    using ReadLine_found [of "CHR ''$'' # ?n" pre q] cr_notin_to_string by (simp add: p_def)
  have stoi: "stoi ?n = Inr (int (length s))"
    using stoi_to_string [of "length s" "[]"] fits_bulkD [OF assms(1)] by simp
  have small: "to_size (int (length s)) = length s"
    using fits_bulkD [OF assms(1)] by (simp add: to_size_def)
  have "int p + int (length s) + 2 < 2 ^ 64"
    using fits_bulkD [OF assms(1)] assms(2) by (simp add: p_def)
  then have sz: "to_size (int p + int (length s) + 2) = p + length s + 2"
    by (simp add: to_size_def)
  have "?buf = (pre @ CHR ''$'' # ?n @ crlf) @ q" and "length (pre @ CHR ''$'' # ?n @ crlf) = p"
    by (simp_all add: p_def)
  then have buf: "length ?buf = p + length q" "drop p ?buf = q"
    by (metis length_append, metis append_eq_conv_conj)
  have n: "take size_max ?n = ?n"
    using assms(2) by (simp add: size_max_def)
  have "ReadBulkString ?buf (length pre) =
     (if length q < length s + 2 then Inr (None, length pre)
      else Inr (Some (take (length s) q), p + length s + 2))"
    using assms(1) buf unfolding ReadBulkString_def line
    by (simp add: stoi small sz fits_bulk_def n)
  then show ?thesis by (simp add: p_def)
qed

lemma ReadBulkString_bulk:
  assumes "fits_bulk s" and "length (pre @ bulk s @ rest) < 2 ^ 63"
  shows "ReadBulkString (pre @ bulk s @ rest) (length pre) = Inr (Some s, length pre + length (bulk s))"
  using ReadBulkString_header [OF assms(1), of pre "s @ crlf @ rest"] assms(2)
  by (simp add: bulk_def)

lemma ReadBulkString_prefix:
  assumes "fits_bulk s" and "length (pre @ p) < 2 ^ 63" and "strict_prefix p (bulk s)"
  shows "ReadBulkString (pre @ p) (length pre) = Inr (None, length pre)"
proof -
  let ?h = "CHR ''$'' # to_string (length s)"
  have "CHR 0x0D \<notin> set ?h" using cr_notin_to_string by simp
  moreover have "strict_prefix p (?h @ crlf @ (s @ crlf))"
    using assms(3) by (simp add: bulk_def)
  ultimately consider (head) "find_sub crlf p = None"
    | (tail) q where "p = ?h @ crlf @ q" "strict_prefix q (s @ crlf)"
    using strict_prefix_line find_sub_crlf_prefix by metis
  then show ?thesis
  proof cases
    case head
    from ReadLine_missing [OF this, of pre] show ?thesis
      by (simp add: ReadBulkString_def)
  next
    case tail
    from prefix_length_less [OF tail(2)] have "length q < length s + 2" by simp
    with ReadBulkString_header [OF assms(1), of pre q] assms(2) tail(1) show ?thesis by simp
  qed
qed

section \<open>Token sequences\<close>

abbreviation bulks :: "string list \<Rightarrow> string" where
  "bulks ss \<equiv> concat (map bulk ss)"

lemma read_tokens_bulks:
  assumes "\<forall>s \<in> set ss. fits_bulk s" and "length (pre @ bulks ss @ rest) < 2 ^ 63"
  shows "read_tokens (length ss) (pre @ bulks ss @ rest) (length pre)
       = Inr (Some (ss, length pre + length (bulks ss)))"
  using assms
proof (induction ss arbitrary: pre)
  case Nil
  then show ?case by simp
next
  case (Cons s ss)
  have "ReadBulkString (pre @ bulk s @ bulks ss @ rest) (length pre) = Inr (Some s, length pre + length (bulk s))"
    using Cons.prems by (intro ReadBulkString_bulk) auto
  moreover have "read_tokens (length ss) (pre @ bulk s @ bulks ss @ rest) (length pre + length (bulk s))
      = Inr (Some (ss, length pre + length (bulk s) + length (bulks ss)))"
    using Cons.IH [of "pre @ bulk s"] Cons.prems by simp
  ultimately show ?case by (simp add: add.assoc)
qed

lemma read_tokens_prefix:
  assumes "\<forall>s \<in> set ss. fits_bulk s" and "length (pre @ p) < 2 ^ 63" and "strict_prefix p (bulks ss)"
  shows "read_tokens (length ss) (pre @ p) (length pre) = Inr None"
  using assms
proof (induction ss arbitrary: pre p)
  case Nil
  then show ?case by simp
next
  case (Cons s ss)
  show ?case
  proof (cases "strict_prefix p (bulk s)")
    case True
    with ReadBulkString_prefix [OF _ Cons.prems(2) True] Cons.prems(1) show ?thesis by simp
  next
    case False
    with Cons.prems(3) obtain p' where p: "p = bulk s @ p'" and p': "strict_prefix p' (bulks ss)"
      using strict_prefix_append_cases [of p "bulk s" "bulks ss"] by auto
    have "ReadBulkString (pre @ p) (length pre) = Inr (Some s, length pre + length (bulk s))"
      using Cons.prems p by (simp add: ReadBulkString_bulk)
    moreover have "read_tokens (length ss) (pre @ p) (length pre + length (bulk s)) = Inr None"
      using Cons.IH [of "pre @ bulk s" p'] Cons.prems p p' by simp
    ultimately show ?thesis by simp
  qed
qed

section \<open>Commands\<close>

text \<open>The commands a client sends: the right number of arguments, each of a length the parser
  accepts.\<close>

fun arity :: "CommandType \<Rightarrow> nat option" where
  "arity SET = Some 2"
| "arity GET = Some 1"
| "arity DEL = Some 1"
| "arity EXISTS = Some 1"
| "arity KEYS = Some 0"
| "arity UNKNOWN = None"

definition wf_command :: "Command \<Rightarrow> bool" where
  "wf_command cmd \<longleftrightarrow> error cmd = NONE \<and> arity (type cmd) = Some (length (args cmd))
     \<and> (\<forall>a \<in> set (args cmd). fits_bulk a)"

abbreviation cmd_tokens :: "Command \<Rightarrow> string list" where
  "cmd_tokens cmd \<equiv> CommandType_name (type cmd) # args cmd"

lemma SerializeCommand_tokens:
  "SerializeCommand cmd = ''*'' @ to_string (length (cmd_tokens cmd)) @ crlf @ bulks (cmd_tokens cmd)"
  by (simp add: SerializeCommand_def)

lemma classify_name: "arity t = Some n \<Longrightarrow> classify (ToUpper (CommandType_name t)) = Some t"
  by (cases t) (simp_all add: ToUpper_def upper_char_def classify_def)

lemma length_1_2:
  "length xs = 1 \<longleftrightarrow> (\<exists>k. xs = [k])"
  "length xs = 2 \<longleftrightarrow> (\<exists>k v. xs = [k, v])"
  by (auto simp: length_Suc_conv numeral_2_eq_2)

lemma build_command_tokens: "wf_command cmd \<Longrightarrow> build_command (cmd_tokens cmd) = Inr cmd"
proof (cases cmd)
  case (fields t as e)
  assume "wf_command cmd"
  with fields have a: "arity t = Some (length as)" and e: "e = NONE"
    by (auto simp: wf_command_def)
  note c = classify_name [OF a]
  show ?thesis
  proof (cases t)
    case SET
    with a obtain k v where "as = [k, v]" by (auto simp: length_1_2)
    with SET c e fields show ?thesis by (simp add: build_command_def)
  next
    case GET
    with a obtain k where "as = [k]" by (cases as) auto
    with GET c e fields show ?thesis by (simp add: build_command_def)
  next
    case DEL
    with a obtain k where "as = [k]" by (cases as) auto
    with DEL c e fields show ?thesis by (simp add: build_command_def)
  next
    case EXISTS
    with a obtain k where "as = [k]" by (cases as) auto
    with EXISTS c e fields show ?thesis by (simp add: build_command_def)
  next
    case KEYS
    with a c e fields show ?thesis by (simp add: build_command_def)
  next
    case UNKNOWN
    with a show ?thesis by simp
  qed
qed

lemma fits_bulk_tokens: "wf_command cmd \<Longrightarrow> \<forall>s \<in> set (cmd_tokens cmd). fits_bulk s"
  by (cases "type cmd") (auto simp: wf_command_def fits_bulk_def int_max_def)

lemma cmd_tokens_length: "wf_command cmd \<Longrightarrow> length (cmd_tokens cmd) \<le> 3"
  by (cases "type cmd") (auto simp: wf_command_def)

text \<open>The first line of a serialised command.\<close>

lemma TryParse_header:
  assumes "0 < n" and "n < 2 ^ 31" and buf: "buf = ''*'' @ to_string n @ crlf @ rest"
  shows "TryParse cmd buf =
     rbind (read_tokens n buf (3 + length (to_string n))) (\<lambda>r.
       case r of
         None \<Rightarrow> Inr (R_PARTIAL, cmd, buf)
       | Some (tokens, pos1) \<Rightarrow> rbind (build_command tokens) (\<lambda>c. Inr (R_OK, c, drop pos1 buf)))"
proof -
  have line: "ReadLine buf 0 = Some (CHR ''*'' # to_string n, 3 + length (to_string n))"
    using ReadLine_found [of "CHR ''*'' # to_string n" "[]" rest] cr_notin_to_string by (simp add: buf)
  have "stoi (take size_max (to_string n)) = Inr (int n)"
    using stoi_to_string [of n "[]"] length_to_string [of n] assms(2) by (simp add: size_max_def)
  with assms(1,2) show ?thesis unfolding TryParse_def line by simp
qed

lemma TryParse_command:
  assumes "wf_command cmd" and "length (SerializeCommand cmd @ rest) < 2 ^ 63"
  shows "TryParse c0 (SerializeCommand cmd @ rest) = Inr (R_OK, cmd, rest)"
proof -
  let ?ts = "cmd_tokens cmd"
  let ?h = "''*'' @ to_string (length ?ts) @ crlf"
  have buf: "SerializeCommand cmd @ rest = ?h @ bulks ?ts @ rest"
    by (simp only: SerializeCommand_tokens append_assoc)
  have h: "length ?h = 3 + length (to_string (length ?ts))" by simp
  have "read_tokens (length ?ts) (?h @ bulks ?ts @ rest) (length ?h)
      = Inr (Some (?ts, length ?h + length (bulks ?ts)))"
    using fits_bulk_tokens [OF assms(1)] assms(2)
    by (intro read_tokens_bulks) (simp_all only: buf)
  moreover have "drop (length ?h + length (bulks ?ts)) (?h @ bulks ?ts @ rest) = rest" by simp
  moreover have "length ?ts < 2 ^ 31" using cmd_tokens_length [OF assms(1)] by simp
  ultimately show ?thesis
    using TryParse_header [of "length ?ts" "?h @ bulks ?ts @ rest" "bulks ?ts @ rest" c0]
      build_command_tokens [OF assms(1)]
    by (simp only: buf h append_assoc) simp
qed

lemma TryParse_prefix:
  assumes "wf_command cmd" and "length p < 2 ^ 63" and "strict_prefix p (SerializeCommand cmd)"
  shows "TryParse c0 p = Inr (R_PARTIAL, c0, p)"
proof -
  let ?ts = "cmd_tokens cmd"
  let ?l = "''*'' @ to_string (length ?ts)"
  have "CHR 0x0D \<notin> set ?l" using cr_notin_to_string by simp
  moreover have "strict_prefix p (?l @ crlf @ bulks ?ts)"
    using assms(3) by (simp only: SerializeCommand_tokens append_assoc)
  ultimately consider (head) "find_sub crlf p = None"
    | (tail) q where "p = ?l @ crlf @ q" "strict_prefix q (bulks ?ts)"
    using strict_prefix_line find_sub_crlf_prefix by metis
  then show ?thesis
  proof cases
    case head
    from ReadLine_missing [OF this, of "[]"] show ?thesis by (simp add: TryParse_def)
  next
    case tail
    have ts: "length ?ts < 2 ^ 31" using cmd_tokens_length [OF assms(1)] by simp
    have "read_tokens (length ?ts) ((?l @ crlf) @ q) (length (?l @ crlf)) = Inr None"
      using fits_bulk_tokens [OF assms(1)] assms(2) tail by (intro read_tokens_prefix) simp_all
    moreover have "length (?l @ crlf) = 3 + length (to_string (length ?ts))" by simp
    ultimately show ?thesis
      using TryParse_header [OF _ ts, of p q c0] tail(1) by (simp only: append_assoc) simp
  qed
qed

section \<open>Parsing any sequence of bulk strings\<close>

text \<open>What the parser returns for any complete array of bulk strings, well formed or not as a
  command.\<close>

lemma TryParse_bulks:
  assumes "ts \<noteq> []" and "length ts < 2 ^ 31" and "\<forall>s \<in> set ts. fits_bulk s"
    and "length (''*'' @ to_string (length ts) @ crlf @ bulks ts @ rest) < 2 ^ 63"
  shows "TryParse c0 (''*'' @ to_string (length ts) @ crlf @ bulks ts @ rest)
       = rbind (build_command ts) (\<lambda>c. Inr (R_OK, c, rest))"
proof -
  let ?h = "''*'' @ to_string (length ts) @ crlf"
  have "read_tokens (length ts) (?h @ bulks ts @ rest) (length ?h)
      = Inr (Some (ts, length ?h + length (bulks ts)))"
    using assms(3,4) by (intro read_tokens_bulks) simp_all
  moreover have "length ?h = 3 + length (to_string (length ts))" by simp
  moreover have "drop (length ?h + length (bulks ts)) (?h @ bulks ts @ rest) = rest" by simp
  ultimately show ?thesis
    using TryParse_header [of "length ts" "?h @ bulks ts @ rest" "bulks ts @ rest" c0] assms(1,2)
    by (simp only: append_assoc) simp
qed

lemma TryParse_protocol_error_shrinks:
  "TryParse c0 buf = Inr (R_PROTOCOL_ERROR, c, buf') \<Longrightarrow> length buf' + 2 \<le> length buf"
  by (auto simp: TryParse_def rbind_Inr_iff split: option.splits if_splits dest!: ReadLine_bounds)

section \<open>Properties\<close>

text \<open>C10: parsing a serialised command gives the command back and leaves exactly the bytes that
  follow it in the buffer, whatever bytes the arguments hold.\<close>

theorem TryParse_SerializeCommand:
  assumes "wf_command cmd" and "length (SerializeCommand cmd @ rest) < 2 ^ 63"
  shows "TryParse c0 (Feed (SerializeCommand cmd) rest) = Inr (R_OK, cmd, rest)"
  using TryParse_command [OF assms] by (simp add: Feed_def)

theorem TryParse_SerializeCommand_witness:
  "TryParse Command_default
     (Feed (SerializeCommand \<lparr>type = SET, args = [''a'' @ crlf, ''$3''], error = NONE\<rparr>) ''*1'')
   = Inr (R_OK, \<lparr>type = SET, args = [''a'' @ crlf, ''$3''], error = NONE\<rparr>, ''*1'')"
  by (rule TryParse_SerializeCommand)
     (simp_all add: wf_command_def fits_bulk_def int_max_def SerializeCommand_def bulk_def to_string.simps)

text \<open>On any proper prefix of a serialised command, as a connection holds it between two
  segments, the parser reports that data is missing, and changes neither the buffer nor the
  command.\<close>

theorem TryParse_incomplete:
  assumes "wf_command cmd" and "length p < 2 ^ 63" and "strict_prefix p (SerializeCommand cmd)"
  shows "TryParse c0 p = Inr (R_PARTIAL, c0, p)"
  using assms by (rule TryParse_prefix)

theorem TryParse_incomplete_witness:
  "TryParse Command_default (''*2'' @ crlf @ ''$3'' @ crlf @ ''GE'')
   = Inr (R_PARTIAL, Command_default, ''*2'' @ crlf @ ''$3'' @ crlf @ ''GE'')"
  by (rule TryParse_incomplete [of "\<lparr>type = GET, args = [''k''], error = NONE\<rparr>"])
     (simp_all add: wf_command_def fits_bulk_def int_max_def SerializeCommand_def bulk_def
       dec_eval crlf_def)

text \<open>An array whose first string names no command is parsed to a command of type \<open>SET\<close> with
  no arguments, and not of type \<open>UNKNOWN\<close>: the assignment \<open>cmd = {{}, {}, e}\<close> value-initialises
  the type.\<close>

theorem TryParse_unknown_command:
  assumes "classify (ToUpper name) = None" and "Suc (length rest_args) < 2 ^ 31"
    and "\<forall>s \<in> set (name # rest_args). fits_bulk s"
    and "length (''*'' @ to_string (Suc (length rest_args)) @ crlf @ bulks (name # rest_args) @ rest) < 2 ^ 63"
  shows "TryParse c0 (''*'' @ to_string (Suc (length rest_args)) @ crlf @ bulks (name # rest_args) @ rest)
       = Inr (R_OK, \<lparr>type = SET, args = [], error = UNKNOWN_COMMAND\<rparr>, rest)"
  using TryParse_bulks [of "name # rest_args" rest c0] assms
  by (simp add: build_command_def Command_braced_def CommandType_value_init_def)

theorem TryParse_unknown_command_witness:
  "TryParse Command_default (''*1'' @ crlf @ ''$4'' @ crlf @ ''PING'' @ crlf)
   = Inr (R_OK, \<lparr>type = SET, args = [], error = UNKNOWN_COMMAND\<rparr>, [])"
  using TryParse_unknown_command [of "''PING''" "[]" "[]" Command_default]
  by (simp add: classify_def ToUpper_def upper_char_def fits_bulk_def int_max_def bulk_def dec_eval)

text \<open>\<open>GET\<close>, \<open>DEL\<close> or \<open>EXISTS\<close> without an argument reads \<open>tokens[1]\<close> of a one-element vector,
  which is undefined; \<open>SET\<close> checks its argument count.\<close>

theorem TryParse_missing_argument:
  assumes "t \<in> {GET, DEL, EXISTS}"
  shows "TryParse c0 (''*1'' @ crlf @ bulk (CommandType_name t)) = Inl Undefined"
proof -
  let ?name = "CommandType_name t"
  have len: "length ?name \<le> 6" using assms by auto
  have one: "to_string (Suc 0) = ''1''" by (simp add: dec_eval)
  have "build_command [?name] = Inl Undefined"
    using assms by (auto simp: build_command_def classify_def ToUpper_def upper_char_def)
  moreover have "fits_bulk ?name" using len by (simp add: fits_bulk_def int_max_def)
  moreover have "length (bulk ?name) < 2 ^ 30"
    using len length_to_string [of "length ?name"] by (simp add: length_bulk)
  ultimately show ?thesis
    using TryParse_bulks [of "[?name]" "[]" c0] by (simp add: one)
qed

theorem TryParse_missing_argument_witness:
  "TryParse Command_default (''*1'' @ crlf @ bulk (CommandType_name DEL)) = Inl Undefined"
  by (rule TryParse_missing_argument) simp

end
