(* ===== verification/Crc32.thy ===== *)
theory Crc32
  imports Prelude
begin

text \<open>
  The checksum of \<open>src/common/crc32.cpp\<close>: the table of 256 entries built at compile time, the
  table-driven update of one byte, the checksum of a buffer, and the \<open>crc\<close> helpers that store a
  checksum in four little-endian bytes and verify it. The table-driven update is shown equal to
  eight steps of the bitwise polynomial division, and the checksum to detect every change of
  one byte.
\<close>

section \<open>The checksum\<close>

definition kCRC32Polynomial :: "32 word" where
  "kCRC32Polynomial = 0xEDB88320"

text \<open>The body of the loop in \<open>MakeTable\<close>.\<close>

definition crc_step :: "32 word \<Rightarrow> 32 word" where
  "crc_step crc =
     (if crc AND 1 \<noteq> 0 then drop_bit 1 crc XOR kCRC32Polynomial else drop_bit 1 crc)"

fun MakeTable_loop :: "nat \<Rightarrow> 32 word \<Rightarrow> 32 word" where
  "MakeTable_loop 0 crc = crc"
| "MakeTable_loop (Suc j) crc = MakeTable_loop j (crc_step crc)"

definition MakeTable :: "32 word \<Rightarrow> 32 word" where
  "MakeTable idx = MakeTable_loop 8 idx"

definition kCRC32Table :: "32 word list" where
  "kCRC32Table = map (\<lambda>i. MakeTable (of_nat i)) [0..<256]"

definition CRC32Byte :: "32 word \<Rightarrow> char \<Rightarrow> 32 word" where
  "CRC32Byte crc byte =
     kCRC32Table ! unat ((crc XOR of_char byte) AND 0xFF) XOR drop_bit 8 crc"

definition CRC32 :: "string \<Rightarrow> 32 word" where
  "CRC32 data = foldl CRC32Byte 0xFFFFFFFF data XOR 0xFFFFFFFF"

text \<open>The overloads for a string and for one byte.\<close>

definition CRC32_byte :: "char \<Rightarrow> 32 word" where
  "CRC32_byte byte = CRC32 [byte]"

section \<open>Storing and verifying a checksum\<close>

text \<open>\<open>AppendChecksum(output, data)\<close> returns the new \<open>output\<close>; the checksum is computed
  before \<open>output\<close> is changed, so the call with both arguments the same string is covered.\<close>

definition AppendChecksum :: "string \<Rightarrow> string \<Rightarrow> string" where
  "AppendChecksum output data = output @ le32 (CRC32 data)"

text \<open>\<open>ReadChecksum\<close> reads four bytes through a pointer: fewer are an out-of-range read.\<close>

definition ReadChecksum :: "string \<Rightarrow> 32 word result" where
  "ReadChecksum data =
     (case data of a # b # c # d # _ \<Rightarrow> Inr (rd32 a b c d) | _ \<Rightarrow> Inl Undefined)"

definition VerifyChecksum :: "string \<Rightarrow> nat \<Rightarrow> bool result" where
  "VerifyChecksum data data_len =
     rbind (ReadChecksum (drop data_len data))
       (\<lambda>stored. Inr (stored = CRC32 (take data_len data)))"

section \<open>The table-driven update is bitwise division\<close>

text \<open>The reference: xor the byte into the register, then eight division steps.\<close>

definition crc_byte_ref :: "32 word \<Rightarrow> char \<Rightarrow> 32 word" where
  "crc_byte_ref crc byte = (crc_step ^^ 8) (crc XOR of_char byte)"

lemma MakeTable_loop_pow: "MakeTable_loop j crc = (crc_step ^^ j) crc"
  by (induction j arbitrary: crc) (simp_all add: funpow_swap1)

lemma odd_xor_iff: "((a :: 32 word) XOR b) AND 1 \<noteq> 0 \<longleftrightarrow> (a AND 1 \<noteq> 0) \<noteq> (b AND 1 \<noteq> 0)"
  by (simp add: and_one_eq even_xor_iff mod_2_eq_odd)

lemma crc_step_xor: "crc_step (a XOR b) = crc_step a XOR crc_step b"
  using odd_xor_iff [of a b]
  by (auto simp: crc_step_def ac_simps xor.left_commute)

lemma crc_steps_xor: "(crc_step ^^ n) (a XOR b) = (crc_step ^^ n) a XOR (crc_step ^^ n) b"
  by (induction n) (simp_all add: crc_step_xor)

lemma crc_step_even: "\<not> bit a 0 \<Longrightarrow> crc_step a = drop_bit 1 a"
  by (simp add: crc_step_def and_one_eq mod_2_eq_odd bit_0)

lemma crc_steps_shift: "take_bit n a = 0 \<Longrightarrow> (crc_step ^^ n) a = drop_bit n a"
proof (induction n arbitrary: a)
  case 0
  then show ?case by simp
next
  case (Suc n)
  have low: "\<not> bit a i" if "i < Suc n" for i
    using Suc.prems that by (metis bit_take_bit_iff bit_0_eq bot_apply bot_bool_def)
  have "take_bit n (drop_bit 1 a) = 0"
    by (rule bit_word_eqI) (auto simp: bit_simps low)
  from Suc.IH [OF this] show ?case
    by (simp add: funpow_swap1 crc_step_even [OF low] drop_bit_drop_bit)
qed

lemma xor_left_cancel: "(a :: 'a::len word) XOR b = a XOR c \<longleftrightarrow> b = c"
  by (metis xor.assoc xor.left_neutral xor_self_eq)

lemma xor_right_cancel: "(b :: 'a::len word) XOR a = c XOR a \<longleftrightarrow> b = c"
  by (metis xor.commute xor_left_cancel)

lemma CRC32Byte_ref: "CRC32Byte crc byte = crc_byte_ref crc byte"
proof -
  let ?x = "crc XOR of_char byte"
  let ?lo = "take_bit 8 ?x" and ?hi = "push_bit 8 (drop_bit 8 ?x)"
  have split: "?x = ?lo XOR ?hi"
  proof (rule bit_word_eqI)
    fix n show "bit ?x n = bit (?lo XOR ?hi) n"
      by (cases "n < 8") (auto simp: bit_simps dest: bit_imp_le_length)
  qed
  have idx: "unat ?lo < 256"
    using take_bit_nat_less_exp [of 8 "unat ?x"] by (simp only: unsigned_take_bit_eq) simp
  have "kCRC32Table ! unat ?lo = (crc_step ^^ 8) ?lo"
    using idx by (simp add: kCRC32Table_def MakeTable_def MakeTable_loop_pow)
  moreover have "(crc_step ^^ 8) ?hi = drop_bit 8 ?hi"
    by (rule crc_steps_shift) (simp add: take_bit_push_bit)
  moreover have "drop_bit 8 ?hi = drop_bit 8 crc"
    by (rule bit_word_eqI) (auto simp: bit_simps bit_of_char dest: bit_imp_le_length)
  ultimately show ?thesis
    unfolding crc_byte_ref_def by (subst split) (simp only: crc_steps_xor CRC32Byte_def and_FF)
qed

lemma inj_crc_step: "inj crc_step"
proof (rule injI)
  fix a b assume eq: "crc_step a = crc_step b"
  have top: "bit (crc_step x) 31 \<longleftrightarrow> bit x 0" for x
    using bit_imp_le_length [of x 32]
    by (auto simp: crc_step_def kCRC32Polynomial_def bit_simps and_one_eq mod_2_eq_odd bit_0)
  then have "bit a 0 = bit b 0" using eq by metis
  moreover from this eq have "drop_bit 1 a = drop_bit 1 b"
    by (auto simp: crc_step_def and_one_eq mod_2_eq_odd bit_0 xor_right_cancel split: if_splits)
  ultimately have "bit a n = bit b n" for n
    by (cases n) (metis, metis bit_drop_bit_eq comp_apply plus_1_eq_Suc)
  then show "a = b" by (simp add: bit_eq_iff)
qed

lemma crc_steps_eq_iff: "(crc_step ^^ n) a = (crc_step ^^ n) b \<longleftrightarrow> a = b"
  using inj_fn [OF inj_crc_step, of n] by (auto dest: injD)

lemma foldl_crc_eq_iff: "foldl CRC32Byte a ys = foldl CRC32Byte b ys \<longleftrightarrow> a = b"
  by (induction ys arbitrary: a b)
     (simp_all add: CRC32Byte_ref crc_byte_ref_def crc_steps_eq_iff xor_right_cancel)

text \<open>Up to four bytes as one register value, least significant byte first.\<close>

fun le_word :: "string \<Rightarrow> 32 word" where
  "le_word [] = 0"
| "le_word (b # bs) = of_char b XOR push_bit 8 (le_word bs)"

lemma le_word_bits: "bit (le_word bs) n \<Longrightarrow> n < 8 * length bs"
  by (induction bs arbitrary: n) (fastforce simp: bit_simps bit_of_char)+

lemma le_word_shift: "length bs < 4 \<Longrightarrow> drop_bit 8 (push_bit 8 (le_word bs)) = le_word bs"
  by (rule bit_word_eqI) (auto simp: bit_simps dest: le_word_bits)

lemma foldl_crc_le_word:
  "length bs \<le> 4 \<Longrightarrow>
     foldl CRC32Byte crc bs = (crc_step ^^ (8 * length bs)) (crc XOR le_word bs)"
proof (induction bs arbitrary: crc)
  case Nil
  then show ?case by simp
next
  case (Cons b bs)
  let ?w = "push_bit 8 (le_word bs)"
  have "(crc_step ^^ 8) ?w = le_word bs"
    using Cons.prems by (subst crc_steps_shift) (simp_all add: take_bit_push_bit le_word_shift)
  then have "crc_byte_ref crc b XOR le_word bs = (crc_step ^^ 8) (crc XOR le_word (b # bs))"
    by (simp add: crc_byte_ref_def crc_steps_xor xor.assoc)
  moreover have "8 * length (b # bs) = 8 * length bs + 8" by simp
  ultimately show ?case
    using Cons by (simp only: foldl.simps CRC32Byte_ref funpow_add comp_apply length_Cons)
qed

lemma le_word_inj: "length a = length b \<Longrightarrow> length b \<le> 4 \<Longrightarrow> le_word a = le_word b \<Longrightarrow> a = b"
proof (induction a b rule: list_induct2)
  case Nil
  then show ?case by simp
next
  case (Cons x xs y ys)
  have lo: "take_bit 8 (le_word (c # cs)) = of_char c" for c cs
    by (rule bit_word_eqI) (auto simp: bit_simps bit_of_char)
  have hi: "drop_bit 8 (le_word (c # cs)) = le_word cs" if "length cs < 4" for c cs
    by (rule bit_word_eqI) (use that in \<open>auto simp: bit_simps bit_of_char dest: le_word_bits\<close>)
  have "x = y"
  proof -
    have "(of_char x :: 32 word) = of_char y"
      using Cons.prems(2) lo [of x xs] lo [of y ys] by simp
    then have "chr_of (of_char x :: 32 word) = chr_of (of_char y :: 32 word)" by (rule arg_cong)
    then show ?thesis by (simp add: chr_of_of_char)
  qed
  moreover have "xs = ys"
    using Cons hi [of xs x] hi [of ys y] by simp
  ultimately show ?case by simp
qed

section \<open>What the checksum detects\<close>

lemma CRC32_ref: "CRC32 data = foldl crc_byte_ref 0xFFFFFFFF data XOR 0xFFFFFFFF"
  unfolding CRC32_def by (simp add: CRC32Byte_ref [abs_def])

lemma CRC32_burst:
  assumes "length old = length new" and "length new \<le> 4" and "old \<noteq> new"
  shows "CRC32 (pre @ old @ post) \<noteq> CRC32 (pre @ new @ post)"
proof
  assume "CRC32 (pre @ old @ post) = CRC32 (pre @ new @ post)"
  then have "foldl CRC32Byte (foldl CRC32Byte 0xFFFFFFFF pre) old
           = foldl CRC32Byte (foldl CRC32Byte 0xFFFFFFFF pre) new"
    by (simp add: CRC32_def xor_right_cancel foldl_crc_eq_iff)
  then have "le_word old = le_word new"
    using assms(1,2) by (simp add: foldl_crc_le_word crc_steps_eq_iff xor_left_cancel)
  with assms show False by (auto dest: le_word_inj)
qed

section \<open>Stored checksums\<close>

lemma ReadChecksum_le32 [simp]: "ReadChecksum (le32 w @ rest) = Inr w"
  by (simp add: ReadChecksum_def le32_def rd32_le32)

lemma ReadChecksum_Inr:
  assumes "4 \<le> length data"
  shows "\<exists>w. ReadChecksum data = Inr w \<and> take 4 data = le32 w"
proof -
  from assms obtain a b c d rest where "data = a # b # c # d # rest"
    by (auto simp: numeral_eq_Suc Suc_le_length_iff)
  then show ?thesis by (simp add: ReadChecksum_def le32_rd32)
qed

lemma length_AppendChecksum [simp]: "length (AppendChecksum out data) = length out + 4"
  by (simp add: AppendChecksum_def)

lemma VerifyChecksum_stored:
  "VerifyChecksum (data @ le32 w @ rest) (length data) = Inr (w = CRC32 data)"
  by (simp add: VerifyChecksum_def)

lemma VerifyChecksum_Inr:
  assumes "data_len + 4 \<le> length data"
  shows "\<exists>b. VerifyChecksum data data_len = Inr b"
proof -
  from assms have "4 \<le> length (drop data_len data)" by simp
  from ReadChecksum_Inr [OF this] show ?thesis by (auto simp: VerifyChecksum_def)
qed

section \<open>Evaluation\<close>

lemma crc_step_numeral:
  "crc_step (numeral k) =
     (if (numeral k :: 32 word) AND 1 \<noteq> 0 then drop_bit 1 (numeral k) XOR 0xEDB88320
      else drop_bit 1 (numeral k))"
  by (simp add: crc_step_def kCRC32Polynomial_def)

lemma crc_steps_8:
  "(crc_step ^^ 8) c = crc_step (crc_step (crc_step (crc_step (crc_step (crc_step (crc_step (crc_step c)))))))"
  by (simp add: eval_nat_numeral)

text \<open>Rules under which the simplifier computes the checksum of a literal.\<close>

lemmas crc_eval = CRC32_ref crc_byte_ref_def crc_steps_8 crc_step_numeral

section \<open>Properties\<close>

text \<open>C16: the checksum, computed with the 256-entry table, is the bitwise CRC-32: every byte is
  xored into the register, which is then divided by the polynomial for eight bits.\<close>

theorem CRC32_table_driven:
  "CRC32 data = foldl crc_byte_ref 0xFFFFFFFF data XOR 0xFFFFFFFF"
  by (rule CRC32_ref)

text \<open>A change of up to four adjacent bytes, wherever it is and whatever surrounds it, changes
  the checksum.\<close>

theorem CRC32_detects_burst:
  assumes "length old = length new" and "length new \<le> 4" and "old \<noteq> new"
  shows "CRC32 (pre @ old @ post) \<noteq> CRC32 (pre @ new @ post)"
  using assms by (rule CRC32_burst)

theorem CRC32_detects_burst_witness:
  "CRC32 (''SET'' @ ''abcd'' @ ''xyz'') \<noteq> CRC32 (''SET'' @ ''abqd'' @ ''xyz'')"
  by (rule CRC32_detects_burst) simp_all

text \<open>Verification of a buffer that holds its data and a stored checksum succeeds exactly when
  the stored checksum is the one of the data; in particular it accepts what
  \<open>AppendChecksum\<close> wrote.\<close>

theorem VerifyChecksum_AppendChecksum:
  "VerifyChecksum (AppendChecksum data data @ rest) (length data) = Inr True
   \<and> VerifyChecksum (AppendChecksum data other @ rest) (length data) = Inr (CRC32 other = CRC32 data)"
  by (simp add: AppendChecksum_def VerifyChecksum_stored)

end
