(* ===== verification/Posix.thy ===== *)
theory Posix
  imports Prelude
begin

text \<open>
  The operating system as the sources use it: files, open descriptors with their offsets, and a
  monotone clock. The calls are \<open>open\<close>, \<open>read\<close>, \<open>write\<close>, \<open>lseek\<close>, \<open>fsync\<close>, \<open>close\<close>, \<open>unlink\<close> and
  \<open>rename\<close> with their documented effects; whether a call fails or transfers fewer bytes is not up
  to the program, so it is an input of the model: every call takes its outcome from the list
  \<open>faults\<close>, and succeeds in full when the list is empty. The clock advances by the next entry of
  \<open>ticks\<close>. The program only tests a descriptor for being negative, so a descriptor is any number
  that is not in use. The program never removes a file it has open.
\<close>

datatype errno = ENOENT | EACCES | EBADF | EIO

datatype fault = NoFault | Fail errno | Short nat

record os =
  files :: "string \<Rightarrow> string option"
  fds :: "int \<Rightarrow> (string \<times> nat) option"
  next_fd :: nat
  synced :: "string \<Rightarrow> string option"   \<comment> \<open>contents at the last \<open>fsync\<close>\<close>
  faults :: "fault list"
  clock :: nat
  ticks :: "nat list"

definition pop_fault :: "os \<Rightarrow> fault \<times> os" where
  "pop_fault s = (case faults s of [] \<Rightarrow> (NoFault, s) | f # fs \<Rightarrow> (f, s\<lparr>faults := fs\<rparr>))"

section \<open>Descriptors\<close>

definition new_fd :: "string \<Rightarrow> os \<Rightarrow> int \<times> os" where
  "new_fd path s =
     (int (next_fd s), s\<lparr>fds := (fds s)(int (next_fd s) \<mapsto> (path, 0)), next_fd := Suc (next_fd s)\<rparr>)"

text \<open>Each \<open>open\<close> returns the descriptor, or \<open>-1\<close> and the value of \<open>errno\<close>.\<close>

definition os_open_rdwr_creat :: "string \<Rightarrow> os \<Rightarrow> int \<times> errno option \<times> os" where
  "os_open_rdwr_creat path s =
     (case pop_fault s of
        (Fail e, s1) \<Rightarrow> (-1, Some e, s1)
      | (_, s1) \<Rightarrow>
          let s2 = (if files s1 path = None then s1\<lparr>files := (files s1)(path \<mapsto> [])\<rparr> else s1);
              (fd, s3) = new_fd path s2
          in (fd, None, s3))"

definition os_open_trunc_creat :: "string \<Rightarrow> os \<Rightarrow> int \<times> errno option \<times> os" where
  "os_open_trunc_creat path s =
     (case pop_fault s of
        (Fail e, s1) \<Rightarrow> (-1, Some e, s1)
      | (_, s1) \<Rightarrow>
          let (fd, s3) = new_fd path (s1\<lparr>files := (files s1)(path \<mapsto> [])\<rparr>)
          in (fd, None, s3))"

definition os_open_rdonly :: "string \<Rightarrow> os \<Rightarrow> int \<times> errno option \<times> os" where
  "os_open_rdonly path s =
     (case pop_fault s of
        (Fail e, s1) \<Rightarrow> (-1, Some e, s1)
      | (_, s1) \<Rightarrow>
          if files s1 path = None then (-1, Some ENOENT, s1)
          else let (fd, s2) = new_fd path s1 in (fd, None, s2))"

definition os_close :: "int \<Rightarrow> os \<Rightarrow> os" where
  "os_close fd s = s\<lparr>fds := (fds s)(fd := None)\<rparr>"

section \<open>Transfers\<close>

definition content_of :: "string \<Rightarrow> os \<Rightarrow> string" where
  "content_of path s = (case files s path of None \<Rightarrow> [] | Some c \<Rightarrow> c)"

text \<open>Writing past the end of a file fills the gap with zero bytes.\<close>

definition write_at :: "string \<Rightarrow> nat \<Rightarrow> string \<Rightarrow> string" where
  "write_at c off bytes =
     take off c @ replicate (off - length c) (CHR 0x00) @ bytes @ drop (off + length bytes) c"

definition os_write :: "int \<Rightarrow> string \<Rightarrow> os \<Rightarrow> int \<times> os" where
  "os_write fd buf s =
     (case fds s fd of
        None \<Rightarrow> (-1, s)
      | Some (path, off) \<Rightarrow>
          (case pop_fault s of
             (Fail _, s1) \<Rightarrow> (-1, s1)
           | (f, s1) \<Rightarrow>
               let bytes = (case f of Short n \<Rightarrow> take n buf | _ \<Rightarrow> buf)
               in (int (length bytes),
                   s1\<lparr>files := (files s1)(path \<mapsto> write_at (content_of path s1) off bytes),
                      fds := (fds s1)(fd \<mapsto> (path, off + length bytes))\<rparr>)))"

text \<open>\<open>read\<close> returns at least one byte unless it fails or the offset is at the end.\<close>

definition os_read :: "int \<Rightarrow> nat \<Rightarrow> os \<Rightarrow> int \<times> string \<times> os" where
  "os_read fd count s =
     (case fds s fd of
        None \<Rightarrow> (-1, [], s)
      | Some (path, off) \<Rightarrow>
          (case pop_fault s of
             (Fail _, s1) \<Rightarrow> (-1, [], s1)
           | (f, s1) \<Rightarrow>
               let avail = take count (drop off (content_of path s1));
                   bytes = (case f of Short n \<Rightarrow> take (max 1 n) avail | _ \<Rightarrow> avail)
               in (int (length bytes), bytes, s1\<lparr>fds := (fds s1)(fd \<mapsto> (path, off + length bytes))\<rparr>)))"

datatype whence = SEEK_SET | SEEK_CUR | SEEK_END

definition os_lseek :: "int \<Rightarrow> nat \<Rightarrow> whence \<Rightarrow> os \<Rightarrow> int \<times> os" where
  "os_lseek fd offset wh s =
     (case fds s fd of
        None \<Rightarrow> (-1, s)
      | Some (path, off) \<Rightarrow>
          (case pop_fault s of
             (Fail _, s1) \<Rightarrow> (-1, s1)
           | (_, s1) \<Rightarrow>
               let new = (case wh of SEEK_SET \<Rightarrow> offset | SEEK_CUR \<Rightarrow> off + offset
                                   | SEEK_END \<Rightarrow> length (content_of path s1) + offset)
               in (int new, s1\<lparr>fds := (fds s1)(fd \<mapsto> (path, new))\<rparr>)))"

definition os_fsync :: "int \<Rightarrow> os \<Rightarrow> os" where
  "os_fsync fd s =
     (case fds s fd of None \<Rightarrow> s | Some (path, _) \<Rightarrow> s\<lparr>synced := (synced s)(path := files s path)\<rparr>)"

section \<open>Names\<close>

definition os_unlink :: "string \<Rightarrow> os \<Rightarrow> os" where
  "os_unlink path s =
     (case pop_fault s of (Fail _, s1) \<Rightarrow> s1 | (_, s1) \<Rightarrow> s1\<lparr>files := (files s1)(path := None)\<rparr>)"

definition os_rename :: "string \<Rightarrow> string \<Rightarrow> os \<Rightarrow> int \<times> os" where
  "os_rename old new s =
     (case pop_fault s of
        (Fail _, s1) \<Rightarrow> (-1, s1)
      | (_, s1) \<Rightarrow>
          (case files s1 old of
             None \<Rightarrow> (-1, s1)
           | Some c \<Rightarrow> (0, s1\<lparr>files := ((files s1)(old := None))(new \<mapsto> c)\<rparr>)))"

text \<open>\<open>std::filesystem::create_directories\<close>. Directories are not part of the model, so only that the call
  may throw is.\<close>

definition os_create_directories :: "string \<Rightarrow> os \<Rightarrow> unit result \<times> os" where
  "os_create_directories path s =
     (case pop_fault s of
        (Fail _, s1) \<Rightarrow> (Inl (RuntimeError ''filesystem error: cannot create directories''), s1)
      | (_, s1) \<Rightarrow> (Inr (), s1))"

section \<open>The clock\<close>

text \<open>\<open>std::chrono::steady_clock::now()\<close>, in nanoseconds.\<close>

definition steady_now :: "os \<Rightarrow> nat \<times> os" where
  "steady_now s =
     (case ticks s of
        [] \<Rightarrow> (clock s, s)
      | d # ds \<Rightarrow> (clock s + d, s\<lparr>clock := clock s + d, ticks := ds\<rparr>))"

text \<open>Open descriptors are numbered below the next one.\<close>

definition os_wf :: "os \<Rightarrow> bool" where
  "os_wf s \<longleftrightarrow> (\<forall>fd. fds s fd \<noteq> None \<longrightarrow> 0 \<le> fd \<and> fd < int (next_fd s))"

text \<open>A process that has just started: no open files of its own, an empty file system.\<close>

definition os_start :: os where
  "os_start = \<lparr>files = (\<lambda>_. None), fds = (\<lambda>_. None), next_fd = 3, synced = (\<lambda>_. None),
     faults = [], clock = 0, ticks = []\<rparr>"

text \<open>The end of a process, orderly or not: its descriptors are gone, the files stay as they are.\<close>

definition os_exit :: "os \<Rightarrow> os" where
  "os_exit s = s\<lparr>fds := (\<lambda>_. None)\<rparr>"

section \<open>Basic facts\<close>

lemma os_exit_simps [simp]:
  "files (os_exit s) = files s" "faults (os_exit s) = faults s" "os_wf (os_exit s)"
  by (simp_all add: os_exit_def os_wf_def)

lemma os_wf_start [simp]: "os_wf os_start" and faults_start [simp]: "faults os_start = []"
  by (simp_all add: os_wf_def os_start_def)

lemma os_wf_free: "os_wf s \<Longrightarrow> fds s (int (next_fd s)) = None"
  unfolding os_wf_def by (metis less_irrefl)

lemma content_of_Some [simp]: "files s path = Some c \<Longrightarrow> content_of path s = c"
  by (simp add: content_of_def)

lemma pop_fault_calm [simp]: "faults s = [] \<Longrightarrow> pop_fault s = (NoFault, s)"
  by (simp add: pop_fault_def)

lemma pop_fault_frame:
  assumes "pop_fault s = (f, s1)"
  shows "files s1 = files s" and "fds s1 = fds s" and "next_fd s1 = next_fd s"
    and "clock s1 = clock s" and "ticks s1 = ticks s" and "synced s1 = synced s"
  using assms by (auto simp: pop_fault_def split: list.splits)

lemma os_read_length: "os_read fd count s = (n, bytes, s1) \<Longrightarrow> length bytes \<le> count \<and> (0 < n \<longrightarrow> n = int (length bytes))"
  by (auto simp: os_read_def Let_def min_def max_def split: option.splits prod.splits fault.splits)

lemma os_write_length: "os_write fd buf s = (n, s1) \<Longrightarrow> n \<le> int (length buf)"
  by (auto simp: os_write_def Let_def split: option.splits prod.splits fault.splits)

section \<open>The transfer loops\<close>

text \<open>
  The loop with which both file formats are read: \<open>read\<close> until the wanted number of bytes has
  arrived or a call returns no data. The result is what was read.
\<close>

function read_loop :: "int \<Rightarrow> nat \<Rightarrow> os \<Rightarrow> string \<times> os" where
  "read_loop fd remaining s =
     (if remaining = 0 then ([], s)
      else let (n, bytes, s1) = os_read fd remaining s
           in if n \<le> 0 then ([], s1)
              else let (more, s2) = read_loop fd (remaining - length bytes) s1 in (bytes @ more, s2))"
  by pat_completeness auto
termination
proof (relation "measure (\<lambda>(fd, remaining, s). remaining)", goal_cases)
  case 1
  show ?case by simp
next
  case (2 fd remaining s x n y bytes s1)
  then have r: "os_read fd remaining s = (n, bytes, s1)" by simp
  from os_read_length [OF r] 2 show ?case by (cases bytes) auto
qed

declare read_loop.simps [simp del]

text \<open>The loop with which a snapshot is written: \<^const>\<open>False\<close> as soon as a call writes nothing.\<close>

function write_loop :: "int \<Rightarrow> string \<Rightarrow> os \<Rightarrow> bool \<times> os" where
  "write_loop fd buf s =
     (if buf = [] then (True, s)
      else let (n, s1) = os_write fd buf s
           in if n \<le> 0 then (False, s1) else write_loop fd (drop (nat n) buf) s1)"
  by pat_completeness auto
termination
proof (relation "measure (\<lambda>(fd, buf, s). length buf)", goal_cases)
  case 1
  show ?case by simp
next
  case (2 fd buf s x n s1)
  then show ?case by (auto simp: length_greater_0_conv [symmetric] simp del: length_greater_0_conv)
qed

declare write_loop.simps [simp del]

section \<open>Calls that succeed\<close>

lemma write_at_end [simp]: "write_at c (length c) bytes = c @ bytes"
  by (simp add: write_at_def)

lemma os_write_calm:
  "faults s = [] \<Longrightarrow> fds s fd = Some (path, off) \<Longrightarrow>
     os_write fd buf s = (int (length buf),
       s\<lparr>files := (files s)(path \<mapsto> write_at (content_of path s) off buf),
         fds := (fds s)(fd \<mapsto> (path, off + length buf))\<rparr>)"
  by (simp add: os_write_def)

lemma os_lseek_calm:
  "faults s = [] \<Longrightarrow> fds s fd = Some (path, off) \<Longrightarrow>
     os_lseek fd offset wh s =
       (let new = (case wh of SEEK_SET \<Rightarrow> offset | SEEK_CUR \<Rightarrow> off + offset
                            | SEEK_END \<Rightarrow> length (content_of path s) + offset)
        in (int new, s\<lparr>fds := (fds s)(fd \<mapsto> (path, new))\<rparr>))"
  by (simp add: os_lseek_def)

lemma read_loop_calm:
  assumes "faults s = []" and "fds s fd = Some (path, 0)"
  shows "read_loop fd (length (content_of path s)) s =
    (content_of path s, s\<lparr>fds := (fds s)(fd \<mapsto> (path, length (content_of path s)))\<rparr>)"
proof (cases "content_of path s = []")
  case True
  with assms(2) show ?thesis by (simp add: read_loop.simps) (metis fun_upd_triv os.surjective os.update_convs(2))
next
  case False
  let ?c = "content_of path s"
  have "os_read fd (length ?c) s = (int (length ?c), ?c, s\<lparr>fds := (fds s)(fd \<mapsto> (path, length ?c))\<rparr>)"
    using assms by (simp add: os_read_def)
  with False show ?thesis by (subst read_loop.simps) (simp add: read_loop.simps)
qed

lemma write_loop_calm:
  assumes "faults s = []" and "fds s fd = Some (path, off)" and "buf \<noteq> []"
  shows "write_loop fd buf s = (True,
       s\<lparr>files := (files s)(path \<mapsto> write_at (content_of path s) off buf),
         fds := (fds s)(fd \<mapsto> (path, off + length buf))\<rparr>)"
  using assms by (subst write_loop.simps) (simp add: os_write_calm write_loop.simps)

section \<open>Writing a buffer, whatever the outcomes\<close>

text \<open>One \<open>write\<close> of what is left of \<open>c\<close> to a file that holds its first \<open>k\<close> bytes: nothing happens, or
  the file grows to a longer prefix.\<close>

lemma os_write_progress:
  assumes "fds s fd = Some (path, k)" and "files s path = Some (take k c)" and "k \<le> length c"
    and "os_write fd (drop k c) s = (n, s1)"
  shows "n \<le> 0 \<and> files s1 = files s
    \<or> (\<exists>m. n = int m \<and> 0 < m \<and> k + m \<le> length c
         \<and> files s1 = (files s)(path \<mapsto> take (k + m) c) \<and> fds s1 fd = Some (path, k + m))"
proof -
  have w: "write_at (take k c) k (take m (drop k c)) = take (k + min m (length c - k)) c" for m
    using assms(3) by (simp add: write_at_def take_add min_def)
  obtain f s0 where f: "pop_fault s = (f, s0)" by (cases "pop_fault s")
  note fr = pop_fault_frame [OF f]
  have c0: "content_of path s0 = take k c" using assms(2) by (simp add: content_of_def fr)
  show ?thesis
  proof (cases f)
    case NoFault
    have "write_at (take k c) k (drop k c) = c" using w [of "length c"] by simp
    with NoFault assms f fr c0 show ?thesis
      by (cases "k = length c") (auto simp: os_write_def fun_upd_idem intro!: exI [of _ "length c - k"])
  next
    case (Fail e)
    with assms f fr show ?thesis by (auto simp: os_write_def)
  next
    case (Short m)
    with assms f fr c0 w [of m] have n: "n = int (min m (length c - k))"
      and s1: "files s1 = (files s)(path \<mapsto> take (k + min m (length c - k)) c)"
      "fds s1 fd = Some (path, k + min m (length c - k))"
      by (auto simp: os_write_def min.commute)
    show ?thesis
    proof (cases "min m (length c - k) = 0")
      case True
      with n s1 assms(2) show ?thesis by (simp add: fun_upd_idem)
    next
      case False
      then show ?thesis using n s1 assms(3) by (intro disjI2 exI [of _ "min m (length c - k)"]) auto
    qed
  qed
qed

end
