(* ===== verification/Codec.thy ===== *)
theory Codec
  imports Prelude "HOL-Library.Sublist"
begin

text \<open>
  The interface between a record format and the readers of files that hold a sequence of records.
  Both file formats of the program, the log and the snapshot, are interpretations: the laws are
  discharged on the encoders and decoders translated from the sources.
\<close>

section \<open>Record formats\<close>

text \<open>
  A decoder returns a record and the number of bytes consumed, 0 for none. It decodes an encoding
  whatever follows it, returns on every input, and when it accepts, what it consumed is the
  encoding of what it returns.
\<close>

locale record_codec =
  fixes enc :: "'r \<Rightarrow> string"
    and wf :: "'r \<Rightarrow> bool"
    and dec :: "string \<Rightarrow> ('r \<times> nat) result"
  assumes enc_nonempty: "enc r \<noteq> []"
    and dec_enc: "wf r \<Longrightarrow> dec (enc r @ rest) = Inr (r, length (enc r))"
    and dec_safe: "\<exists>r n. dec p = Inr (r, n)"
    and dec_sound: "dec p = Inr (r, n) \<Longrightarrow> n \<noteq> 0 \<Longrightarrow> wf r \<and> take n p = enc r"
begin

text \<open>No encoding is a prefix of another: decoding is unique.\<close>

lemma enc_unique:
  assumes "wf a" and "wf b" and "enc a @ x = enc b @ y"
  shows "a = b \<and> x = y"
proof -
  have "Inr (a, length (enc a)) = dec (enc a @ x)" by (simp only: dec_enc [OF assms(1)])
  also have "\<dots> = Inr (b, length (enc b))" by (simp only: assms(3) dec_enc [OF assms(2)])
  finally have "a = b" by simp
  with assms(3) show ?thesis by simp
qed

text \<open>An encoding cut short is not decoded: what was accepted would be an encoding that is a proper
  prefix of another.\<close>

lemma dec_torn:
  assumes "wf r" and "strict_prefix p (enc r)"
  shows "\<exists>d. dec p = Inr (d, 0)"
proof -
  obtain d n where d: "dec p = Inr (d, n)" using dec_safe by blast
  have "n = 0"
  proof (rule ccontr)
    assume "n \<noteq> 0"
    from dec_sound [OF d this] have wf: "wf d" and e: "take n p = enc d" by simp_all
    from assms(2) obtain q where q: "enc r = p @ q" "q \<noteq> []"
      by (auto simp: strict_prefix_def prefix_def)
    then have "enc r @ [] = enc d @ (drop n p @ q)"
      by (metis append_assoc append_take_drop_id append_Nil2 e)
    from enc_unique [OF assms(1) wf this] q(2) show False by simp
  qed
  with d show ?thesis by blast
qed

end

section \<open>Logs\<close>

text \<open>The reader of a log takes records from the front until one does not decode.\<close>

locale framed_log = record_codec +
  fixes parse :: "string \<Rightarrow> 'a list result"
  assumes parse_Nil: "parse [] = Inr []"
    and parse_stop: "data \<noteq> [] \<Longrightarrow> dec data = Inr (d, 0) \<Longrightarrow> parse data = Inr []"
    and parse_step: "data \<noteq> [] \<Longrightarrow> dec data = Inr (r, n) \<Longrightarrow> n \<noteq> 0 \<Longrightarrow>
       parse data = rbind (parse (drop n data)) (\<lambda>rs. Inr (r # rs))"
begin

lemma parse_append:
  assumes "\<forall>r \<in> set rs. wf r"
  shows "parse (concat (map enc rs) @ tail) = rbind (parse tail) (\<lambda>more. Inr (rs @ more))"
  using assms
proof (induction rs)
  case Nil
  show ?case by (cases "parse tail") simp_all
next
  case (Cons r rs)
  let ?rest = "concat (map enc rs) @ tail"
  have "dec (enc r @ ?rest) = Inr (r, length (enc r))"
    using Cons.prems by (simp add: dec_enc)
  then have "parse (enc r @ ?rest) = rbind (parse ?rest) (\<lambda>rs. Inr (r # rs))"
    using parse_step [of "enc r @ ?rest" r "length (enc r)"] enc_nonempty [of r] by simp
  with Cons show ?case by (cases "parse tail") simp_all
qed

lemma parse_log: "\<forall>r \<in> set rs. wf r \<Longrightarrow> parse (concat (map enc rs)) = Inr rs"
  using parse_append [of rs "[]"] by (simp add: parse_Nil)

lemma parse_bad_tail:
  assumes "\<forall>r \<in> set rs. wf r" and "dec bad = Inr (d, 0)"
  shows "parse (concat (map enc rs) @ bad) = Inr rs"
  using parse_append [OF assms(1), of bad] assms(2)
  by (cases "bad = []") (simp_all add: parse_Nil parse_stop)

lemma parse_torn_log:
  assumes "\<forall>r \<in> set rs. wf r" and "wf t" and "strict_prefix p (enc t)"
  shows "parse (concat (map enc rs) @ p) = Inr rs"
  using parse_bad_tail [OF assms(1)] dec_torn [OF assms(2,3)] by blast

text \<open>Appending a record to a complete log makes it the last one read.\<close>

lemma parse_snoc:
  "\<forall>r \<in> set rs. wf r \<Longrightarrow> wf t \<Longrightarrow> parse (concat (map enc rs) @ enc t) = Inr (rs @ [t])"
  using parse_log [of "rs @ [t]"] by simp

end

end
