(* ===== verification/Wal.thy ===== *)
theory Wal
  imports Crc32 Posix Codec
begin

text \<open>
  The write-ahead log of \<open>include/common/wal.h\<close> and \<open>src/common/wal.cpp\<close>: the binary record format,
  and the singleton \<open>WAL\<close> with its file, as a record that the operations take and return together
  with the operating system's state. An operation that throws returns the state it had reached.
  Log messages are left out. The mutex is held by every operation from start to end, so each is one
  step here.
\<close>

section \<open>Data\<close>

text \<open>\<open>OpType\<close> is an enumeration over \<open>uint8_t\<close>: a byte read from the file is cast to it as it is,
  so that values other than the two enumerators occur.\<close>

type_synonym OpType = "8 word"

definition OpType_SET :: OpType where "OpType_SET = 1"
definition OpType_DEL :: OpType where "OpType_DEL = 2"

datatype FsyncPolicy = ALWAYS | EVERYSEC | NO

record WALConfig =
  policy :: FsyncPolicy
  sync_interval_ms :: int

definition WALConfig_default :: WALConfig where
  "WALConfig_default = \<lparr>policy = EVERYSEC, sync_interval_ms = 1000\<rparr>"

record WALRecord =
  rec_op :: OpType
  rec_key :: string
  rec_value :: string

text \<open>The value of \<open>return {}\<close>.\<close>

definition WALRecord_empty :: WALRecord where
  "WALRecord_empty = \<lparr>rec_op = 0, rec_key = [], rec_value = []\<rparr>"

section \<open>The record format\<close>

text \<open>The bytes that the checksum covers: both functions build them in the same way.\<close>

definition wal_payload :: "OpType \<Rightarrow> 16 word \<Rightarrow> string \<Rightarrow> 16 word \<Rightarrow> string \<Rightarrow> string" where
  "wal_payload t key_len k val_len v = [chr_of t] @ le16 key_len @ k @ le16 val_len @ v"

definition WALRecord_Serialize :: "WALRecord \<Rightarrow> string" where
  "WALRecord_Serialize r =
     (let data = wal_payload (rec_op r) (of_nat (length (rec_key r))) (rec_key r) (of_nat (length (rec_value r))) (rec_value r)
      in AppendChecksum [] data @ data)"

text \<open>\<open>Deserialize(data, len, consumed)\<close> returns the record and \<open>consumed\<close>; \<open>data\<close> is the memory the
  pointer refers to.\<close>

definition WALRecord_Deserialize :: "string \<Rightarrow> nat \<Rightarrow> (WALRecord \<times> nat) result" where
  "WALRecord_Deserialize data len =
     (if len < 9 then Inr (WALRecord_empty, 0)
      else
        rbind (ReadChecksum data) (\<lambda>stored_crc.
        rbind (rd_at data 4) (\<lambda>op_byte.
        rbind (rd_u16 data 5) (\<lambda>key_len.
        if len < 4 + 1 + 2 + unat key_len + 2 then Inr (WALRecord_empty, 0)
        else
          rbind (rd_range data 7 (unat key_len)) (\<lambda>k.
          rbind (rd_u16 data (7 + unat key_len)) (\<lambda>val_len.
          let total_len = 7 + unat key_len + 2 + unat val_len
          in if len < total_len then Inr (WALRecord_empty, 0)
             else
               rbind (rd_range data (7 + unat key_len + 2) (unat val_len)) (\<lambda>v.
               if stored_crc \<noteq> CRC32 (wal_payload (of_char op_byte) key_len k val_len v)
               then Inr (WALRecord_empty, 0)
               else Inr (\<lparr>rec_op = of_char op_byte, rec_key = k, rec_value = v\<rparr>, total_len))))))))"

lemma WALRecord_Deserialize_consumed:
  "WALRecord_Deserialize data len = Inr (r, n) \<Longrightarrow> n \<le> len"
  by (auto simp: WALRecord_Deserialize_def Let_def rbind_Inr_iff split: if_splits)

text \<open>The loop of \<open>ReadAll\<close> over the contents that were read; it stops at the first record that
  does not decode.\<close>

function parse_records :: "string \<Rightarrow> WALRecord list result" where
  "parse_records content =
     (if content = [] then Inr []
      else case WALRecord_Deserialize content (length content) of
        Inl e \<Rightarrow> Inl e
      | Inr (r, consumed) \<Rightarrow>
          if consumed = 0 then Inr []
          else rbind (parse_records (drop consumed content)) (\<lambda>rs. Inr (r # rs)))"
  by pat_completeness auto
termination
  by (relation "measure length") auto

declare parse_records.simps [simp del]

section \<open>The log\<close>

record WAL =
  wal_config :: WALConfig
  wal_path :: string
  wal_fd :: int
  write_pos :: int
  is_open :: bool
  enabled :: bool
  max_retries :: nat
  sync_thread :: bool   \<comment> \<open>whether the background thread is joinable\<close>
  wal_running :: bool

definition WAL_ctor :: WAL where
  "WAL_ctor = \<lparr>wal_config = WALConfig_default, wal_path = [], wal_fd = -1, write_pos = 0, is_open = False,
     enabled = False, max_retries = 3, sync_thread = False, wal_running = False\<rparr>"

definition WAL_CloseFD :: "WAL \<Rightarrow> os \<Rightarrow> WAL \<times> os" where
  "WAL_CloseFD w s = (if 0 \<le> wal_fd w then (w\<lparr>wal_fd := -1\<rparr>, os_close (wal_fd w) s) else (w, s))"

definition WAL_Sync :: "WAL \<Rightarrow> os \<Rightarrow> os" where
  "WAL_Sync w s = (if \<not> enabled w \<or> wal_fd w < 0 then s else os_fsync (wal_fd w) s)"

text \<open>\<open>TryOpen\<close>: the loop over the remaining attempts.\<close>

fun TryOpen_loop :: "nat \<Rightarrow> WAL \<Rightarrow> os \<Rightarrow> bool \<times> WAL \<times> os" where
  "TryOpen_loop 0 w s = (False, w\<lparr>is_open := False\<rparr>, s)"
| "TryOpen_loop (Suc n) w s =
     (let (fd, err, s1) = os_open_rdwr_creat (wal_path w) s; w1 = w\<lparr>wal_fd := fd\<rparr>
      in if 0 \<le> fd then
           let (pos, s2) = os_lseek fd 0 SEEK_END s1
           in (True, w1\<lparr>write_pos := (if pos = -1 then 0 else pos), is_open := True\<rparr>, s2)
         else if err \<noteq> Some ENOENT \<and> err \<noteq> Some EACCES then (False, w1\<lparr>is_open := False\<rparr>, s1)
         else TryOpen_loop n w1 s1)"

definition WAL_TryOpen :: "WAL \<Rightarrow> os \<Rightarrow> bool \<times> WAL \<times> os" where
  "WAL_TryOpen w s = TryOpen_loop (max_retries w) w s"

text \<open>\<open>Init\<close>. Joining the background thread is taken to return; that it may not, because \<open>Init\<close> holds
  the mutex that the thread needs, is the subject of the theory of the background thread.\<close>

definition WAL_Init :: "string \<Rightarrow> WALConfig \<Rightarrow> WAL \<Rightarrow> os \<Rightarrow> WAL \<times> os" where
  "WAL_Init filepath config w s =
     (let (w1, s1) =
            (if is_open w then
               let wa = w\<lparr>wal_running := False, sync_thread := False\<rparr>;
                   (wb, sb) = WAL_CloseFD wa (WAL_Sync wa s)
               in (wb\<lparr>is_open := False\<rparr>, sb)
             else (w, s));
          (ok, w2, s2) = WAL_TryOpen (w1\<lparr>wal_config := config, wal_path := filepath\<rparr>) s1;
          w3 = w2\<lparr>enabled := ok\<rparr>
      in if ok \<and> policy config = EVERYSEC then (w3\<lparr>wal_running := True, sync_thread := True\<rparr>, s2)
         else (w3, s2))"

definition WAL_Shutdown :: "WAL \<Rightarrow> os \<Rightarrow> WAL \<times> os" where
  "WAL_Shutdown w s =
     (let w1 = w\<lparr>wal_running := False, sync_thread := False\<rparr>;
          (w2, s2) = (if is_open w1 then
                        let (wa, sa) = WAL_CloseFD w1 (WAL_Sync w1 s) in (wa\<lparr>is_open := False\<rparr>, sa)
                      else (w1, s))
      in (w2\<lparr>enabled := False\<rparr>, s2))"

definition WAL_dtor :: "WAL \<Rightarrow> os \<Rightarrow> WAL \<times> os" where
  "WAL_dtor w s =
     (let w1 = w\<lparr>wal_running := False, sync_thread := False\<rparr>
      in if is_open w1 then WAL_CloseFD w1 (WAL_Sync w1 s) else (w1, s))"

definition WAL_WriteRecord :: "WALRecord \<Rightarrow> WAL \<Rightarrow> os \<Rightarrow> unit result \<times> WAL \<times> os" where
  "WAL_WriteRecord r w s =
     (let data = WALRecord_Serialize r; (n, s1) = os_write (wal_fd w) data s
      in if n \<noteq> int (length data) then (Inl (RuntimeError ''Failed to write to WAL file''), w, s1)
         else (Inr (), w\<lparr>write_pos := write_pos w + n\<rparr>, s1))"

definition WAL_Append :: "WALRecord \<Rightarrow> WAL \<Rightarrow> os \<Rightarrow> unit result \<times> WAL \<times> os" where
  "WAL_Append r w s =
     (if \<not> enabled w then (Inr (), w, s)
      else case WAL_WriteRecord r w s of
        (Inl e, w1, s1) \<Rightarrow> (Inl e, w1, s1)
      | (Inr _, w1, s1) \<Rightarrow>
          if policy (wal_config w1) = ALWAYS then (Inr (), w1, WAL_Sync w1 s1) else (Inr (), w1, s1))"

definition WAL_AppendSet :: "string \<Rightarrow> string \<Rightarrow> WAL \<Rightarrow> os \<Rightarrow> unit result \<times> WAL \<times> os" where
  "WAL_AppendSet k v w s = WAL_Append \<lparr>rec_op = OpType_SET, rec_key = k, rec_value = v\<rparr> w s"

definition WAL_AppendDel :: "string \<Rightarrow> WAL \<Rightarrow> os \<Rightarrow> unit result \<times> WAL \<times> os" where
  "WAL_AppendDel k w s = WAL_Append \<lparr>rec_op = OpType_DEL, rec_key = k, rec_value = []\<rparr> w s"

definition WAL_ReadAll :: "WAL \<Rightarrow> os \<Rightarrow> WALRecord list result \<times> os" where
  "WAL_ReadAll w s =
     (if \<not> is_open w then (Inr [], s)
      else
        let (file_size, s1) = os_lseek (wal_fd w) 0 SEEK_END s
        in if file_size \<le> 0 then (Inr [], s1)
           else
             let (_, s2) = os_lseek (wal_fd w) 0 SEEK_SET s1;
                 (content, s3) = read_loop (wal_fd w) (nat file_size) s2
             in (parse_records content, s3))"

definition WAL_ClearWithoutLock :: "WAL \<Rightarrow> os \<Rightarrow> unit result \<times> WAL \<times> os" where
  "WAL_ClearWithoutLock w s =
     (if \<not> enabled w then (Inr (), w, s)
      else
        let (w1, s1) = WAL_CloseFD w s;
            (fd, err, s2) = os_open_trunc_creat (wal_path w1) s1;
            w2 = w1\<lparr>wal_fd := fd\<rparr>
        in if fd < 0 then (Inl (RuntimeError (''Failed to clear WAL file: '' @ wal_path w2)), w2, s2)
           else (Inr (), w2\<lparr>write_pos := 0\<rparr>, s2))"

definition WAL_Clear :: "WAL \<Rightarrow> os \<Rightarrow> unit result \<times> WAL \<times> os" where
  "WAL_Clear w s = WAL_ClearWithoutLock w s"

definition WAL_GetFilepath :: "WAL \<Rightarrow> string" where
  "WAL_GetFilepath w = wal_path w"

definition WAL_GetFileSize :: "WAL \<Rightarrow> os \<Rightarrow> nat \<times> os" where
  "WAL_GetFileSize w s =
     (if \<not> is_open w \<or> wal_fd w < 0 then (0, s)
      else
        let (cur, s1) = os_lseek (wal_fd w) 0 SEEK_CUR s;
            (end_pos, s2) = os_lseek (wal_fd w) 0 SEEK_END s1;
            s3 = (if 0 \<le> cur then snd (os_lseek (wal_fd w) (nat cur) SEEK_SET s2) else s2)
        in (to_size end_pos, s3))"

definition WAL_IsEnabled :: "WAL \<Rightarrow> bool" where
  "WAL_IsEnabled w = enabled w"

definition WAL_GetPolicy :: "WAL \<Rightarrow> FsyncPolicy" where
  "WAL_GetPolicy w = policy (wal_config w)"

section \<open>Encoding and decoding of one record\<close>

text \<open>A record whose key and value lengths fit the two-byte length fields.\<close>

definition wf_record :: "WALRecord \<Rightarrow> bool" where
  "wf_record r \<longleftrightarrow> length (rec_key r) < 2 ^ 16 \<and> length (rec_value r) < 2 ^ 16"

lemma length_wal_payload [simp]: "length (wal_payload t kl k vl v) = 5 + length k + length v"
  by (simp add: wal_payload_def)

lemma length_WALRecord_Serialize: "length (WALRecord_Serialize r) = 9 + length (rec_key r) + length (rec_value r)"
  by (simp add: WALRecord_Serialize_def Let_def)

lemma WALRecord_Serialize_split:
  "WALRecord_Serialize r =
     le32 (CRC32 (wal_payload (rec_op r) (of_nat (length (rec_key r))) (rec_key r) (of_nat (length (rec_value r))) (rec_value r)))
     @ wal_payload (rec_op r) (of_nat (length (rec_key r))) (rec_key r) (of_nat (length (rec_value r))) (rec_value r)"
  by (simp add: WALRecord_Serialize_def AppendChecksum_def Let_def)

text \<open>What the decoder makes of any framed payload, its checksum right or wrong.\<close>

lemma WALRecord_Deserialize_frame:
  assumes "unat kl = length k" and "unat vl = length v"
    and data: "data = le32 c @ wal_payload t kl k vl v @ rest"
  shows "WALRecord_Deserialize data (length data) =
    (if c \<noteq> CRC32 (wal_payload t kl k vl v) then Inr (WALRecord_empty, 0)
     else Inr (\<lparr>rec_op = t, rec_key = k, rec_value = v\<rparr>, 9 + length k + length v))"
proof -
  let ?h = "le32 c @ [chr_of t]"
  have d1: "data = ?h @ le16 kl @ (k @ le16 vl @ v @ rest)"
    by (simp add: data wal_payload_def)
  have d2: "data = (?h @ le16 kl @ k) @ le16 vl @ (v @ rest)"
    by (simp add: data wal_payload_def)
  have len: "length data = 9 + length k + length v + length rest"
    by (simp add: data)
  have op: "rd_at data 4 = Inr (chr_of t)"
    by (simp add: rd_at_def d1 nth_append le32_def)
  have t: "of_char (chr_of t) = t"
    by (rule of_char_chr_of) (simp add: and_FF take_bit_word_eq_self)
  have kl: "rd_u16 data 5 = Inr kl"
    using rd_u16_le16 [of ?h kl] by (simp only: d1) simp
  have vl: "rd_u16 data (7 + length k) = Inr vl"
    using rd_u16_le16 [of "?h @ le16 kl @ k" vl] by (simp only: d2) simp
  have k: "take (length k) (drop 7 data) = k"
    by (rule take_drop_mid [of _ "?h @ le16 kl" _ "le16 vl @ v @ rest"]) (simp_all add: d1)
  have v: "take (length v) (drop (9 + length k) data) = v"
    by (rule take_drop_mid [of _ "?h @ le16 kl @ k @ le16 vl" _ rest]) (simp_all add: d2)
  have crc: "ReadChecksum data = Inr c"
    by (simp only: data ReadChecksum_le32)
  show ?thesis
    unfolding WALRecord_Deserialize_def
    using len by (simp add: crc op kl vl assms(1,2) k v t)
qed

lemma WALRecord_decode_encode:
  assumes "wf_record r" and "data = WALRecord_Serialize r @ rest"
  shows "WALRecord_Deserialize data (length data) = Inr (r, length (WALRecord_Serialize r))"
  using assms WALRecord_Deserialize_frame [OF unat_len16 unat_len16, of "rec_key r" "rec_value r" data]
  by (simp add: WALRecord_Serialize_split wf_record_def)

text \<open>Memory safety: the decoder reads nothing outside the \<open>len\<close> bytes it was given.\<close>

lemma WALRecord_Deserialize_safe:
  assumes "len \<le> length data"
  shows "\<exists>r n. WALRecord_Deserialize data len = Inr (r, n)"
proof (cases "len < 9")
  case True
  then show ?thesis by (simp add: WALRecord_Deserialize_def)
next
  case False
  with assms obtain c where c: "ReadChecksum data = Inr c"
    using ReadChecksum_Inr [of data] by auto
  define kl where "kl = rd16 (data ! 5) (data ! 6)"
  have kl: "rd_u16 data 5 = Inr kl" using assms False by (simp add: kl_def)
  show ?thesis
  proof (cases "len < 9 + unat kl")
    case True
    with False assms c kl show ?thesis by (simp add: WALRecord_Deserialize_def)
  next
    case klen: False
    define vl where "vl = rd16 (data ! (7 + unat kl)) (data ! (8 + unat kl))"
    have vl: "rd_u16 data (7 + unat kl) = Inr vl" using assms klen by (simp add: vl_def)
    with False klen assms c kl show ?thesis by (simp add: WALRecord_Deserialize_def Let_def)
  qed
qed

text \<open>A decoded record is the one whose encoding was read.\<close>

lemma WALRecord_decode_sound:
  assumes "WALRecord_Deserialize data len = Inr (r, n)" and "n \<noteq> 0" and "len \<le> length data"
  shows "wf_record r \<and> take n data = WALRecord_Serialize r"
proof -
  from assms(1,2) obtain c ob kl k vl v where
    len: "\<not> len < 9" and c: "ReadChecksum data = Inr c" and ob: "rd_at data 4 = Inr ob"
    and kl: "rd_u16 data 5 = Inr kl" and len1: "\<not> len < 9 + unat kl"
    and k: "rd_range data 7 (unat kl) = Inr k" and vl: "rd_u16 data (7 + unat kl) = Inr vl"
    and len2: "\<not> len < 9 + unat kl + unat vl"
    and v: "rd_range data (9 + unat kl) (unat vl) = Inr v"
    and crc: "c = CRC32 (wal_payload (of_char ob) kl k vl v)"
    and r: "r = \<lparr>rec_op = of_char ob, rec_key = k, rec_value = v\<rparr>" and n: "n = 9 + unat kl + unat vl"
    by (auto simp: WALRecord_Deserialize_def Let_def rbind_Inr_iff add.commute split: if_splits)
  let ?K = "unat kl" and ?V = "unat vl"
  have size: "9 + ?K + ?V \<le> length data" using assms(3) len2 by simp
  have lk: "length k = ?K" and lv: "length v = ?V"
    using k v size by (auto simp: rd_range_def split: if_splits)
  have e1: "take 4 data = le32 c"
    using ReadChecksum_Inr [of data] c size by auto
  have e2: "take 1 (drop 4 data) = [ob]"
    using ob size by (auto simp: rd_at_def take_Suc_conv_app_nth split: if_splits)
  have e3: "take 2 (drop 5 data) = le16 kl"
    using rd_u16_bytes [of 5 data] kl size by auto
  have e4: "take ?K (drop 7 data) = k"
    using k by (auto simp: rd_range_def split: if_splits)
  have e5: "take 2 (drop (7 + ?K) data) = le16 vl"
    using rd_u16_bytes [of "7 + ?K" data] vl size by auto
  have e6: "take ?V (drop (9 + ?K) data) = v"
    using v by (auto simp: rd_range_def split: if_splits)
  have "take n data = le32 c @ [ob] @ le16 kl @ k @ le16 vl @ v"
  proof -
    have n': "n = 4 + 1 + 2 + ?K + 2 + ?V" by (simp add: n)
    have "take n data = take 4 data @ take 1 (drop 4 data) @ take 2 (drop 5 data)
        @ take ?K (drop 7 data) @ take 2 (drop (7 + ?K) data) @ take ?V (drop (9 + ?K) data)"
      by (simp only: n' take_add append_assoc) (simp add: add.commute)
    then show ?thesis by (simp only: e1 e2 e3 e4 e5 e6)
  qed
  moreover have "?K < 2 ^ 16" "?V < 2 ^ 16" using unsigned_less [of kl] unsigned_less [of vl] by simp_all
  moreover have "(of_nat ?K :: 16 word) = kl" "(of_nat ?V :: 16 word) = vl" by simp_all
  ultimately show ?thesis
    by (simp add: wf_record_def r lk lv WALRecord_Serialize_split crc wal_payload_def chr_of_of_char)
qed

section \<open>The log as an instance of the record interface\<close>

interpretation wal_log: framed_log WALRecord_Serialize wf_record
  "\<lambda>data. WALRecord_Deserialize data (length data)" parse_records
proof (unfold_locales, goal_cases)
  case (1 r)
  then show ?case using length_WALRecord_Serialize [of r] by (metis length_0_conv add_is_0 zero_neq_numeral)
next
  case (2 r rest)
  then show ?case by (rule WALRecord_decode_encode [OF _ refl])
next
  case (3 p)
  then show ?case by (rule WALRecord_Deserialize_safe) simp
next
  case (4 p r n)
  then show ?case using WALRecord_decode_sound by simp
next
  case 5
  show ?case by (simp add: parse_records.simps)
next
  case (6 data d)
  then show ?case by (simp add: parse_records.simps)
next
  case (7 data r n)
  then show ?case by (subst parse_records.simps) simp
qed

lemma parse_records_safe: "\<exists>rs. parse_records content = Inr rs"
proof (induction content rule: parse_records.induct)
  case (1 content)
  obtain r n where d: "WALRecord_Deserialize content (length content) = Inr (r, n)"
    using WALRecord_Deserialize_safe [of "length content" content] by auto
  show ?case
  proof (cases "content = [] \<or> n = 0")
    case True
    with d show ?thesis by (auto simp: parse_records.simps [of content])
  next
    case False
    then obtain rs where "parse_records (drop n content) = Inr rs" using 1 [OF _ d] by auto
    with d False show ?thesis by (simp add: parse_records.simps [of content])
  qed
qed


section \<open>The log and its file\<close>

text \<open>The log is open and its descriptor stands at the end of the file, whose contents are \<open>c\<close>.\<close>

definition wal_ready :: "WAL \<Rightarrow> os \<Rightarrow> string \<Rightarrow> bool" where
  "wal_ready w s c \<longleftrightarrow> enabled w \<and> is_open w \<and> 0 \<le> wal_fd w
     \<and> files s (wal_path w) = Some c \<and> fds s (wal_fd w) = Some (wal_path w, length c)"

lemma wal_readyD:
  assumes "wal_ready w s c"
  shows "enabled w" "is_open w" "0 \<le> wal_fd w" "files s (wal_path w) = Some c"
    "fds s (wal_fd w) = Some (wal_path w, length c)" "content_of (wal_path w) s = c"
  using assms by (simp_all add: wal_ready_def)

text \<open>Appending a record without faults adds its encoding at the end of the file and changes no other
  file.\<close>

lemma WAL_Append_ready:
  assumes "wal_ready w s c" and "faults s = []" and "WAL_Append r w s = (res, w', s')"
  shows "res = Inr ()" and "wal_ready w' s' (c @ WALRecord_Serialize r)"
    and "files s' = (files s)(wal_path w \<mapsto> c @ WALRecord_Serialize r)"
    and "faults s' = []" and "next_fd s' = next_fd s" and "clock s' = clock s" and "ticks s' = ticks s"
    and "wal_path w' = wal_path w" and "wal_config w' = wal_config w"
    and "os_wf s \<Longrightarrow> os_wf s'"
    and "policy (wal_config w) = ALWAYS \<Longrightarrow> synced s' (wal_path w) = Some (c @ WALRecord_Serialize r)"
proof -
  let ?d = "WALRecord_Serialize r"
  let ?s1 = "s\<lparr>files := (files s)(wal_path w \<mapsto> c @ ?d), fds := (fds s)(wal_fd w \<mapsto> (wal_path w, length c + length ?d))\<rparr>"
  note rd = wal_readyD [OF assms(1)]
  have "os_write (wal_fd w) ?d s = (int (length ?d), ?s1)"
    using rd assms(2) by (simp add: os_write_calm)
  then have "WAL_WriteRecord r w s = (Inr (), w\<lparr>write_pos := write_pos w + int (length ?d)\<rparr>, ?s1)"
    by (simp add: WAL_WriteRecord_def Let_def)
  with assms(3) rd have run: "res = Inr ()" "w' = w\<lparr>write_pos := write_pos w + int (length ?d)\<rparr>"
    "s' = (if policy (wal_config w) = ALWAYS then ?s1\<lparr>synced := (synced s)(wal_path w \<mapsto> c @ ?d)\<rparr> else ?s1)"
    by (auto simp: WAL_Append_def WAL_Sync_def os_fsync_def split: if_splits)
  show "res = Inr ()" by (rule run)
  show "wal_ready w' s' (c @ ?d)" using rd by (simp add: run wal_ready_def)
  show "os_wf s'" if "os_wf s" using that rd by (auto simp: run os_wf_def)
  show "synced s' (wal_path w) = Some (c @ ?d)" if "policy (wal_config w) = ALWAYS"
    using that by (simp add: run)
  show "files s' = (files s)(wal_path w \<mapsto> c @ ?d)" "faults s' = []" "next_fd s' = next_fd s"
    "clock s' = clock s" "ticks s' = ticks s" "wal_path w' = wal_path w" "wal_config w' = wal_config w"
    using assms(2) by (simp_all add: run)
qed

text \<open>Reading the log leaves everything as it was, the write position at the end included.\<close>

lemma WAL_ReadAll_ready:
  assumes "wal_ready w s c" and "faults s = []"
  shows "WAL_ReadAll w s = (parse_records c, s)"
proof -
  note rd = wal_readyD [OF assms(1)]
  let ?f = "\<lambda>n. s\<lparr>fds := (fds s)(wal_fd w \<mapsto> (wal_path w, n))\<rparr>"
  have same: "?f (length c) = s" using rd(5) by (simp add: fun_upd_idem)
  have seek_end: "os_lseek (wal_fd w) 0 SEEK_END s = (int (length c), s)"
    using rd assms(2) same by (simp add: os_lseek_calm)
  have seek_set: "os_lseek (wal_fd w) 0 SEEK_SET s = (0, ?f 0)"
    using rd assms(2) by (simp add: os_lseek_calm)
  have "read_loop (wal_fd w) (length c) (?f 0) = (c, s)"
    using read_loop_calm [of "?f 0" "wal_fd w" "wal_path w"] rd assms(2) same
    by (simp add: content_of_def)
  with rd(2) seek_end seek_set show ?thesis
    by (auto simp: WAL_ReadAll_def parse_records.simps [of "[]"])
qed

lemma WAL_Clear_ready:
  assumes "wal_ready w s c" and "faults s = []" and "os_wf s"
    and "WAL_ClearWithoutLock w s = (res, w', s')"
  shows "res = Inr ()" and "wal_ready w' s' []" and "files s' = (files s)(wal_path w \<mapsto> [])" and "os_wf s'"
    and "faults s' = []" and "clock s' = clock s" and "ticks s' = ticks s"
    and "wal_path w' = wal_path w" and "wal_config w' = wal_config w"
proof -
  note rd = wal_readyD [OF assms(1)]
  have run: "res = Inr ()" "w' = w\<lparr>wal_fd := int (next_fd s), write_pos := 0\<rparr>"
    "s' = s\<lparr>files := (files s)(wal_path w \<mapsto> []),
            fds := ((fds s)(wal_fd w := None))(int (next_fd s) \<mapsto> (wal_path w, 0)),
            next_fd := Suc (next_fd s)\<rparr>"
    using rd assms(2,4)
    by (auto simp: WAL_ClearWithoutLock_def WAL_CloseFD_def os_open_trunc_creat_def os_close_def new_fd_def Let_def)
  show "wal_ready w' s' []" using rd by (simp add: run wal_ready_def)
  show "os_wf s'" using assms(3) by (fastforce simp: run os_wf_def)
  show "res = Inr ()" "files s' = (files s)(wal_path w \<mapsto> [])" "faults s' = []" "clock s' = clock s"
    "ticks s' = ticks s" "wal_path w' = wal_path w" "wal_config w' = wal_config w"
    using assms(2) by (simp_all add: run)
qed

lemma WAL_Init_closed:
  assumes "\<not> is_open w" and "0 < max_retries w" and "faults s = []" and "os_wf s" and "policy cfg \<noteq> EVERYSEC"
    and "WAL_Init path cfg w s = (w', s')"
  shows "wal_ready w' s' (content_of path s)" and "files s' = (files s)(path \<mapsto> content_of path s)"
    and "os_wf s'" and "faults s' = []" and "clock s' = clock s" and "ticks s' = ticks s"
    and "wal_path w' = path" and "wal_config w' = cfg"
proof -
  from assms(2) obtain n where n: "max_retries w = Suc n" by (cases "max_retries w") auto
  let ?c = "content_of path s" and ?fd = "int (next_fd s)"
  have open_: "os_open_rdwr_creat path s = (?fd, None,
      s\<lparr>files := (files s)(path \<mapsto> ?c), fds := (fds s)(?fd \<mapsto> (path, 0)), next_fd := Suc (next_fd s)\<rparr>)"
    using assms(3) by (auto simp: os_open_rdwr_creat_def new_fd_def content_of_def Let_def fun_upd_idem)
  have run: "w' = w\<lparr>wal_config := cfg, wal_path := path, wal_fd := ?fd, write_pos := int (length ?c),
        is_open := True, enabled := True\<rparr>"
    "s' = s\<lparr>files := (files s)(path \<mapsto> ?c), fds := (fds s)(?fd \<mapsto> (path, length ?c)), next_fd := Suc (next_fd s)\<rparr>"
    using assms n by (auto simp: WAL_Init_def WAL_TryOpen_def open_ os_lseek_calm Let_def)
  show "wal_ready w' s' ?c" by (simp add: run wal_ready_def)
  show "os_wf s'" using assms(4) by (fastforce simp: run os_wf_def)
  show "files s' = (files s)(path \<mapsto> ?c)" "faults s' = []" "clock s' = clock s" "ticks s' = ticks s"
    "wal_path w' = path" "wal_config w' = cfg"
    using assms(3) by (simp_all add: run)
qed

text \<open>A log that could not be opened is disabled: records are dropped without an error.\<close>

lemma WAL_disabled:
  assumes "\<not> enabled w"
  shows "WAL_Append r w s = (Inr (), w, s)" and "WAL_ClearWithoutLock w s = (Inr (), w, s)"
    and "WAL_Sync w s = s"
  using assms by (simp_all add: WAL_Append_def WAL_ClearWithoutLock_def WAL_Sync_def)

section \<open>Evaluation\<close>

text \<open>Rules under which the simplifier encodes and decodes literal records.\<close>

lemmas wal_eval = WALRecord_Serialize_def Let_def wal_payload_def AppendChecksum_def le32_def le16_def
  crc_eval chr_of_def of_char_char_of_nat parse_records.simps WALRecord_Deserialize_def
  rd_u16_def rd_at_def rd_range_def ReadChecksum_def rd32_def rd16_def

section \<open>A write that stops short\<close>

text \<open>Whatever the outcome, appending touches no file but the log.\<close>

lemma os_write_files: "os_write fd buf s = (n, s1) \<Longrightarrow> fds s fd = Some (path, off) \<Longrightarrow> p \<noteq> path \<Longrightarrow> files s1 p = files s p"
  by (auto simp: os_write_def Let_def dest: pop_fault_frame split: prod.splits fault.splits)

lemma WAL_Append_files:
  assumes "WAL_Append r w s = (res, w', s')" and "fds s (wal_fd w) = Some (wal_path w, off)" and "p \<noteq> wal_path w"
  shows "files s' p = files s p"
proof -
  obtain n s1 where n: "os_write (wal_fd w) (WALRecord_Serialize r) s = (n, s1)"
    by (cases "os_write (wal_fd w) (WALRecord_Serialize r) s")
  have "files s' p = files s1 p \<or> files s' p = files s p"
    using assms(1) n
    by (auto simp: WAL_Append_def WAL_WriteRecord_def WAL_Sync_def os_fsync_def Let_def split: if_splits option.splits)
  with os_write_files [OF n assms(2,3)] show ?thesis by auto
qed

lemma WAL_Append_short:
  assumes "wal_ready w s c" and "faults s = Short n # fs" and "n < length (WALRecord_Serialize r)"
    and "WAL_Append r w s = (res, w', s')"
  shows "res = Inl (RuntimeError ''Failed to write to WAL file'')"
    and "wal_ready w' s' (c @ take n (WALRecord_Serialize r))" and "faults s' = fs"
    and "wal_path w' = wal_path w"
proof -
  note rd = wal_readyD [OF assms(1)]
  let ?d = "take n (WALRecord_Serialize r)"
  let ?s1 = "s\<lparr>faults := fs, files := (files s)(wal_path w \<mapsto> c @ ?d),
     fds := (fds s)(wal_fd w \<mapsto> (wal_path w, length c + length ?d))\<rparr>"
  have "os_write (wal_fd w) (WALRecord_Serialize r) s = (int (length ?d), ?s1)"
    using rd assms(2) by (simp add: os_write_def pop_fault_def content_of_def)
  then have run: "res = Inl (RuntimeError ''Failed to write to WAL file'')" "w' = w" "s' = ?s1"
    using rd assms(3,4) by (auto simp: WAL_Append_def WAL_WriteRecord_def Let_def split: if_splits)
  show "res = Inl (RuntimeError ''Failed to write to WAL file'')" by (rule run)
  show "wal_ready w' s' (c @ ?d)" using rd by (simp add: run wal_ready_def)
  show "faults s' = fs" "wal_path w' = wal_path w" by (simp_all add: run)
qed

section \<open>An open log, for the examples\<close>

definition log_at :: "FsyncPolicy \<Rightarrow> string \<Rightarrow> fault list \<Rightarrow> WAL \<times> os" where
  "log_at p c fs =
     (WAL_ctor\<lparr>wal_config := \<lparr>policy = p, sync_interval_ms = 1000\<rparr>, wal_path := ''wal.log'', wal_fd := 3,
        write_pos := int (length c), is_open := True, enabled := True\<rparr>,
      os_start\<lparr>files := [''wal.log'' \<mapsto> c], fds := [3 \<mapsto> (''wal.log'', length c)], next_fd := 4, faults := fs\<rparr>)"

lemma log_at_ready [simp]:
  "wal_ready (fst (log_at p c fs)) (snd (log_at p c fs)) c" "faults (snd (log_at p c fs)) = fs"
  "wal_path (fst (log_at p c fs)) = ''wal.log''" "policy (wal_config (fst (log_at p c fs))) = p"
  by (simp_all add: log_at_def wal_ready_def)

abbreviation ex_set :: WALRecord where
  "ex_set \<equiv> \<lparr>rec_op = OpType_SET, rec_key = ''name'', rec_value = ''Alice''\<rparr>"

abbreviation ex_del :: WALRecord where
  "ex_del \<equiv> \<lparr>rec_op = OpType_DEL, rec_key = ''age'', rec_value = []\<rparr>"

lemma ex_records_wf [simp]: "wf_record ex_set" "wf_record ex_del"
  by (simp_all add: wf_record_def)

section \<open>Properties\<close>

text \<open>C18: a record whose key and value are shorter than \<open>2 ^ 16\<close> bytes is read back from its encoding,
  whatever follows it, and exactly its bytes are consumed. Conversely the decoder, whatever bytes it
  is given, reads only within the given length, and when it accepts, what it consumed is the
  encoding of the record it returns.\<close>

theorem WALRecord_roundtrip:
  "(wf_record r \<longrightarrow> WALRecord_Deserialize (WALRecord_Serialize r @ rest) (length (WALRecord_Serialize r @ rest))
       = Inr (r, length (WALRecord_Serialize r)))
   \<and> (len \<le> length data \<longrightarrow>
       (\<exists>d n. WALRecord_Deserialize data len = Inr (d, n) \<and> n \<le> len
          \<and> (n = 0 \<or> wf_record d \<and> take n data = WALRecord_Serialize d)))"
proof (intro conjI impI)
  show "WALRecord_Deserialize (WALRecord_Serialize r @ rest) (length (WALRecord_Serialize r @ rest))
      = Inr (r, length (WALRecord_Serialize r))" if "wf_record r"
    using that by (rule WALRecord_decode_encode) (rule refl)
next
  assume len: "len \<le> length data"
  then obtain d n where dn: "WALRecord_Deserialize data len = Inr (d, n)"
    using WALRecord_Deserialize_safe by blast
  with len show "\<exists>d n. WALRecord_Deserialize data len = Inr (d, n) \<and> n \<le> len
          \<and> (n = 0 \<or> wf_record d \<and> take n data = WALRecord_Serialize d)"
    using WALRecord_Deserialize_consumed WALRecord_decode_sound by blast
qed

theorem WALRecord_roundtrip_witness:
  "WALRecord_Deserialize
       (WALRecord_Serialize ex_set @ ''tail'')
       (length (WALRecord_Serialize ex_set @ ''tail''))
     = Inr (ex_set, 18)
   \<and> (\<exists>d n. WALRecord_Deserialize ''garbage....'' 10 = Inr (d, n) \<and> n \<le> 10)"
  using WALRecord_roundtrip [of ex_set "''tail''" 10 "''garbage....''"]
  by (auto simp: wf_record_def length_WALRecord_Serialize)

text \<open>C11: a log to which the last record was only partly written is read back as the records before
  it: the torn record is ignored.\<close>

theorem ReadAll_ignores_torn_record:
  assumes "wal_ready w s (concat (map WALRecord_Serialize rs) @ torn)" and "faults s = []"
    and "\<forall>r \<in> set rs. wf_record r" and "wf_record t" and "strict_prefix torn (WALRecord_Serialize t)"
  shows "WAL_ReadAll w s = (Inr rs, s)"
  using WAL_ReadAll_ready [OF assms(1,2)] wal_log.parse_torn_log [OF assms(3-5)] by simp

theorem ReadAll_ignores_torn_record_witness:
  "case log_at NO (concat (map WALRecord_Serialize [ex_set]) @ take 7 (WALRecord_Serialize ex_del)) [] of (w, s) \<Rightarrow>
     WAL_ReadAll w s = (Inr [ex_set], s)"
proof -
  have "strict_prefix (take 7 (WALRecord_Serialize ex_del)) (WALRecord_Serialize ex_del)"
    using length_WALRecord_Serialize [of ex_del] by (auto simp: strict_prefix_def take_is_prefix dest: arg_cong [of _ _ length])
  then show ?thesis
    using ReadAll_ignores_torn_record [of _ _ "[ex_set]" "take 7 (WALRecord_Serialize ex_del)" ex_del]
      log_at_ready by (auto simp: case_prod_beta)
qed

text \<open>Appending a record without I/O faults succeeds, and reading the log afterwards returns the
  records that were there followed by the new one; no file but the log changes, and under the policy
  \<open>ALWAYS\<close> the contents have been synchronised.\<close>

theorem Append_then_ReadAll:
  assumes "wal_ready w s (concat (map WALRecord_Serialize rs))" and "faults s = []"
    and "\<forall>r \<in> set (rs @ [r]). wf_record r"
    and "WAL_Append r w s = (res, w', s')"
  shows "res = Inr () \<and> WAL_ReadAll w' s' = (Inr (rs @ [r]), s')
     \<and> (\<forall>p. p \<noteq> wal_path w \<longrightarrow> files s' p = files s p)
     \<and> (policy (wal_config w) = ALWAYS \<longrightarrow> synced s' (wal_path w) = files s' (wal_path w))"
proof -
  note a = WAL_Append_ready [OF assms(1,2,4)]
  have "WAL_ReadAll w' s' = (parse_records (concat (map WALRecord_Serialize rs) @ WALRecord_Serialize r), s')"
    using a(2,4) by (rule WAL_ReadAll_ready)
  moreover have "parse_records (concat (map WALRecord_Serialize rs) @ WALRecord_Serialize r) = Inr (rs @ [r])"
    using assms(3) by (intro wal_log.parse_snoc) simp_all
  ultimately show ?thesis using a(1,3,11) by auto
qed

theorem Append_then_ReadAll_witness:
  "case log_at ALWAYS (concat (map WALRecord_Serialize [ex_set])) [] of (w, s) \<Rightarrow>
     case WAL_Append ex_del w s of (res, w', s') \<Rightarrow>
       res = Inr () \<and> WAL_ReadAll w' s' = (Inr [ex_set, ex_del], s')"
  using Append_then_ReadAll [of "fst (log_at ALWAYS (concat (map WALRecord_Serialize [ex_set])) [])"
      "snd (log_at ALWAYS (concat (map WALRecord_Serialize [ex_set])) [])" "[ex_set]" ex_del]
  by (simp only: log_at_ready) (auto simp: case_prod_beta prod_eq_iff)

text \<open>When the write stops short, \<open>Append\<close> throws; the log then ends in a torn record, and reading
  it returns the records before.\<close>

theorem Append_short_write:
  assumes "wal_ready w s (concat (map WALRecord_Serialize rs))" and "faults s = [Short n]"
    and "\<forall>r \<in> set (rs @ [r]). wf_record r" and "n < length (WALRecord_Serialize r)"
    and "WAL_Append r w s = (res, w', s')"
  shows "res = Inl (RuntimeError ''Failed to write to WAL file'') \<and> WAL_ReadAll w' s' = (Inr rs, s')"
proof -
  note a = WAL_Append_short [OF assms(1,2,4,5)]
  have "strict_prefix (take n (WALRecord_Serialize r)) (WALRecord_Serialize r)"
    using assms(4) by (metis strict_prefix_def take_is_prefix length_take min.absorb4 nat_less_le)
  then have "parse_records (concat (map WALRecord_Serialize rs) @ take n (WALRecord_Serialize r)) = Inr rs"
    using assms(3) by (intro wal_log.parse_torn_log [of rs r]) simp_all
  with WAL_ReadAll_ready [OF a(2,3)] a(1) show ?thesis by simp
qed

theorem Append_short_write_witness:
  "case log_at NO (concat (map WALRecord_Serialize [ex_set])) [Short 5] of (w, s) \<Rightarrow>
     case WAL_Append ex_del w s of (res, w', s') \<Rightarrow>
       res = Inl (RuntimeError ''Failed to write to WAL file'') \<and> WAL_ReadAll w' s' = (Inr [ex_set], s')"
  using Append_short_write [of "fst (log_at NO (concat (map WALRecord_Serialize [ex_set])) [Short 5])"
      "snd (log_at NO (concat (map WALRecord_Serialize [ex_set])) [Short 5])" "[ex_set]" 5 ex_del]
  by (simp only: log_at_ready) (auto simp: case_prod_beta prod_eq_iff length_WALRecord_Serialize)





text \<open>After a write that stopped short, later records are written behind the torn bytes and are
  lost: here a record appended in full after a torn one, and acknowledged, is not read back.\<close>

theorem Append_after_torn_write_lost:
  "case log_at NO [] [Short 2] of (w, s) \<Rightarrow>
     case WAL_Append ex_set w s of (res1, w1, s1) \<Rightarrow>
       case WAL_Append \<lparr>rec_op = OpType_SET, rec_key = ''k'', rec_value = ''v''\<rparr> w1 s1 of (res2, w2, s2) \<Rightarrow>
         res2 = Inr () \<and> WAL_ReadAll w2 s2 = (Inr [], s2)"
proof -
  let ?r = "\<lparr>rec_op = OpType_SET, rec_key = ''k'', rec_value = ''v''\<rparr>"
  obtain w s where ws: "log_at NO [] [Short 2] = (w, s)" by (cases "log_at NO [] [Short 2]")
  obtain res1 w1 s1 where a1: "WAL_Append ex_set w s = (res1, w1, s1)" by (cases "WAL_Append ex_set w s")
  obtain res2 w2 s2 where a2: "WAL_Append ?r w1 s1 = (res2, w2, s2)" by (cases "WAL_Append ?r w1 s1")
  have r: "wal_ready w s []" "faults s = [Short 2]"
    using log_at_ready(1,2) [of NO "[]" "[Short 2]"] unfolding ws by simp_all
  have r1: "wal_ready w1 s1 ([] @ take 2 (WALRecord_Serialize ex_set))" "faults s1 = []"
    using WAL_Append_short [OF r _ a1] by (simp_all add: length_WALRecord_Serialize)
  note r2 = WAL_Append_ready [OF r1 a2]
  have "parse_records (([] @ take 2 (WALRecord_Serialize ex_set)) @ WALRecord_Serialize ?r) = Inr []"
    by (simp add: wal_eval OpType_SET_def)
  with r2(1) WAL_ReadAll_ready [OF r2(2,4)] show ?thesis by (simp add: ws a1 a2)
qed

end
