(* ===== verification/Snapshot.thy ===== *)
theory Snapshot
  imports Crc32 Posix Codec
begin

text \<open>
  The snapshot file of \<open>include/common/snapshot.h\<close> and \<open>src/common/snapshot.cpp\<close>: the entry format,
  the file format with its header and footer checksum, and the operations \<open>Create\<close>, \<open>Load\<close>, \<open>IsValid\<close>
  and \<open>Remove\<close> on the file system. The class has no state of its own. Beside the function
  \<open>WriteSnapshot\<close>, its system calls are a step relation, so that the file systems a crash
  may leave behind can be spoken about. Log messages are left out, and memory is not exhausted
  (\<open>reserve\<close> does not fail).
\<close>

section \<open>Entries\<close>

definition MAGIC :: string where "MAGIC = ''KVSNP''"
definition VERSION :: "32 word" where "VERSION = 1"

record SnapshotEntry =
  se_key :: string
  se_value :: string

definition SnapshotEntry_empty :: SnapshotEntry where
  "SnapshotEntry_empty = \<lparr>se_key = [], se_value = []\<rparr>"

definition SnapshotEntry_Serialize :: "SnapshotEntry \<Rightarrow> string" where
  "SnapshotEntry_Serialize e =
     (let data = le16 (of_nat (length (se_key e))) @ se_key e @ le16 (of_nat (length (se_value e))) @ se_value e
      in AppendChecksum data data)"

text \<open>\<open>Deserialize(data, len, consumed)\<close> returns the entry and \<open>consumed\<close>; \<open>data\<close> is the memory the
  pointer refers to.\<close>

definition SnapshotEntry_Deserialize :: "string \<Rightarrow> nat \<Rightarrow> (SnapshotEntry \<times> nat) result" where
  "SnapshotEntry_Deserialize data len =
     (if len < 4 then Inr (SnapshotEntry_empty, 0)
      else
        rbind (rd_u16 data 0) (\<lambda>key_len.
        if len < 2 + unat key_len + 2 + 4 then Inr (SnapshotEntry_empty, 0)
        else
          rbind (rd_range data 2 (unat key_len)) (\<lambda>k.
          rbind (rd_u16 data (2 + unat key_len)) (\<lambda>val_len.
          let val_offset = 2 + unat key_len + 2; total_len = val_offset + unat val_len + 4
          in if len < total_len then Inr (SnapshotEntry_empty, 0)
             else
               rbind (rd_range data val_offset (unat val_len)) (\<lambda>v.
               rbind (VerifyChecksum data (val_offset + unat val_len)) (\<lambda>ok.
               if \<not> ok then Inr (SnapshotEntry_empty, 0)
               else Inr (\<lparr>se_key = k, se_value = v\<rparr>, total_len)))))))"

section \<open>The file format\<close>

definition GetSnapshotPath :: "string \<Rightarrow> string" where
  "GetSnapshotPath data_dir = data_dir @ ''/snapshot.dat''"

text \<open>What \<open>WriteSnapshot\<close> writes: magic, version, number of entries, entries, and the checksum of it
  all.\<close>

definition snapshot_content :: "(string \<times> string) list \<Rightarrow> string" where
  "snapshot_content entries =
     (let content = MAGIC @ le32 VERSION @ le32 (of_nat (length entries))
            @ concat (map (\<lambda>(k, v). SnapshotEntry_Serialize \<lparr>se_key = k, se_value = v\<rparr>) entries)
      in AppendChecksum content content)"

text \<open>The loop over the entries. \<open>content.data()\<close> refers to the \<open>size\<close> bytes of the string and the zero
  byte that ends it; the length passed on is computed in \<open>size_t\<close>. The result is the return value
  and the vector.\<close>

fun read_entries :: "nat \<Rightarrow> string \<Rightarrow> nat \<Rightarrow> (string \<times> string) list \<Rightarrow> (bool \<times> (string \<times> string) list) result" where
  "read_entries 0 content offset entries = Inr (True, entries)"
| "read_entries (Suc n) content offset entries =
     rbind (SnapshotEntry_Deserialize (drop offset (content @ [CHR 0x00])) (to_size (int (length content) - int offset - 4)))
       (\<lambda>(e, consumed).
          if consumed = 0 then Inr (False, entries)
          else read_entries n content (offset + consumed) (entries @ [(se_key e, se_value e)]))"

text \<open>What \<open>ReadSnapshot\<close> makes of the file's bytes; \<open>entries\<close> is the caller's vector.\<close>

definition parse_snapshot :: "string \<Rightarrow> (string \<times> string) list \<Rightarrow> (bool \<times> (string \<times> string) list) result" where
  "parse_snapshot content entries =
     rbind (VerifyChecksum content (length content - 4)) (\<lambda>ok.
     if \<not> ok then Inr (False, entries)
     else
       rbind (rd_range content 0 5) (\<lambda>magic.
       if magic \<noteq> MAGIC then Inr (False, entries)
       else
         rbind (rd_u32 content 5) (\<lambda>version.
         if version \<noteq> VERSION then Inr (False, entries)
         else
           rbind (rd_u32 content 9) (\<lambda>entry_count.
           read_entries (unat entry_count) content 13 []))))"

section \<open>Operations\<close>

definition tmp_of :: "string \<Rightarrow> string" where
  "tmp_of filepath = filepath @ ''.tmp''"

definition WriteSnapshot :: "string \<Rightarrow> (string \<times> string) list \<Rightarrow> os \<Rightarrow> bool \<times> os" where
  "WriteSnapshot filepath entries s =
     (let tmp_path = tmp_of filepath;
          (fd, _, s1) = os_open_trunc_creat tmp_path s
      in if fd < 0 then (False, s1)
         else
           let (ok, s2) = write_loop fd (snapshot_content entries) s1
           in if \<not> ok then (False, os_unlink tmp_path (os_close fd s2))
              else
                let s3 = os_unlink filepath (os_close fd s2);
                    (r, s4) = os_rename tmp_path filepath s3
                in (r = 0, s4))"

definition ReadSnapshot ::
  "string \<Rightarrow> (string \<times> string) list \<Rightarrow> os \<Rightarrow> (bool \<times> (string \<times> string) list) result \<times> os" where
  "ReadSnapshot filepath entries s =
     (let (fd, _, s1) = os_open_rdonly filepath s
      in if fd < 0 then (Inr (False, entries), s1)
         else
           let (file_size, s2) = os_lseek fd 0 SEEK_END s1;
               (_, s3) = os_lseek fd 0 SEEK_SET s2
           in if file_size \<le> 13 then (Inr (False, entries), os_close fd s3)
              else
                let (content, s4) = read_loop fd (nat file_size) s3; s5 = os_close fd s4
                in if int (length content) \<noteq> file_size then (Inr (False, entries), s5)
                   else (parse_snapshot content entries, s5))"

definition Create :: "string \<Rightarrow> (string \<times> string) list \<Rightarrow> os \<Rightarrow> bool \<times> os" where
  "Create data_dir entries s = WriteSnapshot (GetSnapshotPath data_dir) entries s"

definition Load ::
  "string \<Rightarrow> (string \<times> string) list \<Rightarrow> os \<Rightarrow> (bool \<times> (string \<times> string) list) result \<times> os" where
  "Load data_dir entries s = ReadSnapshot (GetSnapshotPath data_dir) entries s"

definition IsValid :: "string \<Rightarrow> os \<Rightarrow> bool result \<times> os" where
  "IsValid data_dir s =
     (let (r, s1) = Load data_dir [] s in (rbind r (\<lambda>(ok, _). Inr ok), s1))"

definition Remove :: "string \<Rightarrow> os \<Rightarrow> bool \<times> os" where
  "Remove data_dir s = (True, os_unlink (GetSnapshotPath data_dir) s)"

section \<open>Encoding and decoding of one entry\<close>

definition wf_entry :: "SnapshotEntry \<Rightarrow> bool" where
  "wf_entry e \<longleftrightarrow> length (se_key e) < 2 ^ 16 \<and> length (se_value e) < 2 ^ 16"

abbreviation entry_payload :: "16 word \<Rightarrow> string \<Rightarrow> 16 word \<Rightarrow> string \<Rightarrow> string" where
  "entry_payload kl k vl v \<equiv> le16 kl @ k @ le16 vl @ v"

lemma length_SnapshotEntry_Serialize:
  "length (SnapshotEntry_Serialize e) = 8 + length (se_key e) + length (se_value e)"
  by (simp add: SnapshotEntry_Serialize_def Let_def)

lemma SnapshotEntry_Deserialize_frame:
  assumes "unat kl = length k" and "unat vl = length v"
    and data: "data = entry_payload kl k vl v @ le32 c @ rest" and len: "8 + length k + length v \<le> len"
  shows "SnapshotEntry_Deserialize data len =
    (if c \<noteq> CRC32 (entry_payload kl k vl v) then Inr (SnapshotEntry_empty, 0)
     else Inr (\<lparr>se_key = k, se_value = v\<rparr>, 8 + length k + length v))"
proof -
  have size: "8 + length k + length v \<le> length data" by (simp add: data)
  have kl: "rd_u16 data 0 = Inr kl"
    using rd_u16_le16 [of "[]" kl] by (simp only: data) simp
  have vl: "rd_u16 data (2 + length k) = Inr vl"
    using rd_u16_le16 [of "le16 kl @ k" vl "v @ le32 c @ rest"] by (simp only: data) simp
  have k: "take (length k) (drop 2 data) = k"
    by (rule take_drop_mid [of _ "le16 kl" _ "le16 vl @ v @ le32 c @ rest"]) (simp_all add: data)
  have v: "take (length v) (drop (4 + length k) data) = v"
    by (rule take_drop_mid [of _ "le16 kl @ k @ le16 vl" _ "le32 c @ rest"]) (simp_all add: data)
  have crc: "VerifyChecksum data (4 + length k + length v) = Inr (c = CRC32 (entry_payload kl k vl v))"
  proof -
    have n: "4 + length k + length v = length (entry_payload kl k vl v)" by simp
    show ?thesis unfolding n data by (rule VerifyChecksum_stored)
  qed
  show ?thesis
    unfolding SnapshotEntry_Deserialize_def using len size kl vl k v crc
    by (simp add: assms(1,2) Let_def eval_nat_numeral del: rd_u16_Inr)
qed

lemma SnapshotEntry_decode_encode:
  assumes "wf_entry e" and "data = SnapshotEntry_Serialize e @ rest" and "length (SnapshotEntry_Serialize e) \<le> len"
  shows "SnapshotEntry_Deserialize data len = Inr (e, length (SnapshotEntry_Serialize e))"
  using assms SnapshotEntry_Deserialize_frame [OF unat_len16 unat_len16, of "se_key e" "se_value e" data _ rest len]
  by (simp add: SnapshotEntry_Serialize_def AppendChecksum_def wf_entry_def Let_def)

lemma SnapshotEntry_Deserialize_safe:
  assumes "len \<le> length data"
  shows "\<exists>e n. SnapshotEntry_Deserialize data len = Inr (e, n)"
proof (cases "len < 4")
  case True
  then show ?thesis by (simp add: SnapshotEntry_Deserialize_def)
next
  case False
  define kl where "kl = rd16 (data ! 0) (data ! 1)"
  have kl: "rd_u16 data 0 = Inr kl" using assms False by (simp add: kl_def)
  show ?thesis
  proof (cases "len < 8 + unat kl")
    case True
    with False kl show ?thesis by (simp add: SnapshotEntry_Deserialize_def)
  next
    case klen: False
    define vl where "vl = rd16 (data ! (2 + unat kl)) (data ! (2 + unat kl + 1))"
    have vl: "rd_u16 data (2 + unat kl) = Inr vl" using assms klen by (simp add: vl_def)
    have "\<exists>b. VerifyChecksum data (4 + unat kl + unat vl) = Inr b" if "8 + unat kl + unat vl \<le> len"
      using assms that by (intro VerifyChecksum_Inr) simp
    with False klen assms kl vl show ?thesis
      by (auto simp: SnapshotEntry_Deserialize_def Let_def eval_nat_numeral simp del: rd_u16_Inr)
  qed
qed

lemma SnapshotEntry_decode_sound:
  assumes "SnapshotEntry_Deserialize data len = Inr (e, n)" and "n \<noteq> 0" and "len \<le> length data"
  shows "wf_entry e \<and> n \<le> len \<and> take n data = SnapshotEntry_Serialize e"
proof -
  from assms(1,2) obtain kl k vl v where
    kl: "rd_u16 data 0 = Inr kl" and k: "rd_range data 2 (unat kl) = Inr k"
    and vl: "rd_u16 data (2 + unat kl) = Inr vl" and len: "\<not> len < 8 + unat kl + unat vl"
    and v: "rd_range data (4 + unat kl) (unat vl) = Inr v"
    and crc: "VerifyChecksum data (4 + unat kl + unat vl) = Inr True"
    and e: "e = \<lparr>se_key = k, se_value = v\<rparr>" and n: "n = 8 + unat kl + unat vl"
    by (auto simp: SnapshotEntry_Deserialize_def Let_def rbind_Inr_iff eval_nat_numeral split: if_splits)
  let ?K = "unat kl" and ?V = "unat vl"
  have size: "8 + ?K + ?V \<le> length data" using assms(3) len by simp
  have lk: "length k = ?K" and lv: "length v = ?V"
    using k v size by (auto simp: rd_range_def split: if_splits)
  have e1: "take 2 (drop 0 data) = le16 kl"
    using rd_u16_bytes [of 0 data] kl size by auto
  have e2: "take ?K (drop 2 data) = k"
    using k by (auto simp: rd_range_def split: if_splits)
  have e3: "take 2 (drop (2 + ?K) data) = le16 vl"
    using rd_u16_bytes [of "2 + ?K" data] vl size by auto
  have e4: "take ?V (drop (4 + ?K) data) = v"
    using v by (auto simp: rd_range_def split: if_splits)
  have pay: "take (4 + ?K + ?V) data = entry_payload kl k vl v"
  proof -
    have "4 + ?K + ?V = 2 + ?K + 2 + ?V" by simp
    then have "take (4 + ?K + ?V) data = take 2 (drop 0 data) @ take ?K (drop 2 data)
        @ take 2 (drop (2 + ?K) data) @ take ?V (drop (4 + ?K) data)"
      by (simp only: take_add append_assoc) (simp add: eval_nat_numeral)
    then show ?thesis by (simp only: e1 e2 e3 e4)
  qed
  have "4 \<le> length (drop (4 + ?K + ?V) data)" using size by simp
  from ReadChecksum_Inr [OF this] obtain w
    where w: "ReadChecksum (drop (4 + ?K + ?V) data) = Inr w" "take 4 (drop (4 + ?K + ?V) data) = le32 w" by blast
  with crc pay have "w = CRC32 (entry_payload kl k vl v)"
    by (simp add: VerifyChecksum_def)
  moreover have "take n data = take (4 + ?K + ?V) data @ take 4 (drop (4 + ?K + ?V) data)"
  proof -
    have "n = (4 + ?K + ?V) + 4" by (simp add: n)
    then show ?thesis by (simp only: take_add)
  qed
  moreover have "?K < 2 ^ 16" "?V < 2 ^ 16" using unsigned_less [of kl] unsigned_less [of vl] by simp_all
  moreover have "(of_nat ?K :: 16 word) = kl" "(of_nat ?V :: 16 word) = vl" by simp_all
  ultimately show ?thesis using len
    by (simp add: wf_entry_def e lk lv w pay n SnapshotEntry_Serialize_def AppendChecksum_def Let_def)
qed

interpretation snapshot_entry: record_codec SnapshotEntry_Serialize wf_entry
  "\<lambda>data. SnapshotEntry_Deserialize data (length data)"
proof (unfold_locales, goal_cases)
  case (1 r)
  then show ?case using length_SnapshotEntry_Serialize [of r] by (metis length_0_conv add_is_0 zero_neq_numeral)
next
  case (2 r rest)
  then show ?case by (rule SnapshotEntry_decode_encode [OF _ refl]) simp
next
  case (3 p)
  then show ?case by (rule SnapshotEntry_Deserialize_safe) simp
next
  case (4 p r n)
  then show ?case using SnapshotEntry_decode_sound by blast
qed

section \<open>Encoding and decoding of the file\<close>

abbreviation entries_bytes :: "(string \<times> string) list \<Rightarrow> string" where
  "entries_bytes entries \<equiv>
     concat (map (\<lambda>(k, v). SnapshotEntry_Serialize \<lparr>se_key = k, se_value = v\<rparr>) entries)"

definition wf_entries :: "(string \<times> string) list \<Rightarrow> bool" where
  "wf_entries entries \<longleftrightarrow> (\<forall>(k, v) \<in> set entries. length k < 2 ^ 16 \<and> length v < 2 ^ 16)
     \<and> length entries < 2 ^ 32"

text \<open>The loop reads back the entries it has not read yet.\<close>

lemma read_entries_bytes:
  assumes "\<forall>(k, v) \<in> set es. length k < 2 ^ 16 \<and> length v < 2 ^ 16"
    and "content = pre @ entries_bytes es @ foot" and "length foot = 4" and "length content < 2 ^ 64"
  shows "read_entries (length es) content (length pre) acc = Inr (True, acc @ es)"
  using assms
proof (induction es arbitrary: pre acc)
  case Nil
  then show ?case by simp
next
  case (Cons e es)
  obtain k v where e: "e = (k, v)" by force
  let ?e = "\<lparr>se_key = k, se_value = v\<rparr>"
  let ?b = "SnapshotEntry_Serialize ?e"
  have len: "to_size (int (length content) - int (length pre) - 4) = length ?b + length (entries_bytes es)"
    using Cons.prems by (subst to_size_nonneg) (simp_all add: e)
  have "SnapshotEntry_Deserialize (drop (length pre) (content @ [CHR 0x00]))
      (length ?b + length (entries_bytes es)) = Inr (?e, length ?b)"
    using Cons.prems by (intro SnapshotEntry_decode_encode) (simp_all add: e wf_entry_def)
  moreover have "?b \<noteq> []" by (rule snapshot_entry.enc_nonempty)
  moreover have "read_entries (length es) content (length (pre @ ?b)) (acc @ [(k, v)]) = Inr (True, (acc @ [(k, v)]) @ es)"
    using Cons.prems by (intro Cons.IH) (simp_all add: e)
  ultimately show ?case by (simp add: len e)
qed

lemma snapshot_content_split:
  "snapshot_content entries =
     (MAGIC @ le32 VERSION @ le32 (of_nat (length entries))) @ entries_bytes entries
     @ le32 (CRC32 ((MAGIC @ le32 VERSION @ le32 (of_nat (length entries))) @ entries_bytes entries))"
  by (simp add: snapshot_content_def AppendChecksum_def Let_def)

lemma length_MAGIC [simp]: "length MAGIC = 5"
  by (simp add: MAGIC_def)

lemma length_snapshot_content: "length (snapshot_content entries) = 17 + length (entries_bytes entries)"
  by (simp add: snapshot_content_split)

lemma length_entries_bytes:
  "\<forall>(k, v) \<in> set entries. length k < 2 ^ 16 \<and> length v < 2 ^ 16 \<Longrightarrow> length (entries_bytes entries) \<le> 2 ^ 18 * length entries"
  by (induction entries) (auto simp: length_SnapshotEntry_Serialize)

text \<open>Reading any header and footer around bytes \<open>body\<close>.\<close>

lemma parse_snapshot_frame:
  assumes "content = (MAGIC @ le32 ver @ le32 cnt) @ body @ le32 crc"
  shows "parse_snapshot content entries =
     (if crc \<noteq> CRC32 ((MAGIC @ le32 ver @ le32 cnt) @ body) \<or> ver \<noteq> VERSION then Inr (False, entries)
      else read_entries (unat cnt) content 13 [])"
proof -
  let ?d = "(MAGIC @ le32 ver @ le32 cnt) @ body"
  have "VerifyChecksum content (length content - 4) = Inr (crc = CRC32 ?d)"
    using VerifyChecksum_stored [of ?d crc "[]"] by (simp add: assms)
  moreover have "rd_range content 0 5 = Inr MAGIC"
    by (simp add: assms)
  moreover have "rd_u32 content 5 = Inr ver"
    using rd_u32_le32 [of MAGIC ver "le32 cnt @ body @ le32 crc"] by (simp add: assms)
  moreover have "rd_u32 content 9 = Inr cnt"
    using rd_u32_le32 [of "MAGIC @ le32 ver" cnt "body @ le32 crc"] by (simp add: assms)
  ultimately show ?thesis by (simp add: parse_snapshot_def)
qed

lemma parse_snapshot_content:
  assumes "wf_entries entries"
  shows "parse_snapshot (snapshot_content entries) es = Inr (True, entries)"
proof -
  have n: "length entries < 2 ^ 32" and size: "length (snapshot_content entries) < 2 ^ 64"
    using assms length_entries_bytes [of entries] by (simp_all add: wf_entries_def length_snapshot_content)
  let ?h = "MAGIC @ le32 VERSION @ le32 (of_nat (length entries))"
  have "read_entries (length entries) (snapshot_content entries) (length ?h) [] = Inr (True, [] @ entries)"
    using assms size by (intro read_entries_bytes [OF _ snapshot_content_split]) (simp_all add: wf_entries_def)
  then show ?thesis
    using n by (simp add: parse_snapshot_frame [OF snapshot_content_split] unat_len32)
qed

text \<open>A burst of up to four changed bytes before the footer is detected.\<close>

lemma parse_snapshot_burst:
  assumes "snapshot_content entries = pre @ old @ post" and "4 \<le> length post"
    and "length old = length new" and "length new \<le> 4" and "old \<noteq> new"
  shows "parse_snapshot (pre @ new @ post) es = Inr (False, es)"
proof -
  let ?d = "(MAGIC @ le32 VERSION @ le32 (of_nat (length entries))) @ entries_bytes entries"
  define mid where "mid = take (length post - 4) post"
  have eq: "?d @ le32 (CRC32 ?d) = (pre @ old @ mid) @ drop (length post - 4) post"
    using assms(1) by (simp add: snapshot_content_split mid_def)
  have "length (le32 (CRC32 ?d)) = length (drop (length post - 4) post)" using assms(2) by simp
  then have d: "?d = pre @ old @ mid" and f: "le32 (CRC32 ?d) = drop (length post - 4) post"
    using iffD1 [OF append_eq_append_conv eq] by (blast+)
  have post: "post = mid @ le32 (CRC32 ?d)" by (simp only: mid_def f append_take_drop_id)
  have "CRC32 ?d \<noteq> CRC32 (pre @ new @ mid)"
    unfolding d using assms(3-5) by (rule CRC32_burst)
  moreover have "VerifyChecksum ((pre @ new @ mid) @ le32 (CRC32 ?d) @ []) (length (pre @ new @ mid))
      = Inr (CRC32 ?d = CRC32 (pre @ new @ mid))"
    by (rule VerifyChecksum_stored)
  ultimately have "VerifyChecksum (pre @ new @ post) (length (pre @ new @ post) - 4) = Inr False"
    using post by simp
  then show ?thesis by (simp add: parse_snapshot_def)
qed

section \<open>The file on disk\<close>

lemma snapshot_content_nonempty [simp]: "snapshot_content entries \<noteq> []"
  using length_snapshot_content [of entries] by (metis add_is_0 length_0_conv zero_neq_numeral)

lemma tmp_of_neq [simp]: "tmp_of path \<noteq> path" "path \<noteq> tmp_of path"
  by (simp_all add: tmp_of_def)

text \<open>Without faults, writing replaces the file and leaves no other trace.\<close>

lemma WriteSnapshot_calm:
  assumes "faults s = []" and "os_wf s" and "WriteSnapshot path entries s = (ok, s')"
  shows "ok" and "files s' = ((files s)(tmp_of path := None))(path \<mapsto> snapshot_content entries)"
    and "fds s' = fds s" and "faults s' = []" and "clock s' = clock s" and "ticks s' = ticks s"
    and "os_wf s'"
proof -
  let ?t = "tmp_of path" and ?fd = "int (next_fd s)" and ?c = "snapshot_content entries"
  let ?s1 = "s\<lparr>files := (files s)(?t \<mapsto> []), fds := (fds s)(?fd \<mapsto> (?t, 0)), next_fd := Suc (next_fd s)\<rparr>"
  have free: "fds s ?fd = None" using assms(2) by (rule os_wf_free)
  have o: "os_open_trunc_creat ?t s = (?fd, None, ?s1)"
    using assms(1) by (simp add: os_open_trunc_creat_def new_fd_def)
  have "write_loop ?fd ?c ?s1 = (True, ?s1\<lparr>files := (files s)(?t \<mapsto> ?c), fds := (fds s)(?fd \<mapsto> (?t, length ?c))\<rparr>)"
    using assms(1) by (subst write_loop_calm [where path = ?t and off = 0]) (simp_all add: write_at_def)
  then have run: "ok" "s' = s\<lparr>files := ((files s)(?t := None))(path \<mapsto> ?c), next_fd := Suc (next_fd s)\<rparr>"
    using assms(1,3) free
    by (auto simp: WriteSnapshot_def o os_close_def os_unlink_def os_rename_def Let_def fun_upd_twist fun_upd_idem)
  show "os_wf s'" using assms(2) by (fastforce simp: run os_wf_def)
  show "ok" "files s' = ((files s)(?t := None))(path \<mapsto> ?c)" "fds s' = fds s" "faults s' = []"
    "clock s' = clock s" "ticks s' = ticks s"
    using assms(1) by (simp_all add: run(2) run(1))
qed

text \<open>Without faults, reading changes nothing but the number of the next descriptor.\<close>

lemma ReadSnapshot_calm:
  assumes "faults s = []" and "os_wf s"
  shows "ReadSnapshot path es s =
    (case files s path of
       None \<Rightarrow> (Inr (False, es), s)
     | Some c \<Rightarrow> (if length c \<le> 13 then Inr (False, es) else parse_snapshot c es, s\<lparr>next_fd := Suc (next_fd s)\<rparr>))"
proof (cases "files s path")
  case None
  with assms show ?thesis by (simp add: ReadSnapshot_def os_open_rdonly_def)
next
  case (Some c)
  let ?fd = "int (next_fd s)"
  let ?f = "\<lambda>n. s\<lparr>fds := (fds s)(?fd \<mapsto> (path, n)), next_fd := Suc (next_fd s)\<rparr>"
  have free: "fds s ?fd = None" using assms(2) by (rule os_wf_free)
  have o: "os_open_rdonly path s = (?fd, None, ?f 0)"
    using assms(1) Some by (simp add: os_open_rdonly_def new_fd_def)
  have e: "os_lseek ?fd 0 SEEK_END (?f 0) = (int (length c), ?f (length c))"
    using assms(1) Some by (simp add: os_lseek_calm content_of_def Let_def)
  have b: "os_lseek ?fd 0 SEEK_SET (?f (length c)) = (0, ?f 0)"
    using assms(1) Some by (simp add: os_lseek_calm)
  have r: "read_loop ?fd (length c) (?f 0) = (c, ?f (length c))"
    using read_loop_calm [of "?f 0" ?fd path] assms(1) Some by (simp add: content_of_def)
  have cl: "os_close ?fd (?f n) = s\<lparr>next_fd := Suc (next_fd s)\<rparr>" for n
    using free by (simp add: os_close_def fun_upd_idem)
  show ?thesis using Some
    by (simp add: ReadSnapshot_def o e b r cl)
qed

lemma ReadSnapshot_written:
  assumes "faults s = []" and "os_wf s" and "files s path = Some (snapshot_content entries)" and "wf_entries entries"
  shows "ReadSnapshot path es s = (Inr (True, entries), s\<lparr>next_fd := Suc (next_fd s)\<rparr>)"
  using assms by (simp add: ReadSnapshot_calm length_snapshot_content parse_snapshot_content)

section \<open>Crashes while writing\<close>

text \<open>
  The system calls of \<open>WriteSnapshot\<close> one by one, each with the outcomes it may have. A state is the
  position in the function and the files; a crash leaves the files of any reachable state.
\<close>

datatype write_pc =
    PcOpen            \<comment> \<open>before \<open>FileOpenWrite\<close>\<close>
  | PcWrite nat       \<comment> \<open>in the loop, so many bytes written\<close>
  | PcCleanup         \<comment> \<open>before the \<open>FileDelete\<close> of the error path\<close>
  | PcDelete          \<comment> \<open>before \<open>FileDelete(filepath)\<close>\<close>
  | PcRename          \<comment> \<open>before \<open>rename\<close>\<close>
  | PcDone bool       \<comment> \<open>returned\<close>

inductive ws_step :: "string \<Rightarrow> string \<Rightarrow> write_pc \<times> (string \<Rightarrow> string option) \<Rightarrow> write_pc \<times> (string \<Rightarrow> string option) \<Rightarrow> bool"
  for path :: string and c :: string
where
  open_ok: "ws_step path c (PcOpen, f) (PcWrite 0, f(tmp_of path \<mapsto> []))"
| open_fail: "ws_step path c (PcOpen, f) (PcDone False, f)"
| write_some: "0 < n \<Longrightarrow> k + n \<le> length c \<Longrightarrow>
    ws_step path c (PcWrite k, f) (PcWrite (k + n), f(tmp_of path \<mapsto> take (k + n) c))"
| write_fail: "k < length c \<Longrightarrow> ws_step path c (PcWrite k, f) (PcCleanup, f)"
| cleanup: "f' \<in> {f, f(tmp_of path := None)} \<Longrightarrow> ws_step path c (PcCleanup, f) (PcDone False, f')"
| close: "ws_step path c (PcWrite (length c), f) (PcDelete, f)"
| delete: "f' \<in> {f, f(path := None)} \<Longrightarrow> ws_step path c (PcDelete, f) (PcRename, f')"
| rename_ok: "f (tmp_of path) = Some t \<Longrightarrow>
    ws_step path c (PcRename, f) (PcDone True, (f(tmp_of path := None))(path \<mapsto> t))"
| rename_fail: "ws_step path c (PcRename, f) (PcDone False, f)"

inductive_cases ws_step_doneE: "ws_step path c (PcDone b, f) q"

lemma ws_done_final: "\<not> ws_step path c (PcDone b, f) q"
  by (blast elim: ws_step_doneE)

text \<open>What every reachable state satisfies, by position.\<close>

definition ws_inv :: "string \<Rightarrow> string \<Rightarrow> (string \<Rightarrow> string option) \<Rightarrow> write_pc \<times> (string \<Rightarrow> string option) \<Rightarrow> bool" where
  "ws_inv path c f0 st =
     (case st of (pc, f) \<Rightarrow>
        (\<forall>p. p \<noteq> path \<longrightarrow> p \<noteq> tmp_of path \<longrightarrow> f p = f0 p)
        \<and> (case pc of
             PcOpen \<Rightarrow> f = f0
           | PcWrite k \<Rightarrow> k \<le> length c \<and> f (tmp_of path) = Some (take k c) \<and> f path = f0 path
           | PcCleanup \<Rightarrow> f path = f0 path
           | PcDelete \<Rightarrow> f (tmp_of path) = Some c \<and> f path = f0 path
           | PcRename \<Rightarrow> f (tmp_of path) = Some c \<and> f path \<in> {f0 path, None}
           | PcDone True \<Rightarrow> f path = Some c \<and> f (tmp_of path) = None
           | PcDone False \<Rightarrow> f path \<in> {f0 path, None}))"

lemma ws_inv_step:
  assumes "ws_step path c st st'" and "ws_inv path c f0 st"
  shows "ws_inv path c f0 st'"
  using assms by (cases rule: ws_step.cases) (auto simp: ws_inv_def split: bool.splits)

lemma ws_inv_reachable:
  assumes "(ws_step path c)\<^sup>*\<^sup>* (PcOpen, f0) st"
  shows "ws_inv path c f0 st"
  using assms
proof (induction rule: rtranclp_induct)
  case base
  show ?case by (simp add: ws_inv_def)
next
  case (step st st')
  then show ?case by (blast intro: ws_inv_step)
qed

text \<open>The function takes these steps, whatever the outcomes of its calls.\<close>

lemma write_loop_steps:
  assumes "fds s fd = Some (tmp_of path, k)" and "files s (tmp_of path) = Some (take k c)" and "k \<le> length c"
    and "write_loop fd (drop k c) s = (ok, s')"
  shows "\<exists>k'. (ws_step path c)\<^sup>*\<^sup>* (PcWrite k, files s) (PcWrite k', files s')
     \<and> (if ok then k' = length c else k' < length c)"
  using assms
proof (induction "length c - k" arbitrary: k s rule: less_induct)
  case less
  show ?case
  proof (cases "k = length c")
    case True
    with less.prems(4) show ?thesis by (auto simp: write_loop.simps)
  next
    case False
    obtain n s1 where w: "os_write fd (drop k c) s = (n, s1)" by (cases "os_write fd (drop k c) s")
    note p = os_write_progress [OF less.prems(1-3) w]
    show ?thesis
    proof (cases "n \<le> 0")
      case True
      with False p w less.prems(3,4) show ?thesis
        by (intro exI [of _ k]) (auto simp: write_loop.simps [of _ "drop k c"])
    next
      case pos: False
      with p obtain m where m: "n = int m" "0 < m" "k + m \<le> length c"
        "files s1 = (files s)(tmp_of path \<mapsto> take (k + m) c)" "fds s1 fd = Some (tmp_of path, k + m)" by auto
      have "write_loop fd (drop (k + m) c) s1 = (ok, s')"
        using less.prems(3,4) False pos w m(1) by (simp add: write_loop.simps [of _ "drop k c"] add.commute)
      then obtain k' where k': "(ws_step path c)\<^sup>*\<^sup>* (PcWrite (k + m), files s1) (PcWrite k', files s')"
        "if ok then k' = length c else k' < length c"
        using less.hyps [of "k + m" s1] m False less.prems(3) by force
      have "ws_step path c (PcWrite k, files s) (PcWrite (k + m), files s1)"
        unfolding m(4) using m(2,3) by (rule write_some)
      with k' show ?thesis by (blast intro: converse_rtranclp_into_rtranclp)
    qed
  qed
qed

lemma os_unlink_files: "files (os_unlink path s) \<in> {files s, (files s)(path := None)}"
  by (auto simp: os_unlink_def dest: pop_fault_frame split: prod.splits fault.splits)

lemma os_close_files [simp]: "files (os_close fd s) = files s"
  by (simp add: os_close_def)

lemma os_rename_step:
  assumes "os_rename (tmp_of path) path s = (r, s')"
  shows "ws_step path c (PcRename, files s) (PcDone (r = 0), files s')"
proof -
  obtain f s0 where f: "pop_fault s = (f, s0)" by (cases "pop_fault s")
  note fr = pop_fault_frame [OF f]
  have "r = -1 \<and> files s' = files s
     \<or> (\<exists>t. r = 0 \<and> files s (tmp_of path) = Some t \<and> files s' = ((files s)(tmp_of path := None))(path \<mapsto> t))"
    using assms f fr by (cases f; cases "files s (tmp_of path)") (auto simp: os_rename_def)
  then show ?thesis
  proof (elim disjE exE conjE)
    assume "r = -1" "files s' = files s"
    then show ?thesis by (simp add: rename_fail)
  next
    fix t assume "r = 0" "files s (tmp_of path) = Some t" "files s' = ((files s)(tmp_of path := None))(path \<mapsto> t)"
    then show ?thesis by (simp add: rename_ok)
  qed
qed

lemma WriteSnapshot_steps:
  assumes "WriteSnapshot path entries s = (ok, s')"
  shows "(ws_step path (snapshot_content entries))\<^sup>*\<^sup>* (PcOpen, files s) (PcDone ok, files s')"
proof -
  let ?c = "snapshot_content entries" and ?t = "tmp_of path"
  let ?step = "ws_step path ?c"
  obtain f s0 where f: "pop_fault s = (f, s0)" by (cases "pop_fault s")
  note fr = pop_fault_frame [OF f]
  show ?thesis
  proof (cases "\<exists>e. f = Fail e")
    case True
    with assms f fr have "?step (PcOpen, files s) (PcDone ok, files s')"
      by (auto simp: WriteSnapshot_def os_open_trunc_creat_def Let_def open_fail)
    then show ?thesis ..
  next
    case False
    define fd where "fd = int (next_fd s0)"
    define s1 where "s1 = s0\<lparr>files := (files s)(?t \<mapsto> []), fds := (fds s)(fd \<mapsto> (?t, 0)), next_fd := Suc (next_fd s0)\<rparr>"
    have o: "os_open_trunc_creat ?t s = (fd, None, s1)" and fd: "\<not> fd < 0"
      using False f fr by (cases f; simp add: os_open_trunc_creat_def new_fd_def s1_def fd_def)+
    obtain b s2 where w: "write_loop fd ?c s1 = (b, s2)" by (cases "write_loop fd ?c s1")
    then obtain k where k: "?step\<^sup>*\<^sup>* (PcWrite 0, files s1) (PcWrite k, files s2)"
      "if b then k = length ?c else k < length ?c"
      using write_loop_steps [of s1 fd path 0 ?c b s2] by (auto simp: s1_def)
    have "?step (PcOpen, files s) (PcWrite 0, files s1)" by (simp add: s1_def open_ok)
    with k(1) have upto: "?step\<^sup>*\<^sup>* (PcOpen, files s) (PcWrite k, files s2)" by simp
    show ?thesis
    proof (cases b)
      case False
      with k(2) have "?step (PcWrite k, files s2) (PcCleanup, files s2)" by (simp add: write_fail)
      moreover have "?step (PcCleanup, files s2) (PcDone ok, files s')"
        using assms False os_unlink_files [of ?t "os_close fd s2"]
        by (auto simp: WriteSnapshot_def o fd w Let_def intro: cleanup)
      ultimately show ?thesis using upto by (meson rtranclp.rtrancl_into_rtrancl)
    next
      case True
      define s3 where "s3 = os_unlink path (os_close fd s2)"
      have "?step (PcWrite k, files s2) (PcDelete, files s2)" using k(2) True by (simp add: close)
      moreover have "?step (PcDelete, files s2) (PcRename, files s3)"
        using os_unlink_files [of path "os_close fd s2"] by (auto simp: s3_def intro: delete)
      moreover have "?step (PcRename, files s3) (PcDone ok, files s')"
        using assms True os_rename_step [of path s3]
        by (auto simp: WriteSnapshot_def o fd w s3_def [symmetric] Let_def split: prod.splits)
      ultimately show ?thesis using upto by (meson rtranclp.rtrancl_into_rtrancl)
    qed
  qed
qed

section \<open>Memory safety of reading\<close>

text \<open>As long as the offset leaves room for the footer, the loop reads inside the buffer.\<close>

lemma read_entries_safe:
  assumes "offset + 4 \<le> length content" and "length content < 2 ^ 64"
  shows "\<exists>ok es. read_entries n content offset acc = Inr (ok, es)"
  using assms(1)
proof (induction n arbitrary: offset acc)
  case 0
  show ?case by auto
next
  case (Suc n)
  let ?mem = "drop offset (content @ [CHR 0x00])" and ?len = "length content - offset - 4"
  have len: "to_size (int (length content) - int offset - 4) = ?len"
    using Suc.prems assms(2) by (subst to_size_nonneg) (simp_all add: nat_diff_distrib)
  have le: "?len \<le> length ?mem" by simp
  obtain e m where d: "SnapshotEntry_Deserialize ?mem ?len = Inr (e, m)"
    using SnapshotEntry_Deserialize_safe [OF le] by blast
  have "offset + m + 4 \<le> length content" if "m \<noteq> 0"
    using SnapshotEntry_decode_sound [OF d that le] Suc.prems by linarith
  then show ?case using Suc.IH [of "offset + m"] d len by auto
qed

lemma parse_snapshot_safe:
  assumes "17 \<le> length content" and "length content < 2 ^ 64"
  shows "\<exists>ok es'. parse_snapshot content es = Inr (ok, es')"
proof -
  obtain b where "VerifyChecksum content (length content - 4) = Inr b"
    using VerifyChecksum_Inr [of "length content - 4" content] assms(1) by auto
  then show ?thesis
    using assms read_entries_safe [of 13 content] by (auto simp: parse_snapshot_def rd_u32_def)
qed

section \<open>Evaluation\<close>

lemmas snapshot_eval = AppendChecksum_def MAGIC_def VERSION_def le32_def le16_def chr_of_def
  crc_eval of_char_char_of_nat parse_snapshot_def VerifyChecksum_def ReadChecksum_def rd32_def rd16_def
  rd_u32_def rd_u16_def rd_at_def rd_range_def SnapshotEntry_Deserialize_def Let_def to_size_def

text \<open>A file of fourteen bytes whose footer is right: the count of entries is made of the last byte
  before the footer and the first three of the footer.\<close>

lemma short_snapshot_bytes:
  "AppendChecksum (MAGIC @ le32 VERSION @ ''x'') (MAGIC @ le32 VERSION @ ''x'') =
     ''KVSNP'' @ [CHR 0x01, CHR 0x00, CHR 0x00, CHR 0x00, CHR ''x'', CHR 0x95, CHR 0x8E, CHR 0x35, CHR 0x24]"
  by (simp add: snapshot_eval) code_simp

lemma short_snapshot_undefined:
  "parse_snapshot (''KVSNP'' @ [CHR 0x01, CHR 0x00, CHR 0x00, CHR 0x00, CHR ''x'', CHR 0x95, CHR 0x8E, CHR 0x35, CHR 0x24]) []
     = Inl Undefined" (is "parse_snapshot ?c [] = _")
proof -
  have "parse_snapshot ?c [] = read_entries 0x358E9578 ?c 13 []"
    by (simp add: snapshot_eval)
  also have "\<dots> = Inl Undefined"
  proof -
    have n: "(0x358E9578 :: nat) = Suc 0x358E9577" by simp
    show ?thesis by (subst n, subst read_entries.simps) (simp add: snapshot_eval)
  qed
  finally show ?thesis .
qed

section \<open>A snapshot on disk, for the examples\<close>

abbreviation ex_entries :: "(string \<times> string) list" where
  "ex_entries \<equiv> [(''name'', ''Alice''), (''age'', ''42'')]"

lemma ex_entries_wf [simp]: "wf_entries ex_entries"
  by (simp add: wf_entries_def)

section \<open>Properties\<close>

text \<open>C12: without I/O faults, creating a snapshot succeeds, and loading it afterwards returns exactly
  the entries that were saved, in their order; no other file but the temporary one is touched.\<close>

theorem Create_then_Load:
  assumes "faults s = []" and "os_wf s" and "wf_entries entries"
    and "Create dir entries s = (ok, s')" and "Load dir old s' = (res, s'')"
  shows "ok \<and> res = Inr (True, entries) \<and> fst (IsValid dir s') = Inr True
     \<and> (\<forall>p. p \<noteq> GetSnapshotPath dir \<longrightarrow> p \<noteq> tmp_of (GetSnapshotPath dir) \<longrightarrow> files s' p = files s p)"
proof -
  note w = WriteSnapshot_calm [OF assms(1,2) assms(4) [unfolded Create_def]]
  have "ReadSnapshot (GetSnapshotPath dir) es s' = (Inr (True, entries), s'\<lparr>next_fd := Suc (next_fd s')\<rparr>)" for es
    using w(2) assms(3) by (intro ReadSnapshot_written [OF w(4,7)]) simp_all
  with assms(5) w(1,2) show ?thesis by (auto simp: Load_def IsValid_def)
qed

theorem Create_then_Load_witness:
  "case Create ''data'' ex_entries os_start of (ok, s') \<Rightarrow>
     ok \<and> fst (Load ''data'' [] s') = Inr (True, ex_entries)"
proof -
  obtain ok s' where c: "Create ''data'' ex_entries os_start = (ok, s')" by fastforce
  obtain res s'' where l: "Load ''data'' [] s' = (res, s'')" by fastforce
  from Create_then_Load [OF faults_start os_wf_start ex_entries_wf c l] show ?thesis
    by (simp only: c l prod.case fst_conv simp_thms)
qed

text \<open>C13: the function \<open>WriteSnapshot\<close>, whatever the outcomes of its system calls, takes the steps of
  the step relation; and in every state the relation reaches, so after a crash at any point, the
  snapshot's name holds the old file, the complete new file, or nothing. Nothing is possible only
  between the deletion of the old file and the rename, or after a failure. Other files are kept.\<close>

theorem WriteSnapshot_crash_states:
  "(WriteSnapshot path entries s = (ok, s') \<longrightarrow>
      (ws_step path (snapshot_content entries))\<^sup>*\<^sup>* (PcOpen, files s) (PcDone ok, files s'))
   \<and> ((ws_step path c)\<^sup>*\<^sup>* (PcOpen, f0) (pc, f) \<longrightarrow>
        f path \<in> {f0 path, Some c, None}
        \<and> (f path = None \<longrightarrow> f0 path = None \<or> pc = PcRename \<or> pc = PcDone False)
        \<and> (pc = PcDone True \<longrightarrow> f path = Some c)
        \<and> (\<forall>p. p \<noteq> path \<longrightarrow> p \<noteq> tmp_of path \<longrightarrow> f p = f0 p))"
  using WriteSnapshot_steps [of path entries s ok s'] ws_inv_reachable [of path c f0 "(pc, f)"]
  by (cases pc) (auto simp: ws_inv_def split: bool.splits)

theorem WriteSnapshot_crash_states_witness:
  "(ws_step ''snap'' ''xyz'')\<^sup>*\<^sup>* (PcOpen, [''snap'' \<mapsto> ''old'']) (PcWrite 2, [''snap'' \<mapsto> ''old'', tmp_of ''snap'' \<mapsto> ''xy''])
   \<and> [''snap'' \<mapsto> ''old'', tmp_of ''snap'' \<mapsto> ''xy''] ''snap'' = Some ''old''
   \<and> (\<exists>s' ok. WriteSnapshot ''snap'' ex_entries os_start = (ok, s')
        \<and> (ws_step ''snap'' (snapshot_content ex_entries))\<^sup>*\<^sup>* (PcOpen, files os_start) (PcDone ok, files s'))"
proof -
  let ?f0 = "[''snap'' \<mapsto> ''old'']"
  have "ws_step ''snap'' ''xyz'' (PcOpen, ?f0) (PcWrite 0, ?f0(tmp_of ''snap'' \<mapsto> []))" by (rule open_ok)
  moreover have "ws_step ''snap'' ''xyz'' (PcWrite 0, ?f0(tmp_of ''snap'' \<mapsto> [])) (PcWrite 2, ?f0(tmp_of ''snap'' \<mapsto> ''xy''))"
    using write_some [of 2 0 "''xyz''" "''snap''" "?f0(tmp_of ''snap'' \<mapsto> [])"] by (simp add: eval_nat_numeral)
  ultimately have r: "(ws_step ''snap'' ''xyz'')\<^sup>*\<^sup>* (PcOpen, ?f0) (PcWrite 2, ?f0(tmp_of ''snap'' \<mapsto> ''xy''))"
    by (meson r_into_rtranclp rtranclp.rtrancl_into_rtrancl)
  obtain ok s' where w: "WriteSnapshot ''snap'' ex_entries os_start = (ok, s')" by fastforce
  from WriteSnapshot_crash_states [of "''snap''" ex_entries os_start ok s' "''xyz''" ?f0 "PcWrite 2" "?f0(tmp_of ''snap'' \<mapsto> ''xy'')"]
  show ?thesis using r w by auto
qed

text \<open>Replacing a snapshot is not atomic: on the way of every successful run over an existing
  snapshot there is a state in which no snapshot exists under its name.\<close>

theorem WriteSnapshot_not_atomic:
  assumes "faults s = []" and "os_wf s" and "files s path = Some old"
  shows "\<exists>f s'. WriteSnapshot path entries s = (True, s')
     \<and> (ws_step path (snapshot_content entries))\<^sup>*\<^sup>* (PcOpen, files s) (PcRename, f) \<and> f path = None
     \<and> ws_step path (snapshot_content entries) (PcRename, f) (PcDone True, files s')"
proof -
  let ?c = "snapshot_content entries" and ?t = "tmp_of path" and ?f = "files s"
  let ?step = "ws_step path ?c"
  obtain ok s' where w: "WriteSnapshot path entries s = (ok, s')" by (cases "WriteSnapshot path entries s")
  note c = WriteSnapshot_calm [OF assms(1,2) w]
  have "0 < length ?c" by simp
  then have "?step (PcWrite 0, ?f(?t \<mapsto> [])) (PcWrite (length ?c), ?f(?t \<mapsto> ?c))"
    using write_some [of "length ?c" 0 ?c path "?f(?t \<mapsto> [])"] by simp
  moreover have "?step (PcOpen, ?f) (PcWrite 0, ?f(?t \<mapsto> []))" by (rule open_ok)
  moreover have "?step (PcWrite (length ?c), ?f(?t \<mapsto> ?c)) (PcDelete, ?f(?t \<mapsto> ?c))" by (rule close)
  moreover have "?step (PcDelete, ?f(?t \<mapsto> ?c)) (PcRename, (?f(?t \<mapsto> ?c))(path := None))" by (rule delete) simp
  ultimately have "?step\<^sup>*\<^sup>* (PcOpen, ?f) (PcRename, (?f(?t \<mapsto> ?c))(path := None))"
    by (meson r_into_rtranclp rtranclp.rtrancl_into_rtrancl)
  moreover have "?step (PcRename, (?f(?t \<mapsto> ?c))(path := None)) (PcDone True, files s')"
    using rename_ok [of "(?f(?t \<mapsto> ?c))(path := None)" path ?c ?c] by (simp add: c(2) fun_upd_twist)
  ultimately show ?thesis using w c(1) by (intro exI conjI) simp_all
qed

theorem WriteSnapshot_not_atomic_witness:
  "\<exists>f s'. WriteSnapshot ''snap'' ex_entries (os_start\<lparr>files := [''snap'' \<mapsto> ''old'']\<rparr>) = (True, s')
     \<and> (ws_step ''snap'' (snapshot_content ex_entries))\<^sup>*\<^sup>* (PcOpen, [''snap'' \<mapsto> ''old'']) (PcRename, f)
     \<and> f ''snap'' = None"
  using WriteSnapshot_not_atomic [of "os_start\<lparr>files := [''snap'' \<mapsto> ''old'']\<rparr>" "''snap''" "''old''" ex_entries]
  by (auto simp: os_wf_def os_start_def)

text \<open>A change of up to four adjacent bytes anywhere before the footer of a snapshot file, header
  included, is detected: the snapshot is refused and the caller's entries are left as they were.\<close>

theorem ReadSnapshot_detects_corruption:
  assumes "faults s = []" and "os_wf s" and "files s path = Some (pre @ new @ post)"
    and "snapshot_content entries = pre @ old @ post" and "4 \<le> length post"
    and "length old = length new" and "length new \<le> 4" and "old \<noteq> new"
  shows "fst (ReadSnapshot path es s) = Inr (False, es)"
  using ReadSnapshot_calm [OF assms(1,2), of path es] parse_snapshot_burst [OF assms(4-8)] assms(3) by simp

theorem ReadSnapshot_detects_corruption_witness:
  "fst (ReadSnapshot ''snap'' [] (os_start\<lparr>files := [''snap'' \<mapsto> ''KVSN'' @ ''X'' @ drop 5 (snapshot_content ex_entries)]\<rparr>))
     = Inr (False, [])"
proof (rule ReadSnapshot_detects_corruption [where old = "''P''" and entries = ex_entries
      and pre = "''KVSN''" and new = "''X''" and post = "drop 5 (snapshot_content ex_entries)"])
  show "snapshot_content ex_entries = ''KVSN'' @ ''P'' @ drop 5 (snapshot_content ex_entries)"
    by (simp add: snapshot_content_split MAGIC_def)
  show "4 \<le> length (drop 5 (snapshot_content ex_entries))" by (simp add: length_snapshot_content)
qed (simp_all add: os_wf_def os_start_def)

text \<open>C20: reading a snapshot file of at least 17 bytes, whatever they are, stays inside the buffer and
  returns. The guard of the function admits files from 14 bytes on: the size of such a short file
  minus the offset of the entries and the footer wraps around, and the reader runs off the
  buffer.\<close>

theorem ReadSnapshot_memory_safety:
  "(faults s = [] \<longrightarrow> os_wf s \<longrightarrow> files s path = Some c \<longrightarrow> 17 \<le> length c \<longrightarrow> length c < 2 ^ 64 \<longrightarrow>
      (\<exists>ok es'. fst (ReadSnapshot path es s) = Inr (ok, es')))
   \<and> fst (ReadSnapshot ''snap'' [] (os_start\<lparr>files :=
        [''snap'' \<mapsto> AppendChecksum (MAGIC @ le32 VERSION @ ''x'') (MAGIC @ le32 VERSION @ ''x'')]\<rparr>)) = Inl Undefined"
proof (intro conjI impI)
  assume "faults s = []" "os_wf s" "files s path = Some c" "17 \<le> length c" "length c < 2 ^ 64"
  then show "\<exists>ok es'. fst (ReadSnapshot path es s) = Inr (ok, es')"
    using parse_snapshot_safe [of c es] by (simp add: ReadSnapshot_calm)
next
  show "fst (ReadSnapshot ''snap'' [] (os_start\<lparr>files :=
        [''snap'' \<mapsto> AppendChecksum (MAGIC @ le32 VERSION @ ''x'') (MAGIC @ le32 VERSION @ ''x'')]\<rparr>)) = Inl Undefined"
    by (simp add: ReadSnapshot_calm os_wf_def os_start_def short_snapshot_bytes short_snapshot_undefined [simplified])
qed

theorem ReadSnapshot_memory_safety_witness:
  "\<exists>ok es'. fst (ReadSnapshot ''snap'' [] (os_start\<lparr>files := [''snap'' \<mapsto> ''some other file, not a snapshot'']\<rparr>)) = Inr (ok, es')"
  using ReadSnapshot_memory_safety [of "os_start\<lparr>files := [''snap'' \<mapsto> ''some other file, not a snapshot'']\<rparr>" "''snap''"
      "''some other file, not a snapshot''" "[]"]
  by (simp add: os_wf_def os_start_def)

end
