(* ===== verification/KvStore.thy ===== *)
theory KvStore
  imports Prelude "HOL-Library.AList" "HOL-Library.Multiset"
begin

text \<open>
  The in-memory store of \<open>include/storage/kv_store.h\<close> and \<open>src/storage/kv_store.cpp\<close>. The
  \<open>absl::flat_hash_map\<close> is an association list with distinct keys; the order in which it is iterated
  is not specified, so it is a parameter \<open>order\<close>, of which only that it visits every entry once is
  assumed. Every operation holds the lock from start to end, so each is one step.
  The locale \<open>kv_container\<close> is what the rest of the store relies on.
\<close>

type_synonym flat_hash_map = "(string \<times> string) list"

type_synonym iteration = "flat_hash_map \<Rightarrow> flat_hash_map"

text \<open>What is assumed of the order of iteration.\<close>

definition visits_once :: "iteration \<Rightarrow> bool" where
  "visits_once order \<longleftrightarrow> (\<forall>m. mset (order m) = mset m)"

record KvStore =
  kv_data :: flat_hash_map

definition KvStore_ctor :: KvStore where
  "KvStore_ctor = \<lparr>kv_data = []\<rparr>"

section \<open>The container\<close>

definition insert_or_assign :: "string \<Rightarrow> string \<Rightarrow> flat_hash_map \<Rightarrow> flat_hash_map" where
  "insert_or_assign k v m = AList.update k v m"

definition find_entry :: "flat_hash_map \<Rightarrow> string \<Rightarrow> string option" where
  "find_entry m k = map_of m k"

text \<open>\<open>erase\<close> returns the number of entries removed.\<close>

definition erase :: "string \<Rightarrow> flat_hash_map \<Rightarrow> nat \<times> flat_hash_map" where
  "erase k m = (length m - length (AList.delete k m), AList.delete k m)"

definition count_entry :: "flat_hash_map \<Rightarrow> string \<Rightarrow> nat" where
  "count_entry m k = (if k \<in> set (map fst m) then 1 else 0)"

section \<open>Operations\<close>

definition KvStore_Set :: "string \<Rightarrow> string \<Rightarrow> 'a KvStore_scheme \<Rightarrow> 'a KvStore_scheme" where
  "KvStore_Set k v st = st\<lparr>kv_data := insert_or_assign k v (kv_data st)\<rparr>"

definition KvStore_Get :: "string \<Rightarrow> 'a KvStore_scheme \<Rightarrow> string option" where
  "KvStore_Get k st = find_entry (kv_data st) k"

definition KvStore_Delete :: "string \<Rightarrow> 'a KvStore_scheme \<Rightarrow> bool \<times> 'a KvStore_scheme" where
  "KvStore_Delete k st = (let (n, m) = erase k (kv_data st) in (0 < n, st\<lparr>kv_data := m\<rparr>))"

definition KvStore_Exists :: "string \<Rightarrow> 'a KvStore_scheme \<Rightarrow> bool" where
  "KvStore_Exists k st \<longleftrightarrow> 0 < count_entry (kv_data st) k"

definition KvStore_AllKeys :: "iteration \<Rightarrow> 'a KvStore_scheme \<Rightarrow> string list" where
  "KvStore_AllKeys order st = map fst (order (kv_data st))"

definition KvStore_Size :: "'a KvStore_scheme \<Rightarrow> nat" where
  "KvStore_Size st = length (kv_data st)"

section \<open>The interface\<close>

text \<open>
  A container of key-value pairs as its clients use it: an abstraction to a finite map, which
  insertion and erasure update, and the enumeration of the entries.
\<close>

locale kv_container =
  fixes alpha :: "'m \<Rightarrow> 'k \<Rightarrow> 'v option"
    and invar :: "'m \<Rightarrow> bool"
    and ins :: "'k \<Rightarrow> 'v \<Rightarrow> 'm \<Rightarrow> 'm"
    and del :: "'k \<Rightarrow> 'm \<Rightarrow> nat \<times> 'm"
    and enum :: "'m \<Rightarrow> ('k \<times> 'v) list"
  assumes abs_ins: "invar m \<Longrightarrow> alpha (ins k v m) = (alpha m)(k \<mapsto> v)"
    and inv_ins: "invar m \<Longrightarrow> invar (ins k v m)"
    and abs_del: "invar m \<Longrightarrow> alpha (snd (del k m)) = (alpha m)(k := None)"
    and inv_del: "invar m \<Longrightarrow> invar (snd (del k m))"
    and del_count: "invar m \<Longrightarrow> fst (del k m) = (if alpha m k = None then 0 else 1)"
    and enum_distinct: "invar m \<Longrightarrow> distinct (map fst (enum m))"
    and enum_abs: "invar m \<Longrightarrow> map_of (enum m) = alpha m"
begin

text \<open>Inserting the entries of a list one after the other adds them as a map, the last one of a key
  counting.\<close>

lemma abs_foldl_ins:
  "invar m \<Longrightarrow> invar (foldl (\<lambda>m (k, v). ins k v m) m es) \<and> alpha (foldl (\<lambda>m (k, v). ins k v m) m es) = alpha m ++ map_of (rev es)"
  by (induction es arbitrary: m) (auto simp: inv_ins abs_ins map_add_def fun_eq_iff split: option.splits)

text \<open>Copying a container entry by entry gives one with the same contents.\<close>

lemma copy_entries:
  assumes "invar m" and "invar m0" and "alpha m0 = (\<lambda>_. None)" and "mset es = mset (enum m)"
  shows "alpha (foldl (\<lambda>m (k, v). ins k v m) m0 es) = alpha m"
proof -
  have d: "distinct (map fst (enum m))" using assms(1) by (rule enum_distinct)
  have m: "mset (rev es) = mset (enum m)" using assms(4) by simp
  then have "mset (map fst (rev es)) = mset (map fst (enum m))" by (metis mset_map)
  with d have "distinct (map fst (rev es))" by (metis mset_eq_imp_distinct_iff)
  then have "map_of (rev es) = map_of (enum m)"
    using d m by (metis map_of_inject_set mset_eq_setD)
  with abs_foldl_ins [OF assms(2), of es] assms(3) enum_abs [OF assms(1)] show ?thesis by simp
qed

lemma enum_dom: "invar m \<Longrightarrow> set (map fst (enum m)) = dom (alpha m)"
  by (metis dom_map_of_conv_image_fst enum_abs set_map)

lemma enum_card: "invar m \<Longrightarrow> length (enum m) = card (dom (alpha m))"
  by (metis distinct_card enum_distinct enum_dom length_map)

end

abbreviation distinct_keys :: "flat_hash_map \<Rightarrow> bool" where
  "distinct_keys m \<equiv> distinct (map fst m)"

lemma delete_absent: "map_of m k = None \<Longrightarrow> AList.delete k m = m"
  by (induction m) (auto split: if_splits)

lemma length_delete: "distinct_keys m \<Longrightarrow> k \<in> fst ` set m \<Longrightarrow> length m = Suc (length (AList.delete k m))"
proof (induction m)
  case (Cons e m)
  then show ?case by (cases "fst e = k") (auto simp: delete_absent map_of_eq_None_iff)
qed simp

interpretation hash_map: kv_container find_entry distinct_keys insert_or_assign erase "\<lambda>m. m"
proof (unfold_locales, goal_cases)
  case (1 m k v)
  then show ?case by (simp add: find_entry_def insert_or_assign_def fun_eq_iff update_conv')
next
  case (2 m k v)
  then show ?case by (simp add: insert_or_assign_def distinct_update)
next
  case (3 m k)
  then show ?case by (simp add: find_entry_def erase_def fun_eq_iff delete_conv')
next
  case (4 m k)
  then show ?case by (simp add: erase_def distinct_delete)
next
  case (5 m k)
  show ?case
  proof (cases "map_of m k")
    case None
    then show ?thesis by (simp add: find_entry_def erase_def delete_absent)
  next
    case (Some v)
    then have "k \<in> fst ` set m" by (force dest: map_of_SomeD)
    with Some 5 length_delete [of m k] show ?thesis by (simp add: find_entry_def erase_def)
  qed
next
  case (7 m)
  then show ?case by (simp add: find_entry_def fun_eq_iff)
qed

lemma visits_onceD: "visits_once order \<Longrightarrow> mset (order m) = mset m"
  by (simp add: visits_once_def)

lemma visits_once_length: "visits_once order \<Longrightarrow> length (order m) = length m"
  by (metis visits_onceD size_mset)

lemma count_entry_find: "0 < count_entry m k \<longleftrightarrow> find_entry m k \<noteq> None"
  by (simp add: count_entry_def find_entry_def map_of_eq_None_iff)

lemma visits_once_rev: "visits_once rev" and visits_once_id: "visits_once (\<lambda>m. m)"
  by (simp_all add: visits_once_def)

text \<open>The entries in the order of iteration are the same map.\<close>

lemma find_entry_order:
  assumes "visits_once order" and "distinct_keys m"
  shows "find_entry (order m) = find_entry m" and "distinct_keys (order m)"
proof -
  have "mset (map fst (order m)) = mset (map fst m)" using visits_onceD [OF assms(1)] by (metis mset_map)
  with assms(2) show d: "distinct_keys (order m)" by (metis mset_eq_imp_distinct_iff)
  have "set (order m) = set m" using visits_onceD [OF assms(1)] by (metis mset_eq_setD)
  with d assms(2) have "map_of (order m) = map_of m" by (metis map_of_inject_set)
  then show "find_entry (order m) = find_entry m" by (simp add: find_entry_def fun_eq_iff)
qed

section \<open>Properties\<close>

text \<open>C15: the store is a finite map from keys to values: \<open>Set\<close> overwrites, \<open>Delete\<close> removes and tells
  whether there was something to remove, \<open>Get\<close> and \<open>Exists\<close> look up, \<open>AllKeys\<close> lists every key exactly
  once in whatever order the hash map is iterated, and \<open>Size\<close> counts the keys. The distinctness of
  the keys is preserved.\<close>

theorem KvStore_refines_map:
  assumes "distinct_keys (kv_data st)" and "visits_once order"
  defines "m \<equiv> \<lambda>st. (\<lambda>k. KvStore_Get k st)"
  shows "m (KvStore_Set k v st) = (m st)(k \<mapsto> v) \<and> distinct_keys (kv_data (KvStore_Set k v st))
     \<and> m (snd (KvStore_Delete k st)) = (m st)(k := None) \<and> distinct_keys (kv_data (snd (KvStore_Delete k st)))
     \<and> (fst (KvStore_Delete k st) \<longleftrightarrow> m st k \<noteq> None)
     \<and> (KvStore_Exists k st \<longleftrightarrow> m st k \<noteq> None)
     \<and> distinct (KvStore_AllKeys order st) \<and> set (KvStore_AllKeys order st) = dom (m st)
     \<and> KvStore_Size st = card (dom (m st)) \<and> length (KvStore_AllKeys order st) = KvStore_Size st"
proof -
  let ?d = "kv_data st"
  have keys: "mset (map fst (order ?d)) = mset (map fst ?d)"
    using visits_onceD [OF assms(2)] by (metis mset_map)
  then have "distinct (map fst (order ?d))" "set (map fst (order ?d)) = set (map fst ?d)"
    using assms(1) by (metis mset_eq_imp_distinct_iff, metis mset_eq_setD)
  moreover have "m st = find_entry ?d" by (simp add: m_def KvStore_Get_def)
  moreover have "set (map fst ?d) = dom (find_entry ?d)" "length ?d = card (dom (find_entry ?d))"
    using assms(1) by (rule hash_map.enum_dom, rule hash_map.enum_card)
  moreover have "fst (KvStore_Delete k st) \<longleftrightarrow> find_entry ?d k \<noteq> None"
    using hash_map.del_count [OF assms(1), of k] by (simp add: KvStore_Delete_def case_prod_beta)
  ultimately show ?thesis
    using assms(1) hash_map.abs_ins hash_map.inv_ins hash_map.abs_del hash_map.inv_del visits_once_length [OF assms(2)]
    by (simp add: m_def KvStore_Set_def KvStore_Get_def KvStore_Delete_def KvStore_Exists_def KvStore_AllKeys_def
        KvStore_Size_def count_entry_find case_prod_beta)
qed

theorem KvStore_refines_map_witness:
  "let st = KvStore_Set ''b'' ''2'' (KvStore_Set ''a'' ''1'' KvStore_ctor) in
     KvStore_Get ''a'' (KvStore_Set ''a'' ''3'' st) = Some ''3''
     \<and> fst (KvStore_Delete ''a'' st)
     \<and> distinct (KvStore_AllKeys rev st) \<and> set (KvStore_AllKeys rev st) = {''a'', ''b''}"
proof -
  let ?st = "KvStore_Set ''b'' ''2'' (KvStore_Set ''a'' ''1'' KvStore_ctor)"
  have d: "distinct_keys (kv_data ?st)" and g: "(\<lambda>k. KvStore_Get k ?st) = [''a'' \<mapsto> ''1'', ''b'' \<mapsto> ''2'']"
    by (auto simp: KvStore_Set_def KvStore_ctor_def insert_or_assign_def KvStore_Get_def find_entry_def)
  have dm: "dom [''a'' \<mapsto> ''1'', ''b'' \<mapsto> ''2''] = {''a'', ''b''}" by auto
  from KvStore_refines_map [OF d visits_once_rev, of "''a''" "''3''"]
  have "KvStore_Get ''a'' (KvStore_Set ''a'' ''3'' ?st) = Some ''3''" "fst (KvStore_Delete ''a'' ?st)"
    "distinct (KvStore_AllKeys rev ?st)" "set (KvStore_AllKeys rev ?st) = dom (\<lambda>k. KvStore_Get k ?st)"
    using fun_cong [OF g, of "''a''"] by (simp_all del: not_None_eq add: fun_eq_iff)
  then show ?thesis by (simp only: Let_def g dm simp_thms)
qed

end
