(* ===== verification/PersistentKvStore.thy ===== *)
theory PersistentKvStore
  imports Wal Snapshot KvStore
begin

text \<open>
  The durable store of \<open>include/storage/persistent_kv_store.h\<close> and
  \<open>src/storage/persistent_kv_store.cpp\<close>: the sliding window that detects bursts, and the store that
  writes every change to the log before it changes the memory, takes snapshots, and recovers from
  both. The class derives from \<open>KvStore\<close>, so its record extends that one. The log and the
  snapshot writer are singletons that only this class uses, so the log is a field here.
  Each operation is one step: what can happen between the steps of two operations that run at the
  same time is not part of this theory.
\<close>

section \<open>Sliding window\<close>

record SlidingWindow =
  max_ops :: int
  window_size :: int             \<comment> \<open>milliseconds\<close>
  timestamps :: "nat list"       \<comment> \<open>nanoseconds, the newest last\<close>

definition SlidingWindow_ctor :: "int \<Rightarrow> int \<Rightarrow> SlidingWindow" where
  "SlidingWindow_ctor n ms = \<lparr>max_ops = n, window_size = ms, timestamps = []\<rparr>"

definition AddOp :: "SlidingWindow \<Rightarrow> os \<Rightarrow> SlidingWindow \<times> os" where
  "AddOp win s = (let (now, s1) = steady_now s in (win\<lparr>timestamps := timestamps win @ [now]\<rparr>, s1))"

text \<open>The counting loop, from the newest entry backwards.\<close>

fun count_recent :: "int \<Rightarrow> nat list \<Rightarrow> nat" where
  "count_recent cutoff [] = 0"
| "count_recent cutoff (t # ts) = (if int t < cutoff then 0 else Suc (count_recent cutoff ts))"

definition Window_Count :: "SlidingWindow \<Rightarrow> os \<Rightarrow> nat \<times> os" where
  "Window_Count win s =
     (let (now, s1) = steady_now s; cutoff = int now - window_size win * 1000000
      in (count_recent cutoff (rev (timestamps win)), s1))"

text \<open>\<open>static_cast<int>\<close> of a \<open>size_t\<close>.\<close>

definition size_to_int :: "nat \<Rightarrow> int" where
  "size_to_int n = sint (of_nat n :: 32 word)"

definition IsExceeded :: "SlidingWindow \<Rightarrow> os \<Rightarrow> bool \<times> os" where
  "IsExceeded win s =
     (let (now, s1) = steady_now s; cutoff = int now - window_size win * 1000000;
          count = count_recent cutoff (rev (timestamps win))
      in (max_ops win < size_to_int count, s1))"

definition Window_Clear :: "SlidingWindow \<Rightarrow> SlidingWindow" where
  "Window_Clear win = win\<lparr>timestamps := []\<rparr>"

section \<open>The store\<close>

definition kSnapshotInterval :: nat where "kSnapshotInterval = 500"
definition kBurstMaxOps :: int where "kBurstMaxOps = 100"
definition kBurstWindowMs :: int where "kBurstWindowMs = 1000"

record PersistentKvStore = KvStore +
  data_dir :: string
  pk_wal :: WAL
  op_count :: nat
  burst_window :: SlidingWindow

text \<open>The bodies of the two loops of \<open>Recover\<close>.\<close>

definition load_entry :: "flat_hash_map \<Rightarrow> string \<times> string \<Rightarrow> flat_hash_map" where
  "load_entry m e = (case e of (k, v) \<Rightarrow> insert_or_assign k v m)"

definition replay_record :: "flat_hash_map \<Rightarrow> WALRecord \<Rightarrow> flat_hash_map" where
  "replay_record m r =
     (if rec_op r = OpType_SET then insert_or_assign (rec_key r) (rec_value r) m
      else if rec_op r = OpType_DEL then snd (erase (rec_key r) m)
      else m)"

definition Recover :: "PersistentKvStore \<Rightarrow> os \<Rightarrow> unit result \<times> PersistentKvStore \<times> os" where
  "Recover st s =
     (case IsValid (data_dir st) s of
        (Inl e, s1) \<Rightarrow> (Inl e, st, s1)
      | (Inr valid, s1) \<Rightarrow>
          (case (if valid then Load (data_dir st) [] s1 else (Inr (False, []), s1)) of
             (Inl e, s2) \<Rightarrow> (Inl e, st, s2)
           | (Inr (ok, entries), s2) \<Rightarrow>
               let st1 = (if ok then st\<lparr>kv_data := foldl load_entry (kv_data st) entries\<rparr> else st)
               in (case WAL_ReadAll (pk_wal st1) s2 of
                     (Inl e, s3) \<Rightarrow> (Inl e, st1, s3)
                   | (Inr records, s3) \<Rightarrow>
                       (Inr (), st1\<lparr>kv_data := foldl replay_record (kv_data st1) records\<rparr>, s3))))"

text \<open>The constructor; \<open>w\<close> is the log singleton as it is when the store is created.\<close>

definition PersistentKvStore_ctor ::
  "string \<Rightarrow> WAL \<Rightarrow> os \<Rightarrow> unit result \<times> PersistentKvStore \<times> os" where
  "PersistentKvStore_ctor dir w s =
     (let st = \<lparr>kv_data = [], data_dir = dir, pk_wal = w, op_count = 0,
                burst_window = SlidingWindow_ctor kBurstMaxOps kBurstWindowMs\<rparr>
      in case os_create_directories dir s of
           (Inl e, s1) \<Rightarrow> (Inl e, st, s1)
         | (Inr _, s1) \<Rightarrow>
             let (w1, s2) = WAL_Init (dir @ ''/wal.log'') (WALConfig_default\<lparr>policy := NO\<rparr>) w s1
             in Recover (st\<lparr>pk_wal := w1\<rparr>) s2)"

text \<open>\<open>CreateSnapshot\<close>: the result of \<open>Create\<close> is ignored; \<open>ClearWithoutLock\<close> may throw.\<close>

definition CreateSnapshot :: "iteration \<Rightarrow> PersistentKvStore \<Rightarrow> os \<Rightarrow> unit result \<times> PersistentKvStore \<times> os" where
  "CreateSnapshot order st s =
     (let snapshot_data = order (kv_data st);
          s1 = (if snapshot_data \<noteq> [] then snd (Create (data_dir st) snapshot_data s) else s)
      in case WAL_ClearWithoutLock (pk_wal st) s1 of
           (Inl e, w, s2) \<Rightarrow> (Inl e, st\<lparr>pk_wal := w\<rparr>, s2)
         | (Inr _, w, s2) \<Rightarrow>
             (Inr (), st\<lparr>pk_wal := w, op_count := 0, burst_window := Window_Clear (burst_window st)\<rparr>, s2))"

definition CheckSnapshotTrigger :: "iteration \<Rightarrow> PersistentKvStore \<Rightarrow> os \<Rightarrow> unit result \<times> PersistentKvStore \<times> os" where
  "CheckSnapshotTrigger order st s =
     (let (exceeded, s1) = IsExceeded (burst_window st) s
      in if kSnapshotInterval \<le> op_count st \<or> exceeded then CreateSnapshot order st s1
         else (Inr (), st, s1))"

text \<open>What \<open>Set\<close> and \<open>Delete\<close> do after the memory is changed: count, note the time, check.\<close>

definition count_op :: "iteration \<Rightarrow> PersistentKvStore \<Rightarrow> os \<Rightarrow> unit result \<times> PersistentKvStore \<times> os" where
  "count_op order st s =
     (let (win, s1) = AddOp (burst_window st) s
      in CheckSnapshotTrigger order (st\<lparr>op_count := (op_count st + 1) mod 2 ^ 64, burst_window := win\<rparr>) s1)"

definition PersistentKvStore_Set ::
  "iteration \<Rightarrow> string \<Rightarrow> string \<Rightarrow> PersistentKvStore \<Rightarrow> os \<Rightarrow> unit result \<times> PersistentKvStore \<times> os" where
  "PersistentKvStore_Set order k v st s =
     (case WAL_AppendSet k v (pk_wal st) s of
        (Inl e, w, s1) \<Rightarrow> (Inl e, st\<lparr>pk_wal := w\<rparr>, s1)
      | (Inr _, w, s1) \<Rightarrow>
          count_op order (st\<lparr>pk_wal := w, kv_data := insert_or_assign k v (kv_data st)\<rparr>) s1)"

definition PersistentKvStore_Delete ::
  "iteration \<Rightarrow> string \<Rightarrow> PersistentKvStore \<Rightarrow> os \<Rightarrow> bool result \<times> PersistentKvStore \<times> os" where
  "PersistentKvStore_Delete order k st s =
     (case WAL_AppendDel k (pk_wal st) s of
        (Inl e, w, s1) \<Rightarrow> (Inl e, st\<lparr>pk_wal := w\<rparr>, s1)
      | (Inr _, w, s1) \<Rightarrow>
          let (n, m) = erase k (kv_data st);
              (r, st2, s2) = count_op order (st\<lparr>pk_wal := w, kv_data := m\<rparr>) s1
          in (rbind r (\<lambda>_. Inr (0 < n)), st2, s2))"

definition ForceSnapshot :: "iteration \<Rightarrow> PersistentKvStore \<Rightarrow> os \<Rightarrow> unit result \<times> PersistentKvStore \<times> os" where
  "ForceSnapshot order st s = CreateSnapshot order st s"



section \<open>The abstract store\<close>

text \<open>The specification: the contents are a map, changed by the operations one after the other.\<close>

datatype store_op = OpSet string string | OpDel string | OpSnapshot

fun apply_op :: "(string \<Rightarrow> string option) \<Rightarrow> store_op \<Rightarrow> (string \<Rightarrow> string option)" where
  "apply_op m (OpSet k v) = m(k \<mapsto> v)"
| "apply_op m (OpDel k) = m(k := None)"
| "apply_op m OpSnapshot = m"

definition record_op :: "WALRecord \<Rightarrow> store_op" where
  "record_op r =
     (if rec_op r = OpType_SET then OpSet (rec_key r) (rec_value r)
      else if rec_op r = OpType_DEL then OpDel (rec_key r) else OpSnapshot)"

abbreviation replay :: "(string \<Rightarrow> string option) \<Rightarrow> WALRecord list \<Rightarrow> (string \<Rightarrow> string option)" where
  "replay m rs \<equiv> foldl (\<lambda>m r. apply_op m (record_op r)) m rs"

lemma replay_record_refines:
  assumes "distinct_keys m"
  shows "distinct_keys (replay_record m r) \<and> find_entry (replay_record m r) = apply_op (find_entry m) (record_op r)"
  using assms hash_map.inv_ins hash_map.abs_ins hash_map.inv_del hash_map.abs_del
  by (simp add: replay_record_def record_op_def)

lemma foldl_replay_record:
  "distinct_keys m \<Longrightarrow> distinct_keys (foldl replay_record m rs) \<and> find_entry (foldl replay_record m rs) = replay (find_entry m) rs"
  by (induction rs arbitrary: m) (simp_all add: replay_record_refines)

lemma find_entry_Nil [simp]: "find_entry [] = (\<lambda>_. None)"
  by (simp add: find_entry_def fun_eq_iff)

lemma foldl_load_entry:
  assumes "distinct_keys es"
  shows "distinct_keys (foldl load_entry [] es) \<and> find_entry (foldl load_entry [] es) = find_entry es"
proof -
  have "load_entry = (\<lambda>m (k, v). insert_or_assign k v m)" by (simp add: load_entry_def fun_eq_iff)
  then show ?thesis
    using hash_map.abs_foldl_ins [of "[]" es] hash_map.copy_entries [OF assms, of "[]" es]
    by simp
qed




section \<open>What is on disk\<close>

definition small_op :: "store_op \<Rightarrow> bool" where
  "small_op op =
     (case op of OpSet k v \<Rightarrow> length k < 2 ^ 16 \<and> length v < 2 ^ 16 | OpDel k \<Rightarrow> length k < 2 ^ 16 | OpSnapshot \<Rightarrow> True)"

definition small_data :: "flat_hash_map \<Rightarrow> bool" where
  "small_data m \<longleftrightarrow> (\<forall>(k, v) \<in> set m. length k < 2 ^ 16 \<and> length v < 2 ^ 16)"

abbreviation wal_file :: "string \<Rightarrow> string" where
  "wal_file dir \<equiv> dir @ ''/wal.log''"

text \<open>The snapshot file holds \<open>es\<close>; no file stands for no entries.\<close>

definition snapshot_on_disk :: "string \<Rightarrow> (string \<Rightarrow> string option) \<Rightarrow> flat_hash_map \<Rightarrow> bool" where
  "snapshot_on_disk dir f es \<longleftrightarrow>
     (f (GetSnapshotPath dir) = None \<and> es = []
      \<or> f (GetSnapshotPath dir) = Some (snapshot_content es) \<and> wf_entries es \<and> distinct_keys es)"

text \<open>The log file, when it is read, gives \<open>rs\<close>.\<close>

definition log_on_disk :: "string \<Rightarrow> (string \<Rightarrow> string option) \<Rightarrow> WALRecord list \<Rightarrow> bool" where
  "log_on_disk dir f rs \<longleftrightarrow>
     parse_records (case f (wal_file dir) of None \<Rightarrow> [] | Some c \<Rightarrow> c) = Inr rs"

lemma paths_differ [simp]:
  "wal_file dir \<noteq> GetSnapshotPath dir" "wal_file dir \<noteq> tmp_of (GetSnapshotPath dir)"
  "GetSnapshotPath dir \<noteq> wal_file dir" "tmp_of (GetSnapshotPath dir) \<noteq> wal_file dir"
  by (simp_all add: GetSnapshotPath_def tmp_of_def)

text \<open>Opening a store reads the snapshot and then the log.\<close>

lemma ctor_recovers:
  assumes "snapshot_on_disk dir (files s) es" and "log_on_disk dir (files s) rs"
    and "faults s = []" and "os_wf s" and "\<not> is_open w" and "0 < max_retries w"
    and "PersistentKvStore_ctor dir w s = (res, st, s')"
  shows "res = Inr ()" and "find_entry (kv_data st) = replay (find_entry es) rs" and "distinct_keys (kv_data st)"
    and "wal_ready (pk_wal st) s' (content_of (wal_file dir) s)" and "wal_path (pk_wal st) = wal_file dir"
    and "data_dir st = dir" and "faults s' = []" and "os_wf s'"
    and "files s' (GetSnapshotPath dir) = files s (GetSnapshotPath dir)"
    and "kv_data st = foldl replay_record (foldl load_entry [] es) rs"
    and "op_count st = 0" and "burst_window st = SlidingWindow_ctor kBurstMaxOps kBurstWindowMs"
proof -
  obtain w1 s1 where i: "WAL_Init (wal_file dir) (WALConfig_default\<lparr>policy := NO\<rparr>) w s = (w1, s1)"
    by (cases "WAL_Init (wal_file dir) (WALConfig_default\<lparr>policy := NO\<rparr>) w s")
  note c = WAL_Init_closed [OF assms(5,6,3,4) _ i, simplified]
  let ?p = "GetSnapshotPath dir"
  have f1: "files s1 ?p = files s ?p" by (simp add: c(2))
  define s2 where "s2 = (if files s ?p = None then s1 else s1\<lparr>next_fd := Suc (Suc (next_fd s1))\<rparr>)"
  have wf_up: "os_wf (s1\<lparr>next_fd := Suc (next_fd s1)\<rparr>)" using c(3) by (fastforce simp: os_wf_def)
  have wf2: "os_wf s2" using c(3) by (fastforce simp: os_wf_def s2_def)
  have read: "ReadSnapshot ?p [] s1 = (Inr (files s ?p \<noteq> None, es),
        if files s ?p = None then s1 else s1\<lparr>next_fd := Suc (next_fd s1)\<rparr>)"
    "files s ?p \<noteq> None \<Longrightarrow> ReadSnapshot ?p [] (s1\<lparr>next_fd := Suc (next_fd s1)\<rparr>) = (Inr (True, es), s2)"
    using assms(1) c(4) c(3) wf_up f1 ReadSnapshot_written [of s1 ?p es] ReadSnapshot_written [of "s1\<lparr>next_fd := Suc (next_fd s1)\<rparr>" ?p es]
    by (auto simp: snapshot_on_disk_def ReadSnapshot_calm s2_def)
  have ready: "wal_ready w1 s2 (content_of (wal_file dir) s)"
    using c(1) by (simp add: s2_def wal_ready_def)
  have "content_of (wal_file dir) s = (case files s (wal_file dir) of None \<Rightarrow> [] | Some c \<Rightarrow> c)"
    by (simp add: content_of_def)
  then have "WAL_ReadAll w1 s2 = (Inr rs, s2)"
    using WAL_ReadAll_ready [OF ready] assms(2) c(4) by (simp add: s2_def log_on_disk_def)
  then have run: "res = Inr ()" "s' = s2" "data_dir st = dir" "pk_wal st = w1"
    "op_count st = 0" "burst_window st = SlidingWindow_ctor kBurstMaxOps kBurstWindowMs"
    "kv_data st = foldl replay_record (foldl load_entry [] (if files s ?p = None then [] else es)) rs"
    using assms(3,7) read
    by (auto simp: PersistentKvStore_ctor_def os_create_directories_def i Recover_def IsValid_def Load_def Let_def s2_def
        split: if_splits)
  have es: "(if files s ?p = None then [] else es) = es" using assms(1) by (auto simp: snapshot_on_disk_def)
  have d: "distinct_keys es" using assms(1) by (auto simp: snapshot_on_disk_def)
  show "res = Inr ()" "data_dir st = dir" "kv_data st = foldl replay_record (foldl load_entry [] es) rs"
    "op_count st = 0" "burst_window st = SlidingWindow_ctor kBurstMaxOps kBurstWindowMs"
    using run es by simp_all
  then show "find_entry (kv_data st) = replay (find_entry es) rs" "distinct_keys (kv_data st)"
    using foldl_load_entry [OF d] foldl_replay_record [of "foldl load_entry [] es" rs] by simp_all
  show "wal_ready (pk_wal st) s' (content_of (wal_file dir) s)" "wal_path (pk_wal st) = wal_file dir"
    "faults s' = []" "os_wf s'" "files s' ?p = files s ?p"
    using ready c(4,7) wf2 f1 run by (simp_all add: s2_def)
qed

section \<open>The invariant\<close>

text \<open>
  The log is open and holds complete records only, the snapshot file is absent or valid, and the two
  together give the contents of the memory.
\<close>

definition consistent :: "PersistentKvStore \<Rightarrow> os \<Rightarrow> flat_hash_map \<Rightarrow> WALRecord list \<Rightarrow> bool" where
  "consistent st s es rs \<longleftrightarrow>
     distinct_keys (kv_data st) \<and> small_data (kv_data st) \<and> os_wf s
     \<and> wal_path (pk_wal st) = wal_file (data_dir st)
     \<and> wal_ready (pk_wal st) s (concat (map WALRecord_Serialize rs)) \<and> (\<forall>r \<in> set rs. wf_record r)
     \<and> snapshot_on_disk (data_dir st) (files s) es
     \<and> find_entry (kv_data st) = replay (find_entry es) rs"

lemma consistentD:
  assumes "consistent st s es rs"
  shows "distinct_keys (kv_data st)" "small_data (kv_data st)" "os_wf s"
    "wal_path (pk_wal st) = wal_file (data_dir st)"
    "wal_ready (pk_wal st) s (concat (map WALRecord_Serialize rs))" "\<forall>r \<in> set rs. wf_record r"
    "snapshot_on_disk (data_dir st) (files s) es" "find_entry (kv_data st) = replay (find_entry es) rs"
  using assms by (simp_all add: consistent_def)

lemma consistent_log:
  assumes "consistent st s es rs"
  shows "log_on_disk (data_dir st) (files s) rs"
  using wal_readyD(4) [OF consistentD(5) [OF assms]] consistentD(4) [OF assms]
    wal_log.parse_log [OF consistentD(6) [OF assms]]
  by (simp add: log_on_disk_def)

text \<open>The clock and the counters are not part of it.\<close>

lemma consistent_clock [simp]: "consistent st (s\<lparr>clock := c, ticks := ts\<rparr>) es rs = consistent st s es rs"
  by (simp add: consistent_def os_wf_def wal_ready_def)

lemma consistent_counters [simp]:
  "consistent (st\<lparr>op_count := n, burst_window := win\<rparr>) s es rs = consistent st s es rs"
  by (simp add: consistent_def)

lemma steady_now_frame:
  "steady_now s = (n, s1) \<Longrightarrow> \<exists>c ts. s1 = s\<lparr>clock := c, ticks := ts\<rparr>"
  by (auto simp: steady_now_def split: list.splits) (metis os.surjective os.update_convs(6,7))

lemma small_data_update: "small_data m \<Longrightarrow> length k < 2 ^ 16 \<Longrightarrow> length v < 2 ^ 16 \<Longrightarrow> small_data (insert_or_assign k v m)"
  by (induction m) (auto simp: small_data_def insert_or_assign_def)

lemma small_data_erase: "small_data m \<Longrightarrow> small_data (snd (erase k m))"
  by (auto simp: small_data_def erase_def AList.delete_eq)

lemma length_update: "length (insert_or_assign k v m) \<le> Suc (length m)"
  by (induction m) (auto simp: insert_or_assign_def)

lemma length_erase: "length (snd (erase k m)) \<le> length m"
  by (simp add: erase_def AList.delete_eq)

text \<open>Appending a record and applying it to the memory keeps the invariant.\<close>

lemma consistent_append:
  assumes "consistent st s es rs" and "faults s = []" and "wf_record r"
    and "WAL_Append r (pk_wal st) s = (res, w, s1)"
    and "distinct_keys m" and "small_data m" and "find_entry m = apply_op (find_entry (kv_data st)) (record_op r)"
  shows "res = Inr ()" and "consistent (st\<lparr>pk_wal := w, kv_data := m\<rparr>) s1 es (rs @ [r])" and "faults s1 = []"
proof -
  note c = consistentD [OF assms(1)]
  note a = WAL_Append_ready [OF c(5) assms(2,4)]
  show "res = Inr ()" "faults s1 = []" by (rule a)+
  have "files s1 (GetSnapshotPath (data_dir st)) = files s (GetSnapshotPath (data_dir st))"
    by (simp add: a(3) c(4))
  then have "snapshot_on_disk (data_dir st) (files s1) es"
    using c(7) by (simp add: snapshot_on_disk_def)
  then show "consistent (st\<lparr>pk_wal := w, kv_data := m\<rparr>) s1 es (rs @ [r])"
    using a(2,8) a(10) [OF c(3)] c assms(3,5-7) by (simp add: consistent_def)
qed

text \<open>A snapshot makes the disk agree with the memory, unless the store is empty while an older snapshot
  exists. The disk may have been that of a store with another memory \<open>mv\<close>.\<close>

lemma CreateSnapshot_catches_up:
  assumes "visits_once order" and "consistent (st\<lparr>kv_data := mv\<rparr>) s es rs" and "faults s = []"
    and "length (kv_data st) < 2 ^ 32" and "kv_data st \<noteq> [] \<or> files s (GetSnapshotPath (data_dir st)) = None"
    and "distinct_keys (kv_data st)" and "small_data (kv_data st)"
    and "CreateSnapshot order st s = (res, st', s')"
  shows "res = Inr ()" and "\<exists>es'. consistent st' s' es' []" and "faults s' = []"
    and "kv_data st' = kv_data st" and "data_dir st' = data_dir st" and "op_count st' = 0"
    and "burst_window st' = Window_Clear (burst_window st)"
proof -
  note c = assms(6,7) consistentD(3-8) [OF assms(2), simplified]
  let ?es = "order (kv_data st)" and ?p = "GetSnapshotPath (data_dir st)"
  define s1 where "s1 = (if ?es \<noteq> [] then snd (Create (data_dir st) ?es s) else s)"
  have mset: "mset ?es = mset (kv_data st)" by (rule visits_onceD [OF assms(1)])
  have len: "length ?es = length (kv_data st)" by (rule visits_once_length [OF assms(1)])
  have wf: "wf_entries ?es"
    using c(2) assms(4) mset_eq_setD [OF mset] len by (simp add: wf_entries_def small_data_def)
  obtain ok s0 where w: "WriteSnapshot ?p ?es s = (ok, s0)" by (cases "WriteSnapshot ?p ?es s")
  note wr = WriteSnapshot_calm [OF assms(3) c(3) w]
  have s1: "s1 = (if ?es \<noteq> [] then s0 else s)" by (simp add: s1_def Create_def w)
  have disk: "snapshot_on_disk (data_dir st) (files s1) ?es"
  proof (cases "?es = []")
    case True
    with assms(5) len show ?thesis by (simp add: s1 snapshot_on_disk_def)
  next
    case False
    then show ?thesis using wf find_entry_order(2) [OF assms(1) c(1)]
      by (simp add: s1 snapshot_on_disk_def wr(2))
  qed
  have ready: "wal_ready (pk_wal st) s1 (concat (map WALRecord_Serialize rs))"
    using c(4,5) wr(2,3) by (simp add: s1 wal_ready_def)
  have calm: "faults s1 = []" "os_wf s1" using assms(3) c(3) wr(4,7) by (simp_all add: s1)
  obtain r w1 s2 where cl: "WAL_ClearWithoutLock (pk_wal st) s1 = (r, w1, s2)"
    by (cases "WAL_ClearWithoutLock (pk_wal st) s1") auto
  note clr = WAL_Clear_ready [OF ready calm cl]
  have run: "res = Inr ()" "s' = s2" "st' = st\<lparr>pk_wal := w1, op_count := 0, burst_window := Window_Clear (burst_window st)\<rparr>"
    using assms(8) clr(1) by (simp_all add: CreateSnapshot_def s1_def [symmetric] cl Let_def)
  have "snapshot_on_disk (data_dir st) (files s2) ?es"
    using disk c(4) by (simp add: snapshot_on_disk_def clr(3))
  then have "consistent st' s' ?es []"
    using c clr(2,4,8) find_entry_order(1) [OF assms(1) c(1)] by (simp add: run consistent_def)
  then show "\<exists>es'. consistent st' s' es' []" ..
  show "res = Inr ()" "faults s' = []" "kv_data st' = kv_data st" "data_dir st' = data_dir st" "op_count st' = 0"
    "burst_window st' = Window_Clear (burst_window st)"
    using clr(5) by (simp_all add: run)
qed

lemma consistent_CreateSnapshot:
  assumes "visits_once order" and "consistent st s es rs" and "faults s = []" and "length (kv_data st) < 2 ^ 32"
    and "kv_data st \<noteq> [] \<or> files s (GetSnapshotPath (data_dir st)) = None"
    and "CreateSnapshot order st s = (res, st', s')"
  shows "res = Inr ()" and "\<exists>es'. consistent st' s' es' []" and "faults s' = []"
    and "kv_data st' = kv_data st" and "data_dir st' = data_dir st"
proof -
  have "consistent (st\<lparr>kv_data := kv_data st\<rparr>) s es rs" using assms(2) by simp
  from CreateSnapshot_catches_up [OF assms(1) this assms(3-5) consistentD(1,2) [OF assms(2)] assms(6)]
  show "res = Inr ()" "\<exists>es'. consistent st' s' es' []" "faults s' = []" "kv_data st' = kv_data st" "data_dir st' = data_dir st"
    by simp_all
qed

text \<open>The end of \<open>Set\<close> and \<open>Delete\<close>, by cases: what it does to counters and clock, and then either a
  snapshot or nothing.\<close>

lemma count_recent_le: "count_recent cutoff ts \<le> length ts"
  by (induction ts) auto

abbreviation counted :: "PersistentKvStore \<Rightarrow> SlidingWindow \<Rightarrow> PersistentKvStore" where
  "counted st win \<equiv> st\<lparr>op_count := (op_count st + 1) mod 2 ^ 64, burst_window := win\<rparr>"

lemma count_op_cases:
  assumes "count_op order st s = (res, st', s')"
  shows "\<exists>n win c ts.
     length (timestamps win) = Suc (length (timestamps (burst_window st))) \<and> max_ops win = max_ops (burst_window st)
     \<and> n \<le> length (timestamps win)
     \<and> ((kSnapshotInterval \<le> op_count (counted st win) \<or> max_ops win < size_to_int n)
          \<and> CreateSnapshot order (counted st win) (s\<lparr>clock := c, ticks := ts\<rparr>) = (res, st', s')
        \<or> op_count (counted st win) < kSnapshotInterval
          \<and> (res, st', s') = (Inr (), counted st win, s\<lparr>clock := c, ticks := ts\<rparr>))"
proof -
  obtain t s1 where t: "steady_now s = (t, s1)" by (cases "steady_now s")
  obtain t2 s2 where t2: "steady_now s1 = (t2, s2)" by (cases "steady_now s1")
  obtain c1 ts1 where s1: "s1 = s\<lparr>clock := c1, ticks := ts1\<rparr>" using steady_now_frame [OF t] by blast
  obtain c2 ts2 where s2: "s2 = s1\<lparr>clock := c2, ticks := ts2\<rparr>" using steady_now_frame [OF t2] by blast
  have s2': "s2 = s\<lparr>clock := c2, ticks := ts2\<rparr>" by (simp add: s1 s2)
  define win where "win = (burst_window st)\<lparr>timestamps := timestamps (burst_window st) @ [t]\<rparr>"
  define n where "n = count_recent (int t2 - window_size win * 1000000) (rev (timestamps win))"
  have "n \<le> length (timestamps win)" unfolding n_def using count_recent_le [of _ "rev (timestamps win)"] by simp
  then show ?thesis
    using assms
    by (intro exI [of _ n] exI [of _ win] exI [of _ c2] exI [of _ ts2])
       (auto simp: count_op_def AddOp_def t CheckSnapshotTrigger_def IsExceeded_def t2 Let_def s2' win_def n_def not_le split: if_splits)
qed

text \<open>The counters: the operations since the last snapshot are the records of the log.\<close>

definition tracked :: "PersistentKvStore \<Rightarrow> WALRecord list \<Rightarrow> bool" where
  "tracked st rs \<longleftrightarrow> length rs = op_count st \<and> length (timestamps (burst_window st)) = op_count st
     \<and> op_count st < kSnapshotInterval \<and> max_ops (burst_window st) = kBurstMaxOps"

lemma size_to_int: "n < 2 ^ 31 \<Longrightarrow> size_to_int n = int n"
  by (simp add: size_to_int_def signed_of_nat signed_take_bit_int_eq_self)

lemma consistent_count_op:
  assumes "visits_once order" and "consistent st s es rs" and "faults s = []" and "length (kv_data st) < 2 ^ 32"
    and "kv_data st \<noteq> [] \<or> files s (GetSnapshotPath (data_dir st)) = None"
    and "tracked st rs0" and "length rs = Suc (length rs0)"
    and "count_op order st s = (res, st', s')"
  shows "res = Inr () \<and> faults s' = [] \<and> kv_data st' = kv_data st \<and> data_dir st' = data_dir st
     \<and> (\<exists>es' rs'. consistent st' s' es' rs' \<and> tracked st' rs' \<and> (length rs \<le> 100 \<longrightarrow> es' = es \<and> rs' = rs))"
proof -
  from count_op_cases [OF assms(8)] obtain n win c ts where
    win: "length (timestamps win) = Suc (length (timestamps (burst_window st)))" "max_ops win = max_ops (burst_window st)"
      "n \<le> length (timestamps win)"
    and or: "(kSnapshotInterval \<le> op_count (counted st win) \<or> max_ops win < size_to_int n)
          \<and> CreateSnapshot order (counted st win) (s\<lparr>clock := c, ticks := ts\<rparr>) = (res, st', s')
        \<or> op_count (counted st win) < kSnapshotInterval
          \<and> (res, st', s') = (Inr (), counted st win, s\<lparr>clock := c, ticks := ts\<rparr>)"
    by blast
  let ?st = "counted st win" and ?s = "s\<lparr>clock := c, ticks := ts\<rparr>"
  have tr: "length rs0 = op_count st" "length (timestamps (burst_window st)) = op_count st" "op_count st < 500"
    "max_ops (burst_window st) = 100"
    using assms(6) by (simp_all add: tracked_def kSnapshotInterval_def kBurstMaxOps_def)
  have c1: "consistent ?st ?s es rs" "faults ?s = []" using assms(2,3) by simp_all
  from or show ?thesis
  proof
    assume "(kSnapshotInterval \<le> op_count ?st \<or> max_ops win < size_to_int n) \<and> CreateSnapshot order ?st ?s = (res, st', s')"
    then have big: "kSnapshotInterval \<le> op_count ?st \<or> max_ops win < size_to_int n"
      and snap: "CreateSnapshot order ?st ?s = (res, st', s')" by blast+
    have "100 < length rs"
      using big win tr assms(7) by (auto simp: kSnapshotInterval_def size_to_int)
    moreover have "tracked st' []"
      using snap tr(4) win(2) consistent_CreateSnapshot(1) [OF assms(1) c1 _ _ snap] assms(4,5)
      by (auto simp: CreateSnapshot_def tracked_def Window_Clear_def kSnapshotInterval_def kBurstMaxOps_def Let_def
          split: prod.splits sum.splits)
    ultimately show ?thesis
      using consistent_CreateSnapshot [OF assms(1) c1 _ _ snap] assms(4,5) by auto
  next
    assume "op_count ?st < kSnapshotInterval \<and> (res, st', s') = (Inr (), ?st, ?s)"
    moreover from this have "tracked ?st rs"
      using tr win assms(7) by (simp add: tracked_def kBurstMaxOps_def)
    ultimately show ?thesis using c1 by auto
  qed
qed

section \<open>Operations keep the invariant\<close>

text \<open>\<open>ok_store\<close>: the invariant for some snapshot and log, and room for \<open>n\<close> more entries.\<close>

definition ok_store :: "nat \<Rightarrow> PersistentKvStore \<Rightarrow> os \<Rightarrow> bool" where
  "ok_store n st s \<longleftrightarrow> (\<exists>es rs. consistent st s es rs \<and> tracked st rs) \<and> faults s = [] \<and> length (kv_data st) + n < 2 ^ 32"

lemma Set_consistent:
  assumes "visits_once order" and c: "consistent st s es rs" and tr: "tracked st rs" and f: "faults s = []"
    and n: "Suc (length (kv_data st)) < 2 ^ 32" and "length k < 2 ^ 16" and "length v < 2 ^ 16"
    and "PersistentKvStore_Set order k v st s = (res, st', s')"
  shows "res = Inr () \<and> faults s' = [] \<and> length (kv_data st') \<le> Suc (length (kv_data st)) \<and> data_dir st' = data_dir st
     \<and> find_entry (kv_data st') = (find_entry (kv_data st))(k \<mapsto> v)
     \<and> (\<exists>es' rs'. consistent st' s' es' rs' \<and> tracked st' rs'
          \<and> (length rs < 100 \<longrightarrow> es' = es \<and> rs' = rs @ [\<lparr>rec_op = OpType_SET, rec_key = k, rec_value = v\<rparr>]))"
proof -
  let ?r = "\<lparr>rec_op = OpType_SET, rec_key = k, rec_value = v\<rparr>" and ?m = "insert_or_assign k v (kv_data st)"
  obtain r w s1 where a: "WAL_Append ?r (pk_wal st) s = (r, w, s1)" by (cases "WAL_Append ?r (pk_wal st) s") auto
  have m: "distinct_keys ?m" "small_data ?m" "find_entry ?m = (find_entry (kv_data st))(k \<mapsto> v)"
    using consistentD(1,2) [OF c] assms(6,7) hash_map.inv_ins hash_map.abs_ins small_data_update by simp_all
  have "wf_record ?r" using assms(6,7) by (simp add: wf_record_def)
  note app = consistent_append [OF c f this a m(1,2)]
  have len: "length ?m \<le> Suc (length (kv_data st))" by (rule length_update)
  have ne: "?m \<noteq> []" by (simp add: insert_or_assign_def update_nonempty)
  let ?st = "st\<lparr>pk_wal := w, kv_data := ?m\<rparr>"
  have c1: "consistent ?st s1 es (rs @ [?r])" "faults s1 = []" "r = Inr ()"
    using app m(3) by (simp_all add: record_op_def)
  have tr1: "tracked ?st rs" using tr by (simp add: tracked_def)
  from assms(8) a c1(3) have co: "count_op order ?st s1 = (res, st', s')"
    by (simp add: PersistentKvStore_Set_def WAL_AppendSet_def)
  show ?thesis
    using consistent_count_op [OF assms(1) c1(1,2) _ _ tr1 _ co] ne len n m(3) by fastforce
qed

lemma Set_ok:
  assumes "visits_once order" and "ok_store (Suc n) st s" and "length k < 2 ^ 16" and "length v < 2 ^ 16"
    and "PersistentKvStore_Set order k v st s = (res, st', s')"
  shows "res = Inr () \<and> ok_store n st' s' \<and> data_dir st' = data_dir st
     \<and> find_entry (kv_data st') = (find_entry (kv_data st))(k \<mapsto> v)"
proof -
  from assms(2) obtain es rs where c: "consistent st s es rs" and tr: "tracked st rs" and f: "faults s = []"
    and n: "length (kv_data st) + Suc n < 2 ^ 32" by (auto simp: ok_store_def)
  from Set_consistent [OF assms(1) c tr f _ assms(3-5)] n show ?thesis by (auto simp: ok_store_def)
qed

lemma Delete_ok:
  assumes "visits_once order" and "ok_store n st s" and "length k < 2 ^ 16"
    and "(find_entry (kv_data st))(k := None) \<noteq> (\<lambda>_. None) \<or> files s (GetSnapshotPath (data_dir st)) = None"
    and "PersistentKvStore_Delete order k st s = (res, st', s')"
  shows "res = Inr (find_entry (kv_data st) k \<noteq> None) \<and> ok_store n st' s' \<and> data_dir st' = data_dir st
     \<and> find_entry (kv_data st') = (find_entry (kv_data st))(k := None)"
proof -
  from assms(2) obtain es rs where c: "consistent st s es rs" and tr: "tracked st rs" and f: "faults s = []"
    and n: "length (kv_data st) + n < 2 ^ 32" by (auto simp: ok_store_def)
  let ?r = "\<lparr>rec_op = OpType_DEL, rec_key = k, rec_value = []\<rparr>" and ?m = "snd (erase k (kv_data st))"
  obtain r w s1 where a: "WAL_Append ?r (pk_wal st) s = (r, w, s1)" by (cases "WAL_Append ?r (pk_wal st) s") auto
  have d: "distinct_keys (kv_data st)" by (rule consistentD(1) [OF c])
  have m: "distinct_keys ?m" "small_data ?m" "find_entry ?m = (find_entry (kv_data st))(k := None)"
    using d consistentD(2) [OF c] hash_map.inv_del hash_map.abs_del small_data_erase by simp_all
  have "wf_record ?r" using assms(3) by (simp add: wf_record_def)
  note app = consistent_append [OF c f this a m(1,2)]
  let ?st = "st\<lparr>pk_wal := w, kv_data := ?m\<rparr>"
  have c1: "consistent ?st s1 es (rs @ [?r])" "faults s1 = []" "r = Inr ()"
    using app m(3) by (simp_all add: record_op_def OpType_SET_def OpType_DEL_def)
  obtain r2 st2 s2 where co: "count_op order ?st s1 = (r2, st2, s2)" by (cases "count_op order ?st s1") auto
  have "files s1 (GetSnapshotPath (data_dir st)) = files s (GetSnapshotPath (data_dir st))"
    using WAL_Append_ready(3) [OF consistentD(5) [OF c] f a] consistentD(4) [OF c] by simp
  then have "?m \<noteq> [] \<or> files s1 (GetSnapshotPath (data_dir st)) = None"
    using assms(4) m(3) by (metis find_entry_Nil)
  moreover have "tracked ?st rs" using tr by (simp add: tracked_def)
  ultimately have q: "r2 = Inr () \<and> (\<exists>es' rs'. consistent st2 s2 es' rs' \<and> tracked st2 rs') \<and> faults s2 = []
      \<and> kv_data st2 = ?m \<and> data_dir st2 = data_dir st"
    using consistent_count_op [OF assms(1) c1(1,2) _ _ _ _ co, of rs] length_erase [of k "kv_data st"] n by auto
  have "0 < fst (erase k (kv_data st)) \<longleftrightarrow> find_entry (kv_data st) k \<noteq> None"
    using hash_map.del_count [OF d, of k] by simp
  then have "res = Inr (find_entry (kv_data st) k \<noteq> None)" "st' = st2" "s' = s2"
    using assms(5) a c1(3) co q
    by (auto simp: PersistentKvStore_Delete_def WAL_AppendDel_def case_prod_beta Let_def)
  with q m(3) length_erase [of k "kv_data st"] n show ?thesis by (auto simp: ok_store_def)
qed

lemma ForceSnapshot_ok:
  assumes "visits_once order" and "ok_store n st s"
    and "find_entry (kv_data st) \<noteq> (\<lambda>_. None) \<or> files s (GetSnapshotPath (data_dir st)) = None"
    and "ForceSnapshot order st s = (res, st', s')"
  shows "res = Inr () \<and> ok_store n st' s' \<and> data_dir st' = data_dir st
     \<and> find_entry (kv_data st') = find_entry (kv_data st)"
proof -
  from assms(2) obtain es rs where c: "consistent st s es rs" and tr: "tracked st rs" and f: "faults s = []"
    and n: "length (kv_data st) + n < 2 ^ 32" by (auto simp: ok_store_def)
  have "kv_data st \<noteq> [] \<or> files s (GetSnapshotPath (data_dir st)) = None" using assms(3) by auto
  note q = consistent_CreateSnapshot [OF assms(1) c f _ this assms(4) [unfolded ForceSnapshot_def]]
  have "tracked st' []"
    using assms(4) q(1) n tr by (auto simp: ForceSnapshot_def CreateSnapshot_def tracked_def Window_Clear_def Let_def
        split: prod.splits sum.splits)
  with q n show ?thesis by (auto simp: ok_store_def)
qed

section \<open>Sequences of operations\<close>

definition run_op :: "iteration \<Rightarrow> store_op \<Rightarrow> PersistentKvStore \<Rightarrow> os \<Rightarrow> unit result \<times> PersistentKvStore \<times> os" where
  "run_op order op st s =
     (case op of
        OpSet k v \<Rightarrow> PersistentKvStore_Set order k v st s
      | OpDel k \<Rightarrow> (case PersistentKvStore_Delete order k st s of (r, st', s') \<Rightarrow> (rbind r (\<lambda>_. Inr ()), st', s'))
      | OpSnapshot \<Rightarrow> ForceSnapshot order st s)"

fun run_ops :: "iteration \<Rightarrow> store_op list \<Rightarrow> PersistentKvStore \<Rightarrow> os \<Rightarrow> unit result \<times> PersistentKvStore \<times> os" where
  "run_ops order [] st s = (Inr (), st, s)"
| "run_ops order (op # ops) st s =
     (case run_op order op st s of
        (Inl e, st', s') \<Rightarrow> (Inl e, st', s')
      | (Inr _, st', s') \<Rightarrow> run_ops order ops st' s')"

text \<open>No operation leaves the store empty.\<close>

fun never_emptied :: "(string \<Rightarrow> string option) \<Rightarrow> store_op list \<Rightarrow> bool" where
  "never_emptied m [] \<longleftrightarrow> True"
| "never_emptied m (op # ops) \<longleftrightarrow> apply_op m op \<noteq> (\<lambda>_. None) \<and> never_emptied (apply_op m op) ops"

lemma run_op_ok:
  assumes "visits_once order" and "ok_store (Suc n) st s" and "small_op op"
    and "apply_op (find_entry (kv_data st)) op \<noteq> (\<lambda>_. None)" and "run_op order op st s = (res, st', s')"
  shows "res = Inr () \<and> ok_store n st' s' \<and> data_dir st' = data_dir st
     \<and> find_entry (kv_data st') = apply_op (find_entry (kv_data st)) op"
proof -
  have n: "ok_store n st s" using assms(2) by (auto simp: ok_store_def)
  show ?thesis
  proof (cases op)
    case (OpSet k v)
    with Set_ok [OF assms(1,2), of k v] assms(3,5) show ?thesis by (simp add: run_op_def small_op_def)
  next
    case (OpDel k)
    obtain r st1 s1 where d: "PersistentKvStore_Delete order k st s = (r, st1, s1)"
      by (cases "PersistentKvStore_Delete order k st s") auto
    with Delete_ok [OF assms(1) n _ _ d] assms(3,4,5) OpDel show ?thesis by (auto simp: run_op_def small_op_def)
  next
    case OpSnapshot
    with ForceSnapshot_ok [OF assms(1) n] assms(4,5) show ?thesis by (simp add: run_op_def)
  qed
qed

lemma run_ops_ok:
  assumes "visits_once order" and "ok_store (length ops) st s" and "\<forall>op \<in> set ops. small_op op"
    and "never_emptied (find_entry (kv_data st)) ops" and "run_ops order ops st s = (res, st', s')"
  shows "res = Inr () \<and> ok_store 0 st' s' \<and> data_dir st' = data_dir st
     \<and> find_entry (kv_data st') = foldl apply_op (find_entry (kv_data st)) ops"
  using assms(2-5)
proof (induction ops arbitrary: st s)
  case Nil
  then show ?case by simp
next
  case (Cons op ops)
  obtain r st1 s1 where r: "run_op order op st s = (r, st1, s1)" by (cases "run_op order op st s") auto
  have q: "r = Inr () \<and> ok_store (length ops) st1 s1 \<and> data_dir st1 = data_dir st
     \<and> find_entry (kv_data st1) = apply_op (find_entry (kv_data st)) op"
    using run_op_ok [OF assms(1) _ _ _ r] Cons.prems by simp
  with Cons.IH [of st1 s1] Cons.prems r show ?case by simp
qed

text \<open>Opening a store in a directory without files, and reopening one.\<close>

lemma ctor_fresh:
  assumes "faults s = []" and "os_wf s" and "files s (wal_file dir) = None" and "files s (GetSnapshotPath dir) = None"
    and "PersistentKvStore_ctor dir WAL_ctor s = (res, st, s')"
  shows "res = Inr ()" and "kv_data st = []" and "consistent st s' [] []" and "faults s' = []" and "data_dir st = dir"
    and "tracked st []"
proof -
  have "snapshot_on_disk dir (files s) []" "log_on_disk dir (files s) []"
    using assms(3,4) by (simp_all add: snapshot_on_disk_def log_on_disk_def parse_records.simps)
  note c = ctor_recovers [OF this assms(1,2) _ _ assms(5)]
  show "res = Inr ()" "kv_data st = []" "faults s' = []" "data_dir st = dir"
    using c(1,10,7,6) by (simp_all add: WAL_ctor_def)
  show "tracked st []"
    using c(11,12) by (simp add: WAL_ctor_def tracked_def SlidingWindow_ctor_def kSnapshotInterval_def)
  from \<open>kv_data st = []\<close> \<open>data_dir st = dir\<close> show "consistent st s' [] []"
    using c(4,5,8,9) assms(3,4)
    by (simp add: consistent_def WAL_ctor_def small_data_def snapshot_on_disk_def content_of_def)
qed

lemma ctor_reopens:
  assumes "consistent st s es rs" and "faults s = []"
    and "PersistentKvStore_ctor (data_dir st) WAL_ctor (os_exit s) = (res, st2, s2)"
  shows "res = Inr ()" and "find_entry (kv_data st2) = find_entry (kv_data st)"
proof -
  have "snapshot_on_disk (data_dir st) (files (os_exit s)) es" using consistentD(7) [OF assms(1)] by simp
  moreover have "log_on_disk (data_dir st) (files (os_exit s)) rs" using consistent_log [OF assms(1)] by simp
  ultimately show "res = Inr ()" "find_entry (kv_data st2) = find_entry (kv_data st)"
    using ctor_recovers(1,2) [of "data_dir st" "os_exit s" es rs WAL_ctor] assms(2,3) consistentD(8) [OF assms(1)]
    by (simp_all add: WAL_ctor_def)
qed

text \<open>A store that was opened in a directory without files and has run \<open>ops\<close>.\<close>

definition fresh_run :: "iteration \<Rightarrow> string \<Rightarrow> store_op list \<Rightarrow> PersistentKvStore \<Rightarrow> os \<Rightarrow> bool" where
  "fresh_run order dir ops st s \<longleftrightarrow>
     (\<exists>s0 st0 s1. faults s0 = [] \<and> os_wf s0 \<and> files s0 (wal_file dir) = None \<and> files s0 (GetSnapshotPath dir) = None
        \<and> PersistentKvStore_ctor dir WAL_ctor s0 = (Inr (), st0, s1) \<and> run_ops order ops st0 s1 = (Inr (), st, s))"

definition good_ops :: "store_op list \<Rightarrow> bool" where
  "good_ops ops \<longleftrightarrow> (\<forall>op \<in> set ops. small_op op) \<and> length ops < 2 ^ 32 \<and> never_emptied (\<lambda>_. None) ops"

abbreviation contents :: "store_op list \<Rightarrow> string \<Rightarrow> string option" where
  "contents ops \<equiv> foldl apply_op (\<lambda>_. None) ops"

lemma fresh_run_ok:
  assumes "visits_once order" and "good_ops ops" and "fresh_run order dir ops st s"
  shows "ok_store 0 st s" and "data_dir st = dir" and "find_entry (kv_data st) = contents ops"
proof -
  from assms(3) obtain s0 st0 s1 where f: "faults s0 = []" "os_wf s0" "files s0 (wal_file dir) = None"
    "files s0 (GetSnapshotPath dir) = None" "PersistentKvStore_ctor dir WAL_ctor s0 = (Inr (), st0, s1)"
    and r: "run_ops order ops st0 s1 = (Inr (), st, s)" by (auto simp: fresh_run_def)
  note c = ctor_fresh [OF f]
  have "ok_store (length ops) st0 s1" using c assms(2) by (auto simp: ok_store_def good_ops_def)
  from run_ops_ok [OF assms(1) this _ _ r] assms(2) c(2,5)
  show "ok_store 0 st s" "data_dir st = dir" "find_entry (kv_data st) = contents ops"
    by (simp_all add: good_ops_def)
qed

lemma fresh_run_exists:
  assumes "visits_once order" and "good_ops ops"
  shows "\<exists>st s. fresh_run order dir ops st s"
proof -
  obtain r st0 s1 where c: "PersistentKvStore_ctor dir WAL_ctor os_start = (r, st0, s1)"
    by (cases "PersistentKvStore_ctor dir WAL_ctor os_start") auto
  have e: "files os_start p = None" for p by (simp add: os_start_def)
  note cf = ctor_fresh [OF faults_start os_wf_start e e c]
  have ok: "ok_store (length ops) st0 s1" using cf assms(2) by (auto simp: ok_store_def good_ops_def)
  obtain r1 st s where r: "run_ops order ops st0 s1 = (r1, st, s)" by (cases "run_ops order ops st0 s1") auto
  have "r1 = Inr ()" using run_ops_ok [OF assms(1) ok _ _ r] assms(2) cf(2) by (simp add: good_ops_def)
  with c r e cf(1) have "fresh_run order dir ops st s"
    unfolding fresh_run_def by (intro exI [of _ os_start] exI [of _ st0] exI [of _ s1]) simp
  then show ?thesis by blast
qed

text \<open>Right after a snapshot the log is empty.\<close>

lemma run_ops_append:
  "run_ops order (xs @ ys) st s = (case run_ops order xs st s of
     (Inl e, st', s') \<Rightarrow> (Inl e, st', s') | (Inr _, st', s') \<Rightarrow> run_ops order ys st' s')"
  by (induction xs arbitrary: st s) (auto split: prod.splits sum.splits)

lemma run_ops_snoc:
  "run_ops order (ops @ [op]) st s = (Inr (), st', s') \<Longrightarrow>
     \<exists>st1 s1. run_ops order ops st s = (Inr (), st1, s1) \<and> run_op order op st1 s1 = (Inr (), st', s')"
  by (auto simp: run_ops_append split: prod.splits sum.splits)

lemma fresh_run_snoc:
  assumes "fresh_run order dir (ops @ [op]) st s"
  shows "\<exists>st1 s1. fresh_run order dir ops st1 s1 \<and> run_op order op st1 s1 = (Inr (), st, s)"
  using assms run_ops_snoc unfolding fresh_run_def by meson

lemma never_emptied_append:
  "never_emptied m (xs @ ys) \<longleftrightarrow> never_emptied m xs \<and> never_emptied (foldl apply_op m xs) ys"
  by (induction xs arbitrary: m) simp_all

lemma fresh_run_last_snapshot:
  assumes "visits_once order" and "good_ops (ops @ [OpSnapshot])" and "fresh_run order dir (ops @ [OpSnapshot]) st s"
  shows "\<exists>es. consistent st s es []"
proof -
  from assms(3) obtain st1 s1 where r: "fresh_run order dir ops st1 s1" "ForceSnapshot order st1 s1 = (Inr (), st, s)"
    using fresh_run_snoc [OF assms(3)] by (auto simp: run_op_def)
  have g: "good_ops ops" using assms(2) by (simp add: good_ops_def never_emptied_append)
  note f = fresh_run_ok [OF assms(1) g r(1)]
  from f(1) obtain es rs where c: "consistent st1 s1 es rs" "faults s1 = []" "length (kv_data st1) < 2 ^ 32"
    by (auto simp: ok_store_def)
  have "find_entry (kv_data st1) \<noteq> (\<lambda>_. None)"
    using assms(2) f(3) by (simp add: good_ops_def never_emptied_append)
  then have "kv_data st1 \<noteq> []" by auto
  with consistent_CreateSnapshot(2) [OF assms(1) c _ r(2) [unfolded ForceSnapshot_def]] show ?thesis by blast
qed

section \<open>Crashes\<close>

text \<open>Reopening on any disk from which snapshot and log read back.\<close>

lemma reopen_disk:
  assumes "snapshot_on_disk dir f es" and "log_on_disk dir f rs" and "faults s = []"
    and "PersistentKvStore_ctor dir WAL_ctor (os_exit (s\<lparr>files := f\<rparr>)) = (res, st, s')"
  shows "res = Inr ()" and "find_entry (kv_data st) = replay (find_entry es) rs"
    and "kv_data st = foldl replay_record (foldl load_entry [] es) rs"
  using ctor_recovers(1,2,10) [of dir "os_exit (s\<lparr>files := f\<rparr>)" es rs WAL_ctor] assms by (simp_all add: WAL_ctor_def)


text \<open>A store that is empty in memory while the disk holds a snapshot \<open>es\<close>.\<close>

definition stale :: "PersistentKvStore \<Rightarrow> os \<Rightarrow> flat_hash_map \<Rightarrow> bool" where
  "stale st s es \<longleftrightarrow> kv_data st = [] \<and> faults s = [] \<and> os_wf s \<and> wal_path (pk_wal st) = wal_file (data_dir st)
     \<and> snapshot_on_disk (data_dir st) (files s) es \<and> (\<exists>c. wal_ready (pk_wal st) s c)"

lemma stale_CreateSnapshot:
  assumes "visits_once order" and "stale st s es" and "CreateSnapshot order st s = (res, st', s')"
  shows "res = Inr ()" and "stale st' s' es" and "data_dir st' = data_dir st" and "files s' (wal_file (data_dir st)) = Some []"
proof -
  from assms(2) obtain c where st: "kv_data st = []" "faults s = []" "os_wf s" "wal_path (pk_wal st) = wal_file (data_dir st)"
    "snapshot_on_disk (data_dir st) (files s) es" and ready: "wal_ready (pk_wal st) s c" by (auto simp: stale_def)
  have "order [] = []" using visits_onceD [OF assms(1), of "[]"] by simp
  obtain r w1 s2 where cl: "WAL_ClearWithoutLock (pk_wal st) s = (r, w1, s2)"
    by (cases "WAL_ClearWithoutLock (pk_wal st) s") auto
  note clr = WAL_Clear_ready [OF ready st(2,3) cl]
  have run: "res = Inr ()" "s' = s2" "st' = st\<lparr>pk_wal := w1, op_count := 0, burst_window := Window_Clear (burst_window st)\<rparr>"
    using assms(3) clr(1) st(1) \<open>order [] = []\<close> by (simp_all add: CreateSnapshot_def cl Let_def)
  show "res = Inr ()" "data_dir st' = data_dir st" "files s' (wal_file (data_dir st)) = Some []"
    using clr(3) st(4) by (simp_all add: run)
  show "stale st' s' es"
    using st clr by (auto simp: run stale_def snapshot_on_disk_def)
qed

lemma stale_clock [simp]: "stale (st\<lparr>op_count := n, burst_window := win\<rparr>) (s\<lparr>clock := c, ticks := ts\<rparr>) es = stale st s es"
  by (auto simp: stale_def wal_ready_def os_wf_def)

lemma stale_count_op:
  assumes "visits_once order" and "stale st s es" and "count_op order st s = (res, st', s')"
  shows "res = Inr () \<and> stale st' s' es \<and> data_dir st' = data_dir st"
proof -
  from count_op_cases [OF assms(3)] obtain win c ts where
    or: "CreateSnapshot order (counted st win) (s\<lparr>clock := c, ticks := ts\<rparr>) = (res, st', s')
       \<or> (res, st', s') = (Inr (), counted st win, s\<lparr>clock := c, ticks := ts\<rparr>)" by blast
  have "stale (counted st win) (s\<lparr>clock := c, ticks := ts\<rparr>) es" using assms(2) by simp
  from or this stale_CreateSnapshot(1-3) [OF assms(1) this] show ?thesis by auto
qed

lemma find_entry_empty: "find_entry m = (\<lambda>_. None) \<Longrightarrow> m = []"
proof -
  assume "find_entry m = (\<lambda>_. None)"
  then have "map_of m = Map.empty" unfolding find_entry_def by (simp add: fun_eq_iff)
  then show ?thesis by simp
qed

text \<open>Deleting the last key of a store makes it stale.\<close>

lemma Delete_stale:
  assumes "visits_once order" and "consistent st s es rs" and "faults s = []" and "length k < 2 ^ 16"
    and "(find_entry (kv_data st))(k := None) = (\<lambda>_. None)"
    and "PersistentKvStore_Delete order k st s = (res, st', s')"
  shows "(\<exists>b. res = Inr b) \<and> stale st' s' es \<and> data_dir st' = data_dir st"
proof -
  let ?r = "\<lparr>rec_op = OpType_DEL, rec_key = k, rec_value = []\<rparr>" and ?m = "snd (erase k (kv_data st))"
  note c = consistentD [OF assms(2)]
  obtain r w s1 where a: "WAL_Append ?r (pk_wal st) s = (r, w, s1)" by (cases "WAL_Append ?r (pk_wal st) s") auto
  have m: "?m = []" using c(1) hash_map.abs_del assms(5) find_entry_empty by simp
  note ap = WAL_Append_ready [OF c(5) assms(3) a]
  have "files s1 (GetSnapshotPath (data_dir st)) = files s (GetSnapshotPath (data_dir st))" by (simp add: ap(3) c(4))
  then have "snapshot_on_disk (data_dir st) (files s1) es" using c(7) by (simp add: snapshot_on_disk_def)
  then have st: "stale (st\<lparr>pk_wal := w, kv_data := ?m\<rparr>) s1 es"
    using m ap(2,4,8) ap(10) [OF c(3)] c(4) by (auto simp: stale_def)
  obtain r2 st2 s2 where co: "count_op order (st\<lparr>pk_wal := w, kv_data := ?m\<rparr>) s1 = (r2, st2, s2)"
    by (cases "count_op order (st\<lparr>pk_wal := w, kv_data := ?m\<rparr>) s1") auto
  have "res = rbind r2 (\<lambda>_. Inr (0 < fst (erase k (kv_data st))))" "st' = st2" "s' = s2"
    using assms(6) a ap(1) co by (auto simp: PersistentKvStore_Delete_def WAL_AppendDel_def case_prod_beta Let_def)
  with stale_count_op [OF assms(1) st co] show ?thesis by simp
qed

section \<open>The memory, whatever is on disk\<close>

text \<open>The log is open and no call fails: then no operation throws, whatever the files hold and however
  long keys and values are.\<close>

definition live :: "PersistentKvStore \<Rightarrow> os \<Rightarrow> bool" where
  "live st s \<longleftrightarrow> distinct_keys (kv_data st) \<and> faults s = [] \<and> os_wf s \<and> wal_path (pk_wal st) = wal_file (data_dir st)
     \<and> (\<exists>c. wal_ready (pk_wal st) s c)"

lemma live_clock [simp]: "live (st\<lparr>op_count := n, burst_window := win\<rparr>) (s\<lparr>clock := c, ticks := ts\<rparr>) = live st s"
  by (auto simp: live_def wal_ready_def os_wf_def)

lemma CreateSnapshot_live:
  assumes "live st s" and "CreateSnapshot order st s = (res, st', s')"
  shows "res = Inr () \<and> live st' s' \<and> kv_data st' = kv_data st \<and> data_dir st' = data_dir st"
proof -
  from assms(1) obtain c where l: "distinct_keys (kv_data st)" "faults s = []" "os_wf s"
    "wal_path (pk_wal st) = wal_file (data_dir st)" "wal_ready (pk_wal st) s c" by (auto simp: live_def)
  let ?es = "order (kv_data st)" and ?p = "GetSnapshotPath (data_dir st)"
  define s1 where "s1 = (if ?es \<noteq> [] then snd (Create (data_dir st) ?es s) else s)"
  obtain ok s0 where w: "WriteSnapshot ?p ?es s = (ok, s0)" by (cases "WriteSnapshot ?p ?es s")
  note wr = WriteSnapshot_calm [OF l(2,3) w]
  have s1: "s1 = (if ?es \<noteq> [] then s0 else s)" by (simp add: s1_def Create_def w)
  have ready: "wal_ready (pk_wal st) s1 c" "faults s1 = []" "os_wf s1"
    using l wr by (simp_all add: s1 wal_ready_def)
  obtain r w1 s2 where cl: "WAL_ClearWithoutLock (pk_wal st) s1 = (r, w1, s2)"
    by (cases "WAL_ClearWithoutLock (pk_wal st) s1") auto
  note clr = WAL_Clear_ready [OF ready cl]
  have "res = Inr ()" "s' = s2" "st' = st\<lparr>pk_wal := w1, op_count := 0, burst_window := Window_Clear (burst_window st)\<rparr>"
    using assms(2) clr(1) by (simp_all add: CreateSnapshot_def s1_def [symmetric] cl Let_def)
  then show ?thesis using l clr by (auto simp: live_def)
qed

lemma count_op_live:
  assumes "live st s" and "count_op order st s = (res, st', s')"
  shows "res = Inr () \<and> live st' s' \<and> kv_data st' = kv_data st \<and> data_dir st' = data_dir st"
proof -
  from count_op_cases [OF assms(2)] obtain win c ts where
    or: "CreateSnapshot order (counted st win) (s\<lparr>clock := c, ticks := ts\<rparr>) = (res, st', s')
       \<or> (res, st', s') = (Inr (), counted st win, s\<lparr>clock := c, ticks := ts\<rparr>)" by blast
  have "live (counted st win) (s\<lparr>clock := c, ticks := ts\<rparr>)" using assms(1) by simp
  from or this CreateSnapshot_live [OF this] show ?thesis by auto
qed

lemma append_live:
  assumes "live st s" and "WAL_Append r (pk_wal st) s = (res, w, s1)" and "distinct_keys m"
  shows "res = Inr ()" and "live (st\<lparr>pk_wal := w, kv_data := m\<rparr>) s1"
proof -
  from assms(1) obtain c where l: "faults s = []" "os_wf s"
    "wal_path (pk_wal st) = wal_file (data_dir st)" "wal_ready (pk_wal st) s c" by (auto simp: live_def)
  note a = WAL_Append_ready [OF l(4,1) assms(2)]
  show "res = Inr ()" by (rule a)
  show "live (st\<lparr>pk_wal := w, kv_data := m\<rparr>) s1" using l a assms(3) by (auto simp: live_def)
qed

lemma Set_live:
  assumes "live st s" and "PersistentKvStore_Set order k v st s = (res, st', s')"
  shows "res = Inr ()" and "live st' s'" and "find_entry (kv_data st') = (find_entry (kv_data st))(k \<mapsto> v)"
    and "data_dir st' = data_dir st"
proof -
  let ?r = "\<lparr>rec_op = OpType_SET, rec_key = k, rec_value = v\<rparr>" and ?m = "insert_or_assign k v (kv_data st)"
  obtain r w s1 where a: "WAL_Append ?r (pk_wal st) s = (r, w, s1)" by (cases "WAL_Append ?r (pk_wal st) s") auto
  have d: "distinct_keys (kv_data st)" using assms(1) by (simp add: live_def)
  then have m: "distinct_keys ?m" "find_entry ?m = (find_entry (kv_data st))(k \<mapsto> v)"
    by (rule hash_map.inv_ins, rule hash_map.abs_ins)
  note l = append_live [OF assms(1) a m(1)]
  have "count_op order (st\<lparr>pk_wal := w, kv_data := ?m\<rparr>) s1 = (res, st', s')"
    using assms(2) a l(1) by (simp add: PersistentKvStore_Set_def WAL_AppendSet_def)
  from count_op_live [OF l(2) this] m(2)
  show "res = Inr ()" "live st' s'" "find_entry (kv_data st') = (find_entry (kv_data st))(k \<mapsto> v)"
    "data_dir st' = data_dir st" by simp_all
qed

lemma Delete_live:
  assumes "live st s" and "PersistentKvStore_Delete order k st s = (res, st', s')"
  shows "res = Inr (find_entry (kv_data st) k \<noteq> None)" and "live st' s'"
    and "find_entry (kv_data st') = (find_entry (kv_data st))(k := None)" and "data_dir st' = data_dir st"
proof -
  let ?r = "\<lparr>rec_op = OpType_DEL, rec_key = k, rec_value = []\<rparr>" and ?m = "snd (erase k (kv_data st))"
  obtain r w s1 where a: "WAL_Append ?r (pk_wal st) s = (r, w, s1)" by (cases "WAL_Append ?r (pk_wal st) s") auto
  have d: "distinct_keys (kv_data st)" using assms(1) by (simp add: live_def)
  then have m: "distinct_keys ?m" "find_entry ?m = (find_entry (kv_data st))(k := None)"
    by (rule hash_map.inv_del, rule hash_map.abs_del)
  note l = append_live [OF assms(1) a m(1)]
  obtain r2 st2 s2 where co: "count_op order (st\<lparr>pk_wal := w, kv_data := ?m\<rparr>) s1 = (r2, st2, s2)"
    by (cases "count_op order (st\<lparr>pk_wal := w, kv_data := ?m\<rparr>) s1") auto
  note q = count_op_live [OF l(2) co]
  have "0 < fst (erase k (kv_data st)) \<longleftrightarrow> find_entry (kv_data st) k \<noteq> None"
    using hash_map.del_count [OF d, of k] by simp
  then have "res = Inr (find_entry (kv_data st) k \<noteq> None)" "st' = st2" "s' = s2"
    using assms(2) a l(1) co q
    by (auto simp: PersistentKvStore_Delete_def WAL_AppendDel_def case_prod_beta Let_def)
  with q m(2) show "res = Inr (find_entry (kv_data st) k \<noteq> None)" "live st' s'"
    "find_entry (kv_data st') = (find_entry (kv_data st))(k := None)" "data_dir st' = data_dir st" by simp_all
qed

lemma consistent_live: "consistent st s es rs \<Longrightarrow> faults s = [] \<Longrightarrow> live st s"
  by (auto simp: consistent_def live_def)

section \<open>Bursts\<close>

lemma count_recent_takeWhile: "count_recent cutoff ts = length (takeWhile (\<lambda>t. \<not> int t < cutoff) ts)"
  by (induction ts) auto

lemma takeWhile_sorted_rev:
  "sorted ts \<Longrightarrow> takeWhile (\<lambda>t. \<not> int t < c) (rev ts) = filter (\<lambda>t. \<not> int t < c) (rev ts)"
proof (induction ts rule: rev_induct)
  case (snoc t ts)
  then have IH: "takeWhile (\<lambda>t. \<not> int t < c) (rev ts) = filter (\<lambda>t. \<not> int t < c) (rev ts)"
    and le: "\<forall>x \<in> set ts. x \<le> t" by (auto simp: sorted_append)
  show ?case
  proof (cases "int t < c")
    case True
    with le have "\<forall>x \<in> set (rev ts). int x < c" by fastforce
    then have "filter (\<lambda>t. \<not> int t < c) (rev ts) = []" by (simp only: filter_empty_conv) simp
    with True show ?thesis by simp
  next
    case False
    with IH show ?thesis by simp
  qed
qed simp

lemma count_recent_window:
  "sorted ts \<Longrightarrow> count_recent cutoff (rev ts) = length (filter (\<lambda>t. cutoff \<le> int t) ts)"
  using takeWhile_sorted_rev [of ts cutoff]
  by (simp add: count_recent_takeWhile rev_filter [symmetric] not_less)

section \<open>Properties\<close>

text \<open>C3: crash recovery. A store is opened in a directory without files and runs any sequence of \<open>Set\<close>,
  \<open>Delete\<close> and \<open>ForceSnapshot\<close>, with the automatic snapshots that the counters trigger, in which no
  operation leaves the store empty and no I/O call fails. None of the calls throws; the memory then
  holds the map that the operations describe; and when the process ends at this point and the
  store is opened again, it holds the same map, whatever the clock, the order of iteration of the
  hash map and the timing of the snapshots.\<close>

theorem crash_recovery:
  assumes "visits_once order" and "good_ops ops"
    and "faults s = []" and "os_wf s" and "files s (wal_file dir) = None" and "files s (GetSnapshotPath dir) = None"
    and "PersistentKvStore_ctor dir WAL_ctor s = (r0, st0, s0)"
    and "run_ops order ops st0 s0 = (r1, st1, s1)"
    and "PersistentKvStore_ctor dir WAL_ctor (os_exit s1) = (r2, st2, s2)"
  shows "r0 = Inr () \<and> r1 = Inr () \<and> r2 = Inr ()
     \<and> (\<forall>k. KvStore_Get k st1 = contents ops k) \<and> (\<forall>k. KvStore_Get k st2 = contents ops k)"
proof -
  note c = ctor_fresh [OF assms(3-7)]
  have "ok_store (length ops) st0 s0" using c assms(2) by (auto simp: ok_store_def good_ops_def)
  from run_ops_ok [OF assms(1) this _ _ assms(8)] assms(2) c(2,5)
  have r: "r1 = Inr ()" "ok_store 0 st1 s1" "data_dir st1 = dir" "find_entry (kv_data st1) = contents ops"
    by (simp_all add: good_ops_def)
  from r(2) obtain es rs where "consistent st1 s1 es rs" "faults s1 = []" by (auto simp: ok_store_def)
  from ctor_reopens [OF this] assms(9) r(3) have "r2 = Inr ()" "find_entry (kv_data st2) = find_entry (kv_data st1)"
    by simp_all
  with c(1) r(1,4) show ?thesis by (simp add: KvStore_Get_def)
qed

abbreviation ex_ops :: "store_op list" where
  "ex_ops \<equiv> [OpSet ''a'' ''1'', OpSet ''b'' ''2'', OpSnapshot, OpSet ''a'' ''3'', OpDel ''b'']"

lemma ex_ops_good [simp]: "good_ops ex_ops"
  by (auto simp: good_ops_def small_op_def fun_eq_iff)

theorem crash_recovery_witness:
  "case PersistentKvStore_ctor ''data'' WAL_ctor os_start of (_, st0, s0) \<Rightarrow>
     case run_ops rev ex_ops st0 s0 of (_, st1, s1) \<Rightarrow>
       case PersistentKvStore_ctor ''data'' WAL_ctor (os_exit s1) of (r2, st2, s2) \<Rightarrow>
         r2 = Inr () \<and> KvStore_Get ''a'' st2 = Some ''3'' \<and> KvStore_Get ''b'' st2 = None"
proof -
  have e: "files os_start p = None" for p by (simp add: os_start_def)
  obtain r0 st0 s0 where c: "PersistentKvStore_ctor ''data'' WAL_ctor os_start = (r0, st0, s0)"
    by (cases "PersistentKvStore_ctor ''data'' WAL_ctor os_start") auto
  obtain r1 st1 s1 where r: "run_ops rev ex_ops st0 s0 = (r1, st1, s1)" by (cases "run_ops rev ex_ops st0 s0") auto
  obtain r2 st2 s2 where o: "PersistentKvStore_ctor ''data'' WAL_ctor (os_exit s1) = (r2, st2, s2)"
    by (cases "PersistentKvStore_ctor ''data'' WAL_ctor (os_exit s1)") auto
  from crash_recovery [OF visits_once_rev ex_ops_good faults_start os_wf_start e e c r o]
  have "r2 = Inr ()" "KvStore_Get ''a'' st2 = contents ex_ops ''a''" "KvStore_Get ''b'' st2 = contents ex_ops ''b''" by blast+
  then show ?thesis unfolding c r o prod.case by simp
qed


text \<open>The files at the end of an undisturbed run of the writer.\<close>

lemma ws_run:
  assumes "c \<noteq> []"
  shows "(ws_step path c)\<^sup>*\<^sup>* (PcOpen, f) (PcRename, (f(tmp_of path \<mapsto> c))(path := None))"
    and "(ws_step path c)\<^sup>*\<^sup>* (PcOpen, f) (PcDone True, (f(tmp_of path := None))(path \<mapsto> c))"
proof -
  let ?t = "tmp_of path"
  have "ws_step path c (PcOpen, f) (PcWrite 0, f(?t \<mapsto> []))" by (rule open_ok)
  moreover have "ws_step path c (PcWrite 0, f(?t \<mapsto> [])) (PcWrite (length c), f(?t \<mapsto> c))"
    using write_some [of "length c" 0 c path "f(?t \<mapsto> [])"] assms by simp
  moreover have "ws_step path c (PcWrite (length c), f(?t \<mapsto> c)) (PcDelete, f(?t \<mapsto> c))" by (rule close)
  moreover have "ws_step path c (PcDelete, f(?t \<mapsto> c)) (PcRename, (f(?t \<mapsto> c))(path := None))" by (rule delete) simp
  ultimately show r: "(ws_step path c)\<^sup>*\<^sup>* (PcOpen, f) (PcRename, (f(?t \<mapsto> c))(path := None))"
    by (meson r_into_rtranclp rtranclp.rtrancl_into_rtrancl)
  have "ws_step path c (PcRename, (f(?t \<mapsto> c))(path := None)) (PcDone True, (f(?t := None))(path \<mapsto> c))"
    using rename_ok [of "(f(?t \<mapsto> c))(path := None)" path c c] by (simp add: fun_upd_twist)
  with r show "(ws_step path c)\<^sup>*\<^sup>* (PcOpen, f) (PcDone True, (f(?t := None))(path \<mapsto> c))"
    by (rule rtranclp.rtrancl_into_rtrancl)
qed


text \<open>C14: when the log record of a \<open>Set\<close> is only partly written, \<open>Set\<close> throws and the memory is not
  changed; opening the store again gives the contents before the call.\<close>

theorem Set_torn_write:
  assumes "visits_once order" and "good_ops ops" and "fresh_run order dir ops st s"
    and "length k < 2 ^ 16" and "length v < 2 ^ 16" and "n < 9 + length k + length v"
    and "PersistentKvStore_Set order k v st (s\<lparr>faults := [Short n]\<rparr>) = (res, st1, s1)"
    and "PersistentKvStore_ctor dir WAL_ctor (os_exit s1) = (res2, st2, s2)"
  shows "res = Inl (RuntimeError ''Failed to write to WAL file'') \<and> kv_data st1 = kv_data st
     \<and> res2 = Inr () \<and> (\<forall>k. KvStore_Get k st2 = contents ops k)"
proof -
  note f = fresh_run_ok [OF assms(1-3)]
  from f(1) obtain es rs where c: "consistent st s es rs" by (auto simp: ok_store_def)
  note cd = consistentD [OF c]
  let ?r = "\<lparr>rec_op = OpType_SET, rec_key = k, rec_value = v\<rparr>" and ?s = "s\<lparr>faults := [Short n]\<rparr>"
  let ?c = "concat (map WALRecord_Serialize rs)"
  obtain r w s' where a: "WAL_Append ?r (pk_wal st) ?s = (r, w, s')" by (cases "WAL_Append ?r (pk_wal st) ?s") auto
  have ready: "wal_ready (pk_wal st) ?s ?c" using cd(5) by (simp add: wal_ready_def)
  have n: "n < length (WALRecord_Serialize ?r)" using assms(6) by (simp add: length_WALRecord_Serialize)
  note sh = WAL_Append_short [OF ready _ n a, of "[]", simplified]
  have run: "res = Inl (RuntimeError ''Failed to write to WAL file'')" "st1 = st\<lparr>pk_wal := w\<rparr>" "s1 = s'"
    using assms(7) a sh(1) by (simp_all add: PersistentKvStore_Set_def WAL_AppendSet_def)
  have "strict_prefix (take n (WALRecord_Serialize ?r)) (WALRecord_Serialize ?r)"
    using n by (metis strict_prefix_def take_is_prefix length_take min.absorb4 nat_less_le)
  moreover have "wf_record ?r" using assms(4,5) by (simp add: wf_record_def)
  ultimately have "parse_records (?c @ take n (WALRecord_Serialize ?r)) = Inr rs"
    using cd(6) by (intro wal_log.parse_torn_log)
  moreover have "files s' (wal_file dir) = Some (?c @ take n (WALRecord_Serialize ?r))"
    using wal_readyD(4) [OF sh(2)] sh(4) cd(4) f(2) by simp
  ultimately have log: "log_on_disk dir (files s') rs" by (simp add: log_on_disk_def)
  have "files s' (GetSnapshotPath dir) = files s (GetSnapshotPath dir)"
    using WAL_Append_files [OF a] wal_readyD(5) [OF ready] cd(4) f(2) by simp
  then have snap: "snapshot_on_disk dir (files s') es" using cd(7) f(2) by (simp add: snapshot_on_disk_def)
  have "res2 = Inr ()" "find_entry (kv_data st2) = replay (find_entry es) rs"
    using ctor_recovers(1,2) [of dir "os_exit s'" es rs WAL_ctor] snap log sh(3) assms(8) run(3)
    by (simp_all add: WAL_ctor_def)
  with run f(3) cd(8) show ?thesis by (simp add: KvStore_Get_def)
qed

theorem Set_torn_write_witness:
  "\<exists>st s. fresh_run rev ''data'' ex_ops st s
     \<and> (case PersistentKvStore_Set rev ''c'' ''4'' st (s\<lparr>faults := [Short 5]\<rparr>) of (res, st1, s1) \<Rightarrow>
          case PersistentKvStore_ctor ''data'' WAL_ctor (os_exit s1) of (res2, st2, s2) \<Rightarrow>
            kv_data st1 = kv_data st \<and> res2 = Inr () \<and> KvStore_Get ''a'' st2 = Some ''3'' \<and> KvStore_Get ''c'' st2 = None)"
proof -
  obtain st s where r: "fresh_run rev ''data'' ex_ops st s"
    using fresh_run_exists [OF visits_once_rev ex_ops_good] by blast
  obtain res st1 s1 where s: "PersistentKvStore_Set rev ''c'' ''4'' st (s\<lparr>faults := [Short 5]\<rparr>) = (res, st1, s1)"
    by (cases "PersistentKvStore_Set rev ''c'' ''4'' st (s\<lparr>faults := [Short 5]\<rparr>)") auto
  obtain res2 st2 s2 where o: "PersistentKvStore_ctor ''data'' WAL_ctor (os_exit s1) = (res2, st2, s2)"
    by (cases "PersistentKvStore_ctor ''data'' WAL_ctor (os_exit s1)") auto
  have "kv_data st1 = kv_data st" "res2 = Inr ()" "KvStore_Get ''a'' st2 = contents ex_ops ''a''"
    "KvStore_Get ''c'' st2 = contents ex_ops ''c''"
    using Set_torn_write [OF visits_once_rev ex_ops_good r _ _ _ s o] by simp_all
  with r show ?thesis by (intro exI [of _ st] exI [of _ s]) (simp only: s o prod.case, simp)
qed

text \<open>C30: a crash between the deletion of the old snapshot and the rename of the new one loses what only
  the snapshot held: here a key that was set and saved in a snapshot is gone.\<close>

theorem crash_between_delete_and_rename:
  assumes "visits_once order" and "length k < 2 ^ 16" and "length v < 2 ^ 16"
    and "fresh_run order dir [OpSet k v, OpSnapshot] st s"
  shows "\<exists>f. (ws_step (GetSnapshotPath dir) (snapshot_content (order (kv_data st))))\<^sup>*\<^sup>* (PcOpen, files s) (PcRename, f)
     \<and> KvStore_Get k st = Some v
     \<and> (case PersistentKvStore_ctor dir WAL_ctor (os_exit (s\<lparr>files := f\<rparr>)) of (res, st2, s2) \<Rightarrow>
          res = Inr () \<and> KvStore_Get k st2 = None)"
proof -
  let ?p = "GetSnapshotPath dir" and ?c = "snapshot_content (order (kv_data st))"
  let ?f = "((files s)(tmp_of ?p \<mapsto> ?c))(?p := None)"
  have good: "good_ops [OpSet k v, OpSnapshot]"
    using assms(2,3) by (auto simp: good_ops_def small_op_def fun_eq_iff)
  note f = fresh_run_ok [OF assms(1) good assms(4)]
  have "\<exists>es. consistent st s es []" and calm: "faults s = []"
    using fresh_run_last_snapshot [of order "[OpSet k v]" dir st s] assms(1,4) good f(1) by (auto simp: ok_store_def)
  then obtain es where c: "consistent st s es []" by blast
  have log: "log_on_disk dir ?f []" using consistent_log [OF c] f(2) by (simp add: log_on_disk_def)
  have snap: "snapshot_on_disk dir ?f []" by (simp add: snapshot_on_disk_def)
  obtain res st2 s2 where o: "PersistentKvStore_ctor dir WAL_ctor (os_exit (s\<lparr>files := ?f\<rparr>)) = (res, st2, s2)"
    by (cases "PersistentKvStore_ctor dir WAL_ctor (os_exit (s\<lparr>files := ?f\<rparr>))") auto
  have "(ws_step ?p ?c)\<^sup>*\<^sup>* (PcOpen, files s) (PcRename, ?f)" by (rule ws_run(1)) simp
  moreover have "KvStore_Get k st = Some v" using f(3) by (simp add: KvStore_Get_def)
  ultimately show ?thesis
    using reopen_disk(1,2) [OF snap log calm o] o
    by (intro exI [of _ ?f]) (simp only: prod.case KvStore_Get_def, simp)
qed

theorem crash_between_delete_and_rename_witness:
  "\<exists>st s f. fresh_run rev ''data'' [OpSet ''a'' ''1'', OpSnapshot] st s
     \<and> (ws_step (GetSnapshotPath ''data'') (snapshot_content (rev (kv_data st))))\<^sup>*\<^sup>* (PcOpen, files s) (PcRename, f)
     \<and> (case PersistentKvStore_ctor ''data'' WAL_ctor (os_exit (s\<lparr>files := f\<rparr>)) of (res, st2, s2) \<Rightarrow>
          res = Inr () \<and> KvStore_Get ''a'' st2 = None)"
proof -
  have "good_ops [OpSet ''a'' ''1'', OpSnapshot]" by (auto simp: good_ops_def small_op_def fun_eq_iff)
  then obtain st s where r: "fresh_run rev ''data'' [OpSet ''a'' ''1'', OpSnapshot] st s"
    using fresh_run_exists [OF visits_once_rev] by blast
  from crash_between_delete_and_rename [OF visits_once_rev _ _ r] r show ?thesis by fastforce
qed

text \<open>C28: a key that was deleted comes back. When the last key is deleted and a snapshot is taken, the
  snapshot of the empty store is skipped but the log that holds the deletion is cleared; the old
  snapshot is loaded when the store is opened again.\<close>

theorem deleted_key_comes_back:
  assumes "visits_once order" and "length k < 2 ^ 16" and "length v < 2 ^ 16"
    and "fresh_run order dir [OpSet k v, OpSnapshot] st s"
    and "run_ops order [OpDel k, OpSnapshot] st s = (r1, st1, s1)"
    and "PersistentKvStore_ctor dir WAL_ctor (os_exit s1) = (r2, st2, s2)"
  shows "r1 = Inr () \<and> KvStore_Get k st1 = None \<and> r2 = Inr () \<and> KvStore_Get k st2 = Some v"
proof -
  have good: "good_ops [OpSet k v, OpSnapshot]"
    using assms(2,3) by (auto simp: good_ops_def small_op_def fun_eq_iff)
  note f = fresh_run_ok [OF assms(1) good assms(4)]
  obtain es where c: "consistent st s es []"
    using fresh_run_last_snapshot [of order "[OpSet k v]" dir st s] assms(1,4) good by auto
  have es: "find_entry es = [k \<mapsto> v]" using consistentD(8) [OF c] f(3) by simp
  have calm: "faults s = []" using f(1) by (simp add: ok_store_def)
  obtain rd std sd where d: "PersistentKvStore_Delete order k st s = (rd, std, sd)"
    by (cases "PersistentKvStore_Delete order k st s") auto
  have "(find_entry (kv_data st))(k := None) = (\<lambda>_. None)" using f(3) by (simp add: fun_eq_iff)
  from Delete_stale [OF assms(1) c calm assms(2) this d] f(2)
  have q: "\<exists>b. rd = Inr b" "stale std sd es" "data_dir std = dir" by auto
  obtain rc stc sc where cs: "CreateSnapshot order std sd = (rc, stc, sc)" by (cases "CreateSnapshot order std sd") auto
  note z = stale_CreateSnapshot [OF assms(1) q(2) cs]
  have run: "r1 = Inr ()" "st1 = stc" "s1 = sc"
    using assms(5) d q(1) cs z(1) by (auto simp: run_op_def ForceSnapshot_def)
  have "log_on_disk dir (files sc) []" using z(4) q(3) by (simp add: log_on_disk_def parse_records.simps)
  moreover have "snapshot_on_disk dir (files sc) es" "faults sc = []" "kv_data stc = []"
    using z(2,3) q(3) by (simp_all add: stale_def)
  ultimately show ?thesis
    using ctor_recovers(1,2) [of dir "os_exit sc" es "[]" WAL_ctor] assms(6) run es
    by (simp add: WAL_ctor_def KvStore_Get_def)
qed

theorem deleted_key_comes_back_witness:
  "\<exists>st s. fresh_run rev ''data'' [OpSet ''a'' ''1'', OpSnapshot] st s
     \<and> (case run_ops rev [OpDel ''a'', OpSnapshot] st s of (r1, st1, s1) \<Rightarrow>
          case PersistentKvStore_ctor ''data'' WAL_ctor (os_exit s1) of (r2, st2, s2) \<Rightarrow>
            KvStore_Get ''a'' st1 = None \<and> KvStore_Get ''a'' st2 = Some ''1'')"
proof -
  have "good_ops [OpSet ''a'' ''1'', OpSnapshot]" by (auto simp: good_ops_def small_op_def fun_eq_iff)
  then obtain st s where r: "fresh_run rev ''data'' [OpSet ''a'' ''1'', OpSnapshot] st s"
    using fresh_run_exists [OF visits_once_rev] by blast
  obtain r1 st1 s1 where d: "run_ops rev [OpDel ''a'', OpSnapshot] st s = (r1, st1, s1)"
    by (cases "run_ops rev [OpDel ''a'', OpSnapshot] st s") auto
  obtain r2 st2 s2 where o: "PersistentKvStore_ctor ''data'' WAL_ctor (os_exit s1) = (r2, st2, s2)"
    by (cases "PersistentKvStore_ctor ''data'' WAL_ctor (os_exit s1)") auto
  from deleted_key_comes_back [OF visits_once_rev _ _ r d o] r show ?thesis
    by (intro exI [of _ st] exI [of _ s]) (simp only: d o prod.case, simp)
qed

text \<open>C29: a snapshot that cannot be written loses data: the failure is ignored and the log is cleared.
  A key that was set and acknowledged, and is still in memory, is gone when the store is opened
  again.\<close>

theorem failed_snapshot_loses_data:
  assumes "visits_once order" and "length k < 2 ^ 16" and "length v < 2 ^ 16"
    and "fresh_run order dir [OpSet k v] st s"
    and "ForceSnapshot order st (s\<lparr>faults := [Fail e]\<rparr>) = (r1, st1, s1)"
    and "PersistentKvStore_ctor dir WAL_ctor (os_exit s1) = (r2, st2, s2)"
  shows "r1 = Inr () \<and> KvStore_Get k st1 = Some v \<and> r2 = Inr () \<and> KvStore_Get k st2 = None"
proof -
  obtain st0 s0 where r0: "fresh_run order dir [] st0 s0" "PersistentKvStore_Set order k v st0 s0 = (Inr (), st, s)"
    using fresh_run_snoc [of order dir "[]" "OpSet k v" st s] assms(4) by (auto simp: run_op_def)
  then obtain sa where "faults sa = []" "os_wf sa" "files sa (wal_file dir) = None" "files sa (GetSnapshotPath dir) = None"
    "PersistentKvStore_ctor dir WAL_ctor sa = (Inr (), st0, s0)" by (auto simp: fresh_run_def)
  note c0 = ctor_fresh [OF this]
  let ?r = "\<lparr>rec_op = OpType_SET, rec_key = k, rec_value = v\<rparr>"
  have c: "consistent st s [] [?r]" "faults s = []" "data_dir st = dir" "find_entry (kv_data st) = [k \<mapsto> v]"
    using Set_consistent [OF assms(1) c0(3,6,4) _ assms(2,3) r0(2)] c0(2,5) by auto
  note cd = consistentD [OF c(1)]
  have ne: "order (kv_data st) \<noteq> []"
    using visits_once_length [OF assms(1), of "kv_data st"] fun_cong [OF c(4), of k] by auto
  let ?s = "s\<lparr>faults := [Fail e]\<rparr>"
  have cr: "Create (data_dir st) (order (kv_data st)) ?s = (False, s)"
    using c(2) by (simp add: Create_def WriteSnapshot_def os_open_trunc_creat_def pop_fault_def)
  obtain rc w sc where cl: "WAL_ClearWithoutLock (pk_wal st) s = (rc, w, sc)"
    by (cases "WAL_ClearWithoutLock (pk_wal st) s") auto
  note z = WAL_Clear_ready [OF cd(5) c(2) cd(3) cl]
  have run: "r1 = Inr ()" "kv_data st1 = kv_data st" "s1 = sc"
    using assms(5) ne cr cl z(1) by (auto simp: ForceSnapshot_def CreateSnapshot_def Let_def)
  have "files sc (wal_file dir) = Some []" "files sc (GetSnapshotPath dir) = files s (GetSnapshotPath dir)"
    using z(3) cd(4) c(3) by simp_all
  moreover have "snapshot_on_disk dir (files s) []" using cd(7) c(3) by simp
  ultimately have "log_on_disk dir (files sc) []" "snapshot_on_disk dir (files sc) []"
    by (simp_all add: log_on_disk_def snapshot_on_disk_def parse_records.simps)
  then show ?thesis
    using ctor_recovers(1,2) [of dir "os_exit sc" "[]" "[]" WAL_ctor] z(5) assms(6) run c(4)
    by (simp add: WAL_ctor_def KvStore_Get_def)
qed

theorem failed_snapshot_loses_data_witness:
  "\<exists>st s. fresh_run rev ''data'' [OpSet ''a'' ''1''] st s
     \<and> (case ForceSnapshot rev st (s\<lparr>faults := [Fail EIO]\<rparr>) of (r1, st1, s1) \<Rightarrow>
          case PersistentKvStore_ctor ''data'' WAL_ctor (os_exit s1) of (r2, st2, s2) \<Rightarrow>
            r1 = Inr () \<and> KvStore_Get ''a'' st1 = Some ''1'' \<and> KvStore_Get ''a'' st2 = None)"
proof -
  have "good_ops [OpSet ''a'' ''1'']" by (auto simp: good_ops_def small_op_def fun_eq_iff)
  then obtain st s where r: "fresh_run rev ''data'' [OpSet ''a'' ''1''] st s"
    using fresh_run_exists [OF visits_once_rev] by blast
  obtain r1 st1 s1 where d: "ForceSnapshot rev st (s\<lparr>faults := [Fail EIO]\<rparr>) = (r1, st1, s1)"
    by (cases "ForceSnapshot rev st (s\<lparr>faults := [Fail EIO]\<rparr>)") auto
  obtain r2 st2 s2 where o: "PersistentKvStore_ctor ''data'' WAL_ctor (os_exit s1) = (r2, st2, s2)"
    by (cases "PersistentKvStore_ctor ''data'' WAL_ctor (os_exit s1)") auto
  from failed_snapshot_loses_data [OF visits_once_rev _ _ r d o] r show ?thesis
    by (intro exI [of _ st] exI [of _ s]) (simp only: d o prod.case, simp)
qed



text \<open>The burst detector: with time stamps in the order of a monotone clock, \<open>IsExceeded\<close> tells
  whether more than \<open>max_ops\<close> operations lie within the window, although it stops counting at the
  first one outside; \<open>Count\<close> returns their number.\<close>

theorem IsExceeded_counts_window:
  assumes "sorted (timestamps win)" and "length (timestamps win) < 2 ^ 31" and "steady_now s = (now, s1)"
  defines "recent \<equiv> filter (\<lambda>t. int now - window_size win * 1000000 \<le> int t) (timestamps win)"
  shows "IsExceeded win s = (max_ops win < int (length recent), s1) \<and> Window_Count win s = (length recent, s1)"
proof -
  have "length recent < 2 ^ 31"
    using assms(2) length_filter_le [of "\<lambda>t. int now - window_size win * 1000000 \<le> int t" "timestamps win"]
    unfolding recent_def by linarith
  then show ?thesis
    using count_recent_window [OF assms(1)] assms(3)
    by (simp add: IsExceeded_def Window_Count_def recent_def size_to_int Let_def)
qed

theorem IsExceeded_counts_window_witness:
  "IsExceeded \<lparr>max_ops = 1, window_size = 2, timestamps = [3, 5000000, 6000000]\<rparr> (os_start\<lparr>clock := 6500000\<rparr>)
     = (True, os_start\<lparr>clock := 6500000\<rparr>)"
  using IsExceeded_counts_window [of "\<lparr>max_ops = 1, window_size = 2, timestamps = [3, 5000000, 6000000]\<rparr>"
      "os_start\<lparr>clock := 6500000\<rparr>" 6500000 "os_start\<lparr>clock := 6500000\<rparr>"]
  by (simp add: steady_now_def os_start_def)

end
