(* ===== verification/Config.thy ===== *)
theory Config
  imports Posix
begin

text \<open>
  The server configuration of \<open>include/server/config.h\<close> and \<open>src/server/config.cpp\<close>: the text file with
  one \<open>key=value\<close> per line, its reader and writer, and the command line. \<open>tolower\<close> is the one of the
  "C" locale. Messages to the console are left out.
\<close>

section \<open>Data\<close>

record ServerConfig =
  port :: "16 word"
  cfg_data_dir :: string
  log_level :: string
  log_dir :: string
  log_max_files :: nat
  log_max_size_mb :: nat

definition ServerConfig_default :: ServerConfig where
  "ServerConfig_default = \<lparr>port = 6379, cfg_data_dir = ''./data'', log_level = ''info'', log_dir = ''logs'',
     log_max_files = 5, log_max_size_mb = 5\<rparr>"

section \<open>Helpers\<close>

definition trim_char :: "char \<Rightarrow> bool" where
  "trim_char c \<longleftrightarrow> c \<in> {CHR '' '', CHR 0x09, CHR 0x0D, CHR 0x0A}"

text \<open>\<open>Trim\<close>: from the first to the last character that is not blank.\<close>

definition Trim :: "string \<Rightarrow> string" where
  "Trim s = rev (dropWhile trim_char (rev (dropWhile trim_char s)))"

definition lower_char :: "char \<Rightarrow> char" where
  "lower_char c = (if 65 \<le> (of_char c :: nat) \<and> (of_char c :: nat) \<le> 90 then char_of (of_char c + 32 :: nat) else c)"

definition ToLower :: "string \<Rightarrow> string" where
  "ToLower s = map lower_char s"

text \<open>The lines that \<open>std::getline\<close> yields: what follows the last newline is a line unless it is
  empty.\<close>

function getlines :: "string \<Rightarrow> string list" where
  "getlines s =
     (if s = [] then []
      else takeWhile (\<lambda>c. c \<noteq> CHR 0x0A) s # getlines (drop 1 (dropWhile (\<lambda>c. c \<noteq> CHR 0x0A) s)))"
  by pat_completeness auto
termination
proof (relation "measure length", goal_cases)
  case (2 s)
  then show ?case using length_dropWhile_le [of "\<lambda>c. c \<noteq> CHR 0x0A" s] by (cases s) auto
qed simp

declare getlines.simps [simp del]

section \<open>Reading\<close>

text \<open>The body of the loop over the lines.\<close>

definition config_line :: "ServerConfig \<Rightarrow> string \<Rightarrow> ServerConfig result" where
  "config_line config raw =
     (let line = Trim raw
      in if line = [] \<or> hd line = CHR ''#'' then Inr config
         else case str_find line ''='' 0 of
           None \<Rightarrow> Inr config
         | Some eq \<Rightarrow>
             let k = ToLower (Trim (take eq line)); v = Trim (drop (eq + 1) line)
             in if k = ''port'' then rbind (stoi v) (\<lambda>n. Inr (config\<lparr>port := of_int n\<rparr>))
                else if k = ''data_dir'' then Inr (config\<lparr>cfg_data_dir := v\<rparr>)
                else if k = ''log_level'' then Inr (config\<lparr>log_level := ToLower v\<rparr>)
                else if k = ''log_dir'' then Inr (config\<lparr>log_dir := v\<rparr>)
                else if k = ''log_max_files'' then rbind (stoul v) (\<lambda>n. Inr (config\<lparr>log_max_files := n\<rparr>))
                else if k = ''log_max_size_mb'' then rbind (stoul v) (\<lambda>n. Inr (config\<lparr>log_max_size_mb := n\<rparr>))
                else Inr config)"

fun config_lines :: "ServerConfig \<Rightarrow> string list \<Rightarrow> ServerConfig result" where
  "config_lines config [] = Inr config"
| "config_lines config (l # ls) = rbind (config_line config l) (\<lambda>c. config_lines c ls)"

definition ServerConfig_Load :: "string \<Rightarrow> os \<Rightarrow> ServerConfig result \<times> os" where
  "ServerConfig_Load path s =
     (let (fd, _, s1) = os_open_rdonly path s
      in if fd < 0 then (Inr ServerConfig_default, s1)
         else let (text, s2) = read_loop fd (length (content_of path s1)) s1
              in (config_lines ServerConfig_default (getlines text), os_close fd s2))"

section \<open>Writing\<close>

abbreviation nl :: string where "nl \<equiv> [CHR 0x0A]"

definition config_text :: "ServerConfig \<Rightarrow> string" where
  "config_text c =
     ''# kv_cache server config'' @ nl
     @ ''port='' @ to_string (unat (port c)) @ nl
     @ ''data_dir='' @ cfg_data_dir c @ nl
     @ ''log_level='' @ log_level c @ nl
     @ ''log_dir='' @ log_dir c @ nl
     @ ''log_max_files='' @ to_string (log_max_files c) @ nl
     @ ''log_max_size_mb='' @ to_string (log_max_size_mb c) @ nl"

definition ServerConfig_Save :: "string \<Rightarrow> ServerConfig \<Rightarrow> os \<Rightarrow> os" where
  "ServerConfig_Save path c s =
     (let (fd, _, s1) = os_open_trunc_creat path s
      in if fd < 0 then s1 else os_close fd (snd (write_loop fd (config_text c) s1)))"

section \<open>The command line\<close>

text \<open>\<open>OverrideFromArgs\<close> on the arguments after the program name; \<^const>\<open>None\<close> is \<open>exit(0)\<close>.\<close>

function OverrideFromArgs :: "string list \<Rightarrow> ServerConfig \<Rightarrow> ServerConfig option result" where
  "OverrideFromArgs as c =
     (case as of
        [] \<Rightarrow> Inr (Some c)
      | a # rest \<Rightarrow>
          if (a = ''-p'' \<or> a = ''--port'') \<and> rest \<noteq> [] then
            rbind (stoi (hd rest)) (\<lambda>n. OverrideFromArgs (tl rest) (c\<lparr>port := of_int n\<rparr>))
          else if (a = ''-d'' \<or> a = ''--data-dir'') \<and> rest \<noteq> [] then
            OverrideFromArgs (tl rest) (c\<lparr>cfg_data_dir := hd rest\<rparr>)
          else if (a = ''-l'' \<or> a = ''--log-level'') \<and> rest \<noteq> [] then
            OverrideFromArgs (tl rest) (c\<lparr>log_level := ToLower (hd rest)\<rparr>)
          else if a = ''-h'' \<or> a = ''--help'' then Inr None
          else OverrideFromArgs rest c)"
  by pat_completeness auto
termination
  by (relation "measure (\<lambda>(as, c). length as)") auto

declare OverrideFromArgs.simps [simp del]

text \<open>The loop of \<open>main\<close> over the arguments.\<close>

function config_path :: "string \<Rightarrow> string list \<Rightarrow> string" where
  "config_path p as =
     (case as of
        [] \<Rightarrow> p
      | a # rest \<Rightarrow>
          if (a = ''-c'' \<or> a = ''--config'') \<and> rest \<noteq> [] then config_path (hd rest) (tl rest)
          else config_path p rest)"
  by pat_completeness auto
termination
  by (relation "measure (\<lambda>(p, as). length as)") auto

declare config_path.simps [simp del]

text \<open>The configuration \<open>main\<close> starts the server with.\<close>

definition main_config :: "string list \<Rightarrow> os \<Rightarrow> ServerConfig option result \<times> os" where
  "main_config as s =
     (let (c, s1) = ServerConfig_Load (config_path ''config.txt'' as) s
      in (rbind c (OverrideFromArgs as), s1))"

section \<open>Lemmas\<close>

text \<open>A string that \<open>Trim\<close> leaves alone and that fits on a line.\<close>

definition plain :: "string \<Rightarrow> bool" where
  "plain s \<longleftrightarrow> CHR 0x0A \<notin> set s \<and> (s = [] \<or> \<not> trim_char (hd s) \<and> \<not> trim_char (last s))"

lemma Trim_id:
  assumes "s = [] \<or> \<not> trim_char (hd s) \<and> \<not> trim_char (last s)"
  shows "Trim s = s"
proof (cases "s = []")
  case False
  with assms have "dropWhile trim_char s = s" "dropWhile trim_char (rev s) = rev s"
    by (auto simp: hd_rev dropWhile_eq_self_iff)
  then show ?thesis by (simp add: Trim_def)
qed (simp add: Trim_def)

lemma getlines_line:
  assumes "CHR 0x0A \<notin> set l"
  shows "getlines (l @ nl @ rest) = l # getlines rest"
proof -
  have "takeWhile (\<lambda>c. c \<noteq> CHR 0x0A) (l @ nl @ rest) = l" "dropWhile (\<lambda>c. c \<noteq> CHR 0x0A) (l @ nl @ rest) = nl @ rest"
    using assms by (auto simp: takeWhile_append dropWhile_append)
  then show ?thesis by (subst getlines.simps) simp
qed

lemma digits_plain: "(\<And>c. c \<in> set s \<Longrightarrow> is_digit c) \<Longrightarrow> plain s"
proof -
  assume d: "\<And>c. c \<in> set s \<Longrightarrow> is_digit c"
  have nt: "\<not> trim_char c" if "c \<in> set s" for c
    using d [OF that] by (auto simp: trim_char_def is_digit_def)
  have "CHR 0x0A \<notin> set s" using nt by (auto simp: trim_char_def)
  with nt show ?thesis by (cases "s = []") (auto simp: plain_def)
qed

lemma plain_to_string: "plain (to_string n)"
  using to_string_digits by (rule digits_plain)

text \<open>What a line \<open>key=value\<close> is split into.\<close>

lemma config_line_split:
  assumes "plain v" and "k \<noteq> []" and "CHR ''='' \<notin> set k" and "\<not> trim_char (hd k)" and "\<not> trim_char (last k)" and "hd k \<noteq> CHR ''#''"
  shows "Trim (k @ ''='' @ v) = k @ ''='' @ v" and "k @ ''='' @ v \<noteq> [] \<and> hd (k @ ''='' @ v) \<noteq> CHR ''#''"
    and "str_find (k @ ''='' @ v) ''='' 0 = Some (length k)"
    and "Trim (take (length k) (k @ ''='' @ v)) = k" and "Trim (drop (length k + 1) (k @ ''='' @ v)) = v"
proof -
  have "\<not> trim_char (last (k @ ''='' @ v))"
    using assms(1) by (cases "v = []") (auto simp: plain_def trim_char_def)
  then show "Trim (k @ ''='' @ v) = k @ ''='' @ v" using assms(2,4) by (intro Trim_id) simp
  show "k @ ''='' @ v \<noteq> [] \<and> hd (k @ ''='' @ v) \<noteq> CHR ''#''" using assms(2,6) by simp
  show "str_find (k @ ''='' @ v) ''='' 0 = Some (length k)"
    using str_find_fresh [OF assms(3), of "[]" "[]" v] by simp
  show "Trim (take (length k) (k @ ''='' @ v)) = k" using assms(2,4,5) by (simp add: Trim_id)
  show "Trim (drop (length k + 1) (k @ ''='' @ v)) = v" using assms(1) by (simp add: plain_def Trim_id)
qed

lemma stoi_to_string_16: "stoi (to_string (unat (w :: 16 word))) = Inr (int (unat w))"
proof -
  have "unat w < 2 ^ 31" using unsigned_less [of w, where 'a = nat] by simp
  then show ?thesis using stoi_to_string [of "unat w" "[]"] by simp
qed

lemma config_line_values:
  assumes "plain v"
  shows "config_line c (''data_dir='' @ v) = Inr (c\<lparr>cfg_data_dir := v\<rparr>)"
    and "config_line c (''log_level='' @ v) = Inr (c\<lparr>log_level := ToLower v\<rparr>)"
    and "config_line c (''log_dir='' @ v) = Inr (c\<lparr>log_dir := v\<rparr>)"
  using config_line_split [OF assms, of "''data_dir''"] config_line_split [OF assms, of "''log_level''"]
    config_line_split [OF assms, of "''log_dir''"]
  by (simp_all add: config_line_def Let_def trim_char_def ToLower_def lower_char_def)

lemma config_line_numbers:
  "config_line c (''port='' @ to_string (unat w)) = Inr (c\<lparr>port := w\<rparr>)"
  "n < 2 ^ 64 \<Longrightarrow> config_line c (''log_max_files='' @ to_string n) = Inr (c\<lparr>log_max_files := n\<rparr>)"
  "n < 2 ^ 64 \<Longrightarrow> config_line c (''log_max_size_mb='' @ to_string n) = Inr (c\<lparr>log_max_size_mb := n\<rparr>)"
  using config_line_split [OF plain_to_string, of "''port''"] config_line_split [OF plain_to_string, of "''log_max_files''"]
    config_line_split [OF plain_to_string, of "''log_max_size_mb''"]
  by (simp_all add: config_line_def Let_def trim_char_def ToLower_def lower_char_def stoi_to_string_16
      stoul_to_string [where rest = "[]", simplified])

lemma config_line_comment: "config_line c (''# kv_cache server config'') = Inr c"
  by (simp add: config_line_def Let_def Trim_def trim_char_def)

text \<open>The lines of a saved configuration.\<close>

definition wf_config :: "ServerConfig \<Rightarrow> bool" where
  "wf_config c \<longleftrightarrow> plain (cfg_data_dir c) \<and> plain (log_dir c) \<and> plain (log_level c) \<and> ToLower (log_level c) = log_level c
     \<and> log_max_files c < 2 ^ 64 \<and> log_max_size_mb c < 2 ^ 64"

lemma getlines_Nil: "getlines [] = []"
  by (simp add: getlines.simps)

text \<open>The line of one setting.\<close>

lemma getlines_setting:
  "plain v \<Longrightarrow> CHR 0x0A \<notin> set k \<Longrightarrow> getlines ((k @ v) @ nl @ rest) = (k @ v) # getlines rest"
  by (rule getlines_line) (simp add: plain_def)

lemma getlines_config_text:
  assumes "wf_config c"
  shows "getlines (config_text c) =
    [''# kv_cache server config'', ''port='' @ to_string (unat (port c)), ''data_dir='' @ cfg_data_dir c,
     ''log_level='' @ log_level c, ''log_dir='' @ log_dir c, ''log_max_files='' @ to_string (log_max_files c),
     ''log_max_size_mb='' @ to_string (log_max_size_mb c)]"
proof -
  have p: "plain (cfg_data_dir c)" "plain (log_dir c)" "plain (log_level c)" using assms by (simp_all add: wf_config_def)
  have k: "CHR 0x0A \<notin> set ''port=''" "CHR 0x0A \<notin> set ''data_dir=''" "CHR 0x0A \<notin> set ''log_level=''" "CHR 0x0A \<notin> set ''log_dir=''"
    "CHR 0x0A \<notin> set ''log_max_files=''" "CHR 0x0A \<notin> set ''log_max_size_mb=''" "CHR 0x0A \<notin> set ''# kv_cache server config''"
    by simp_all
  note s = getlines_line [OF k(7)] getlines_setting [OF plain_to_string k(1)] getlines_setting [OF p(1) k(2)]
    getlines_setting [OF p(3) k(3)] getlines_setting [OF p(2) k(4)] getlines_setting [OF plain_to_string k(5)]
    getlines_setting [OF plain_to_string k(6)] getlines_Nil
  have t: "config_text c = ''# kv_cache server config'' @ nl @ (''port='' @ to_string (unat (port c))) @ nl
     @ (''data_dir='' @ cfg_data_dir c) @ nl @ (''log_level='' @ log_level c) @ nl @ (''log_dir='' @ log_dir c) @ nl
     @ (''log_max_files='' @ to_string (log_max_files c)) @ nl @ (''log_max_size_mb='' @ to_string (log_max_size_mb c)) @ nl @ []"
    by (simp only: config_text_def append_assoc append_Nil2)
  show ?thesis unfolding t by (simp only: s)
qed

lemma config_lines_text:
  assumes "wf_config c"
  shows "config_lines c0 (getlines (config_text c)) = Inr c"
proof -
  have "config_line a (''log_level='' @ log_level c) = Inr (a\<lparr>log_level := log_level c\<rparr>)" for a
    using assms config_line_values(2) [of "log_level c" a] by (simp add: wf_config_def)
  then show ?thesis
    using assms config_line_values(1) [of "cfg_data_dir c"] config_line_values(3) [of "log_dir c"]
      config_line_numbers(2) [of "log_max_files c"] config_line_numbers(3) [of "log_max_size_mb c"]
    unfolding getlines_config_text [OF assms]
    by (simp only: config_lines.simps config_line_comment config_line_numbers(1) rbind_simps wf_config_def) simp
qed

section \<open>Properties\<close>

text \<open>C21: a configuration that is saved and loaded again is the same, as long as its strings hold no
  newline and no blank at either end, and its log level is in lower case. Loading a file that does
  not exist gives the defaults.\<close>

theorem Config_Save_Load:
  assumes "faults s = []" and "os_wf s" and "wf_config c"
  shows "fst (ServerConfig_Load path (ServerConfig_Save path c s)) = Inr c
     \<and> (files s path = None \<longrightarrow> fst (ServerConfig_Load path s) = Inr ServerConfig_default)"
proof -
  let ?fd = "int (next_fd s)" and ?t = "config_text c"
  let ?s1 = "s\<lparr>files := (files s)(path \<mapsto> []), fds := (fds s)(?fd \<mapsto> (path, 0)), next_fd := Suc (next_fd s)\<rparr>"
  have ne: "?t \<noteq> []" by (simp add: config_text_def)
  have o: "os_open_trunc_creat path s = (?fd, None, ?s1)"
    using assms(1) by (simp add: os_open_trunc_creat_def new_fd_def)
  have "write_loop ?fd ?t ?s1 = (True, ?s1\<lparr>files := (files s)(path \<mapsto> ?t), fds := (fds s)(?fd \<mapsto> (path, length ?t))\<rparr>)"
    using assms(1) ne by (subst write_loop_calm [where path = path and off = 0]) (simp_all add: write_at_def)
  then have "files (ServerConfig_Save path c s) path = Some ?t" "faults (ServerConfig_Save path c s) = []"
    using assms(1) by (simp_all add: ServerConfig_Save_def o os_close_def)
  moreover have "fst (ServerConfig_Load path s') = config_lines ServerConfig_default (getlines t)"
    if "files s' path = Some t" and "faults s' = []" for s' t
  proof -
    let ?r = "s'\<lparr>fds := (fds s')(int (next_fd s') \<mapsto> (path, 0)), next_fd := Suc (next_fd s')\<rparr>"
    have "os_open_rdonly path s' = (int (next_fd s'), None, ?r)"
      using that by (simp add: os_open_rdonly_def new_fd_def)
    moreover have "read_loop (int (next_fd s')) (length t) ?r = (t, ?r\<lparr>fds := (fds ?r)(int (next_fd s') \<mapsto> (path, length t))\<rparr>)"
      using read_loop_calm [of ?r "int (next_fd s')" path] that by (simp add: content_of_def)
    ultimately show ?thesis using that by (simp add: ServerConfig_Load_def content_of_def)
  qed
  ultimately show ?thesis
    using config_lines_text [OF assms(3)] assms(1) by (auto simp: ServerConfig_Load_def os_open_rdonly_def)
qed

theorem Config_Save_Load_witness:
  "fst (ServerConfig_Load ''config.txt'' (ServerConfig_Save ''config.txt''
      (ServerConfig_default\<lparr>port := 7000, cfg_data_dir := ''/var/a=b c''\<rparr>) os_start))
     = Inr (ServerConfig_default\<lparr>port := 7000, cfg_data_dir := ''/var/a=b c''\<rparr>)
   \<and> fst (ServerConfig_Load ''config.txt'' os_start) = Inr ServerConfig_default"
proof -
  have "wf_config (ServerConfig_default\<lparr>port := 7000, cfg_data_dir := ''/var/a=b c''\<rparr>)"
    by (simp add: wf_config_def ServerConfig_default_def plain_def trim_char_def ToLower_def lower_char_def)
  moreover have "files os_start ''config.txt'' = None" by (simp add: os_start_def)
  ultimately show ?thesis using Config_Save_Load [OF faults_start os_wf_start] by blast
qed

text \<open>A port given on the command line is cut to sixteen bits without an error, and the other
  settings are kept; a port that is no number makes the program throw.\<close>

theorem Override_port:
  assumes "n < 2 ^ 31"
  shows "OverrideFromArgs [''-p'', to_string n] c = Inr (Some (c\<lparr>port := of_nat (n mod 2 ^ 16)\<rparr>))
     \<and> OverrideFromArgs [''-p'', ''http''] c = Inl InvalidArgument"
proof -
  have "(of_int (int n) :: 16 word) = of_nat (n mod 2 ^ 16)"
    by (simp add: word_of_nat_eq_iff take_bit_eq_mod)
  then show ?thesis
    using stoi_to_string [of n "[]"] assms
    by (simp add: OverrideFromArgs.simps stoi_def scan_int_def scan_sign_def is_space_def is_digit_def Let_def)
qed

theorem Override_port_witness:
  "OverrideFromArgs [''-p'', to_string 70000] ServerConfig_default = Inr (Some (ServerConfig_default\<lparr>port := 4464\<rparr>))"
  using Override_port [of 70000 ServerConfig_default] by simp

end
