(* ===== verification/Logger.thy ===== *)
theory Logger
  imports Prelude
begin

text \<open>
  The logger of \<open>include/common/logger.h\<close>. It configures a logger object of the library \<open>spdlog\<close> and makes it the
  default one, which the macros \<open>LOG_DEBUG\<close> to \<open>LOG_ERROR\<close> use. Of the library the model has what the code relies
  on: logger objects with a level, the registry with its default logger and its pool, and the conditions
  under which a file sink is refused. Objects are shared by reference, so they stand in a list and the
  pointers are positions in it. What the messages say, and the files they go to, are not modelled beyond the
  sequence of messages that reach the sinks.
\<close>

section \<open>Levels\<close>

datatype LogLevel = LL_DEBUG | LL_INFO | LL_WARN | LL_ERR

text \<open>The levels of the library, and the level below which the macros are compiled to nothing: the build does not
  define \<open>SPDLOG_ACTIVE_LEVEL\<close>, which is then \<open>SPDLOG_LEVEL_INFO\<close>.\<close>

definition spd_level :: "LogLevel \<Rightarrow> nat" where
  "spd_level l = (case l of LL_DEBUG \<Rightarrow> 1 | LL_INFO \<Rightarrow> 2 | LL_WARN \<Rightarrow> 3 | LL_ERR \<Rightarrow> 4)"

definition SPDLOG_ACTIVE_LEVEL :: nat where "SPDLOG_ACTIVE_LEVEL = 2"

section \<open>Logger objects\<close>

record spd_logger =
  lg_name :: string
  lg_path :: string
  lg_max_size :: nat
  lg_max_files :: nat
  lg_level :: nat
  lg_flush_on :: nat
  lg_async :: bool                     \<comment> \<open>messages go through the pool of the registry\<close>
  lg_records :: "(nat \<times> string) list"  \<comment> \<open>what has reached the sinks\<close>
  lg_flushed :: nat                    \<comment> \<open>how many of them have been flushed\<close>

text \<open>The state: the objects, the member \<open>spd_logger_\<close> of the singleton, and the registry. At the start of the program
  the library has a default logger of its own.\<close>

record logging =
  loggers :: "spd_logger list"
  singleton :: "nat option"
  default_logger :: "nat option"
  async_pool :: "(nat \<times> nat) option"   \<comment> \<open>depth of the queue, number of threads\<close>

definition logging_start :: logging where
  "logging_start =
     \<lparr>loggers = [\<lparr>lg_name = [], lg_path = [], lg_max_size = 0, lg_max_files = 0, lg_level = 2, lg_flush_on = 6, lg_async = False, lg_records = [], lg_flushed = 0\<rparr>],
      singleton = None, default_logger = Some 0, async_pool = None\<rparr>"

text \<open>\<open>Logger::Init\<close>. The constructor of the file sink throws for a size of 0, for more than 200000 files, and when the file
  cannot be opened.\<close>

definition Logger_Init :: "bool \<Rightarrow> string \<Rightarrow> nat \<Rightarrow> nat \<Rightarrow> logging \<Rightarrow> unit result \<times> logging" where
  "Logger_Init can_open log_dir max_files max_size g =
     (let g1 = g\<lparr>async_pool := Some (8192, 1)\<rparr>;
          log_path = log_dir @ ''/kv_cache.log''
      in if max_size = 0 then (Inl (RuntimeError ''rotating sink constructor: max_size arg cannot be zero''), g1)
         else if 200000 < max_files then (Inl (RuntimeError ''rotating sink constructor: max_files arg cannot exceed MaxFiles''), g1)
         else if \<not> can_open then (Inl (RuntimeError ''Failed opening file''), g1)
         else
           (Inr (), g1\<lparr>loggers := loggers g @ [\<lparr>lg_name = ''kv_cache'', lg_path = log_path, lg_max_size = max_size, lg_max_files = max_files,
                                              lg_level = spd_level LL_INFO, lg_flush_on = spd_level LL_INFO, lg_async = True, lg_records = [], lg_flushed = 0\<rparr>],
                       singleton := Some (length (loggers g)), default_logger := Some (length (loggers g))\<rparr>))"

text \<open>\<open>Logger::SetLevel\<close>; before \<open>Init\<close> it does nothing.\<close>

definition SetLevel :: "LogLevel \<Rightarrow> logging \<Rightarrow> logging" where
  "SetLevel level g =
     (case singleton g of
        None \<Rightarrow> g
      | Some i \<Rightarrow> g\<lparr>loggers := (loggers g)[i := (loggers g ! i)\<lparr>lg_level := spd_level level\<rparr>]\<rparr>)"

text \<open>A message that is at least at the flush level is flushed at once.\<close>

definition sink_it :: "nat \<Rightarrow> string \<Rightarrow> spd_logger \<Rightarrow> spd_logger" where
  "sink_it level msg l =
     (let l1 = l\<lparr>lg_records := lg_records l @ [(level, msg)]\<rparr>
      in if lg_flush_on l \<le> level then l1\<lparr>lg_flushed := length (lg_records l1)\<rparr> else l1)"

text \<open>The macros: below the active level there is no call; the call on a null pointer is undefined. A message below the
  level of the logger is dropped, and so is one for a pool that is gone.\<close>

definition LOG :: "LogLevel \<Rightarrow> string \<Rightarrow> logging \<Rightarrow> unit result \<times> logging" where
  "LOG level msg g =
     (if spd_level level < SPDLOG_ACTIVE_LEVEL then (Inr (), g)
      else
        (case default_logger g of
           None \<Rightarrow> (Inl Undefined, g)
         | Some i \<Rightarrow>
             (let l = loggers g ! i
              in if spd_level level < lg_level l \<or> lg_async l \<and> async_pool g = None then (Inr (), g)
                 else (Inr (), g\<lparr>loggers := (loggers g)[i := sink_it (spd_level level) msg l]\<rparr>))))"

text \<open>\<open>Flush\<close>; \<open>Shutdown\<close> also drops the default logger and the pool.\<close>

definition Logger_Flush :: "logging \<Rightarrow> logging" where
  "Logger_Flush g =
     (case singleton g of
        None \<Rightarrow> g
      | Some i \<Rightarrow>
          (let l = loggers g ! i
           in if lg_async l \<and> async_pool g = None then g
              else g\<lparr>loggers := (loggers g)[i := l\<lparr>lg_flushed := length (lg_records l)\<rparr>]\<rparr>))"

definition Logger_Shutdown :: "logging \<Rightarrow> logging" where
  "Logger_Shutdown g = (Logger_Flush g)\<lparr>default_logger := None, async_pool := None\<rparr>"

definition GetSpdLogger :: "logging \<Rightarrow> nat option" where
  "GetSpdLogger g = singleton g"

section \<open>Lemmas\<close>

text \<open>After \<open>Init\<close> the logger of the singleton is the one that the macros use.\<close>

definition logging_ok :: "logging \<Rightarrow> bool" where
  "logging_ok g \<longleftrightarrow> (\<exists>i < length (loggers g). singleton g = Some i \<and> default_logger g = Some i \<and> async_pool g \<noteq> None)"

lemma Logger_Init_ok: "Logger_Init ok d f z g = (Inr (), g') \<Longrightarrow> logging_ok g'"
  by (auto simp: Logger_Init_def logging_ok_def Let_def split: if_splits)

lemma SetLevel_ok: "logging_ok g \<Longrightarrow> logging_ok (SetLevel l g)"
  by (auto simp: logging_ok_def SetLevel_def)

lemma LOG_ok: "logging_ok g \<Longrightarrow> \<exists>g'. LOG l msg g = (Inr (), g') \<and> logging_ok g'"
  by (auto simp: LOG_def logging_ok_def Let_def)

text \<open>Which messages appear: those of at least the level that was set last, and never debug messages.\<close>

lemma LOG_after_SetLevel:
  assumes "logging_ok g" and "LOG l msg (SetLevel level g) = (Inr (), g')" and "singleton g = Some i"
  shows "lg_records (loggers g' ! i)
    = lg_records (loggers g ! i) @ (if spd_level level \<le> spd_level l \<and> l \<noteq> LL_DEBUG then [(spd_level l, msg)] else [])"
  using assms by (cases l) (auto simp: LOG_def SetLevel_def logging_ok_def sink_it_def Let_def spd_level_def SPDLOG_ACTIVE_LEVEL_def split: if_splits)

lemma LOG_after_Shutdown: "l \<noteq> LL_DEBUG \<Longrightarrow> LOG l msg (Logger_Shutdown g) = (Inl Undefined, Logger_Shutdown g)"
  by (cases l) (simp_all add: LOG_def Logger_Shutdown_def spd_level_def SPDLOG_ACTIVE_LEVEL_def)

end
