(* ===== verification/KvServer.thy ===== *)
theory KvServer
  imports Protocol PersistentKvStore Config Logger
begin

text \<open>
  The server of \<open>include/server/kv_server.h\<close> and \<open>src/server/kv_server.cpp\<close>: the message handler that
  feeds a connection's bytes to its reader, executes the complete commands and collects the
  replies. The loop of the handler may not end, so it is a partial function whose value is then
  \<^const>\<open>None\<close>. The handler holds the lock of the connection's shard from start to end.
  \<open>std::hash\<close> of a descriptor is a parameter.
\<close>

section \<open>Executing a command\<close>

text \<open>\<open>cmd.args[i]\<close>: out of range, the behaviour is undefined.\<close>

definition nth_arg :: "string list \<Rightarrow> nat \<Rightarrow> string result" where
  "nth_arg as i = (if i < length as then Inr (as ! i) else Inl Undefined)"

definition execute :: "iteration \<Rightarrow> Command \<Rightarrow> PersistentKvStore \<Rightarrow> os \<Rightarrow> Response result \<times> PersistentKvStore \<times> os" where
  "execute order cmd st s =
     (case type cmd of
        SET \<Rightarrow>
          (case rbind (nth_arg (args cmd) 0) (\<lambda>k. rbind (nth_arg (args cmd) 1) (\<lambda>v. Inr (k, v))) of
             Inl e \<Rightarrow> (Inl e, st, s)
           | Inr (k, v) \<Rightarrow>
               let (r, st1, s1) = PersistentKvStore_Set order k v st s
               in (rbind r (\<lambda>_. Inr \<lparr>status = OK, message = []\<rparr>), st1, s1))
      | GET \<Rightarrow>
          (rbind (nth_arg (args cmd) 0) (\<lambda>k.
             case KvStore_Get k st of
               Some v \<Rightarrow> Inr \<lparr>status = VALUE, message = v\<rparr>
             | None \<Rightarrow> Inr \<lparr>status = NOT_FOUND, message = []\<rparr>), st, s)
      | DEL \<Rightarrow>
          (case nth_arg (args cmd) 0 of
             Inl e \<Rightarrow> (Inl e, st, s)
           | Inr k \<Rightarrow>
               let (r, st1, s1) = PersistentKvStore_Delete order k st s
               in (rbind r (\<lambda>b. Inr \<lparr>status = COUNT, message = (if b then ''1'' else ''0'')\<rparr>), st1, s1))
      | EXISTS \<Rightarrow>
          (rbind (nth_arg (args cmd) 0) (\<lambda>k.
             if KvStore_Exists k st then Inr \<lparr>status = OK, message = []\<rparr>
             else Inr \<lparr>status = NOT_FOUND, message = []\<rparr>), st, s)
      | KEYS \<Rightarrow> (Inr \<lparr>status = COUNT, message = to_string (length (KvStore_AllKeys order st))\<rparr>, st, s)
      | UNKNOWN \<Rightarrow> (Inr \<lparr>status = ERR, message = ''unknown command''\<rparr>, st, s))"

section \<open>The message handler\<close>

text \<open>The loop: \<open>result\<close> is what has been replied so far. An exception leaves the loop.\<close>

partial_function (option) handle_loop ::
  "iteration \<Rightarrow> PersistentKvStore \<Rightarrow> RespReader \<Rightarrow> string \<Rightarrow> os \<Rightarrow> (string result \<times> PersistentKvStore \<times> RespReader \<times> os) option" where
  "handle_loop order st reader result s =
     (case TryParse Command_default reader of
        Inl e \<Rightarrow> Some (Inl e, st, reader, s)
      | Inr (res, cmd, reader1) \<Rightarrow>
          (case res of
             R_PARTIAL \<Rightarrow> Some (Inr result, st, reader1, s)
           | R_PROTOCOL_ERROR \<Rightarrow> handle_loop order st reader1 (result @ ''-ERR protocol error'' @ crlf) s
           | R_OK \<Rightarrow>
               if type cmd = UNKNOWN then
                 handle_loop order st reader1
                   (result @ (if error cmd = UNKNOWN_COMMAND then ''-ERR unknown command'' @ crlf
                              else ''-ERR wrong number of arguments'' @ crlf)) s
               else
                 (case execute order cmd st s of
                    (Inl e, st1, s1) \<Rightarrow> Some (Inl e, st1, reader1, s1)
                  | (Inr resp, st1, s1) \<Rightarrow>
                      handle_loop order st1 reader1 (result @ SerializeResponse resp) s1)))"

definition SHARD_COUNT :: nat where "SHARD_COUNT = 16"

record KvServer =
  srv_config :: ServerConfig
  srv_store :: PersistentKvStore
  shards :: "(int \<Rightarrow> RespReader option) list"
  srv_running :: bool
  srv_log_level :: LogLevel

definition GetShard :: "(int \<Rightarrow> nat) \<Rightarrow> int \<Rightarrow> nat" where
  "GetShard hash fd = hash fd mod SHARD_COUNT"

text \<open>\<open>readers[fd]\<close> creates an empty reader where there is none.\<close>

definition reader_of :: "(int \<Rightarrow> nat) \<Rightarrow> KvServer \<Rightarrow> int \<Rightarrow> RespReader" where
  "reader_of hash srv fd = (case (shards srv ! GetShard hash fd) fd of None \<Rightarrow> [] | Some r \<Rightarrow> r)"

definition put_reader :: "(int \<Rightarrow> nat) \<Rightarrow> int \<Rightarrow> RespReader \<Rightarrow> KvServer \<Rightarrow> KvServer" where
  "put_reader hash fd r srv =
     (let i = GetShard hash fd in srv\<lparr>shards := (shards srv)[i := (shards srv ! i)(fd \<mapsto> r)]\<rparr>)"

definition OnMessage ::
  "(int \<Rightarrow> nat) \<Rightarrow> iteration \<Rightarrow> int \<Rightarrow> string \<Rightarrow> KvServer \<Rightarrow> os \<Rightarrow> (string result \<times> KvServer \<times> os) option" where
  "OnMessage hash order fd data srv s =
     (case handle_loop order (srv_store srv) (Feed (reader_of hash srv fd) data) [] s of
        None \<Rightarrow> None
      | Some (res, st, reader, s1) \<Rightarrow> Some (res, put_reader hash fd reader (srv\<lparr>srv_store := st\<rparr>), s1))"

section \<open>Starting and stopping\<close>

definition ParseLogLevel :: "string \<Rightarrow> LogLevel" where
  "ParseLogLevel level =
     (let lower = ToLower level
      in if lower = ''debug'' then LL_DEBUG
         else if lower = ''info'' then LL_INFO
         else if lower = ''warn'' then LL_WARN
         else if lower = ''error'' then LL_ERR
         else LL_INFO)"

text \<open>The constructor; \<open>w\<close> is the log singleton. The logger and the TCP server, which it also creates, are added in
  the theory \<open>ServerMain\<close>.\<close>

definition KvServer_ctor :: "ServerConfig \<Rightarrow> WAL \<Rightarrow> os \<Rightarrow> unit result \<times> KvServer \<times> os" where
  "KvServer_ctor config w s =
     (let (r, st, s1) = PersistentKvStore_ctor (cfg_data_dir config) w s
      in (r, \<lparr>srv_config = config, srv_store = st, shards = replicate SHARD_COUNT (\<lambda>_. None),
              srv_running = False, srv_log_level = ParseLogLevel (log_level config)\<rparr>, s1))"

text \<open>\<open>Start\<close> and \<open>Stop\<close>; \<open>tcp_ok\<close> is whether the TCP server could be started.\<close>

definition KvServer_Start :: "bool \<Rightarrow> KvServer \<Rightarrow> bool \<times> KvServer" where
  "KvServer_Start tcp_ok srv =
     (if srv_running srv then (True, srv)
      else if \<not> tcp_ok then (False, srv)
      else (True, srv\<lparr>srv_running := True\<rparr>))"

definition KvServer_Stop :: "KvServer \<Rightarrow> KvServer" where
  "KvServer_Stop srv = (if \<not> srv_running srv then srv else srv\<lparr>srv_running := False\<rparr>)"

definition KvServer_SetLogLevel :: "string \<Rightarrow> KvServer \<Rightarrow> KvServer" where
  "KvServer_SetLogLevel level srv =
     srv\<lparr>srv_config := (srv_config srv)\<lparr>log_level := level\<rparr>, srv_log_level := ParseLogLevel level\<rparr>"

definition KvServer_GetConfig :: "KvServer \<Rightarrow> ServerConfig" where
  "KvServer_GetConfig srv = srv_config srv"

section \<open>The specification of a command\<close>

fun spec_cmd :: "Command \<Rightarrow> (string \<Rightarrow> string option) \<Rightarrow> Response \<times> (string \<Rightarrow> string option)" where
  "spec_cmd cmd m =
     (case (type cmd, args cmd) of
        (SET, [k, v]) \<Rightarrow> (\<lparr>status = OK, message = []\<rparr>, m(k \<mapsto> v))
      | (GET, [k]) \<Rightarrow>
          (case m k of Some v \<Rightarrow> \<lparr>status = VALUE, message = v\<rparr> | None \<Rightarrow> \<lparr>status = NOT_FOUND, message = []\<rparr>, m)
      | (DEL, [k]) \<Rightarrow> (\<lparr>status = COUNT, message = (if m k = None then ''0'' else ''1'')\<rparr>, m(k := None))
      | (EXISTS, [k]) \<Rightarrow> (if m k = None then \<lparr>status = NOT_FOUND, message = []\<rparr> else \<lparr>status = OK, message = []\<rparr>, m)
      | (KEYS, []) \<Rightarrow> (\<lparr>status = COUNT, message = to_string (card (dom m))\<rparr>, m)
      | _ \<Rightarrow> (\<lparr>status = ERR, message = ''unknown command''\<rparr>, m))"

declare spec_cmd.simps [simp del]

fun spec_run :: "Command list \<Rightarrow> (string \<Rightarrow> string option) \<Rightarrow> Response list \<times> (string \<Rightarrow> string option)" where
  "spec_run [] m = ([], m)"
| "spec_run (c # cs) m = (let (r, m1) = spec_cmd c m; (rs, m2) = spec_run cs m1 in (r # rs, m2))"

abbreviation replies :: "Command list \<Rightarrow> (string \<Rightarrow> string option) \<Rightarrow> string" where
  "replies cs m \<equiv> concat (map SerializeResponse (fst (spec_run cs m)))"

lemma spec_run_append:
  "spec_run (xs @ ys) m = (fst (spec_run xs m) @ fst (spec_run ys (snd (spec_run xs m))), snd (spec_run ys (snd (spec_run xs m))))"
  by (induction xs arbitrary: m) (simp_all add: case_prod_beta Let_def)

text \<open>The handler's \<open>switch\<close> implements it.\<close>

lemma wf_command_cases:
  assumes "wf_command cmd"
  shows "(\<exists>k v. type cmd = SET \<and> args cmd = [k, v]) \<or> (\<exists>k. type cmd \<in> {GET, DEL, EXISTS} \<and> args cmd = [k])
    \<or> type cmd = KEYS \<and> args cmd = []"
proof -
  have "arity (type cmd) = Some (length (args cmd))" using assms by (simp add: wf_command_def)
  then show ?thesis by (cases "type cmd") (auto simp: Suc_length_conv length_Suc_conv numeral_2_eq_2)
qed

lemma execute_spec:
  assumes "visits_once order" and "live st s" and "wf_command cmd" and "execute order cmd st s = (res, st', s')"
  shows "res = Inr (fst (spec_cmd cmd (find_entry (kv_data st))))" and "live st' s'"
    and "find_entry (kv_data st') = snd (spec_cmd cmd (find_entry (kv_data st)))"
proof -
  let ?m = "find_entry (kv_data st)"
  have keys: "length (order (kv_data st)) = card (dom ?m)"
    using hash_map.enum_card [of "kv_data st"] visits_once_length [OF assms(1)] assms(2) by (simp add: live_def)
  have "res = Inr (fst (spec_cmd cmd ?m)) \<and> live st' s' \<and> find_entry (kv_data st') = snd (spec_cmd cmd ?m)"
    using wf_command_cases [OF assms(3)]
  proof (elim disjE exE conjE)
    fix k v assume c: "type cmd = SET" "args cmd = [k, v]"
    obtain r st1 s1 where r: "PersistentKvStore_Set order k v st s = (r, st1, s1)"
      by (cases "PersistentKvStore_Set order k v st s") auto
    from Set_live [OF assms(2) r] assms(4) r c show ?thesis
      by (simp add: execute_def nth_arg_def spec_cmd.simps)
  next
    fix k assume c: "type cmd \<in> {GET, DEL, EXISTS}" "args cmd = [k]"
    obtain r st1 s1 where r: "PersistentKvStore_Delete order k st s = (r, st1, s1)"
      by (cases "PersistentKvStore_Delete order k st s") auto
    show ?thesis
      using Delete_live [OF assms(2) r] assms(2,4) r c
      by (auto simp: execute_def nth_arg_def spec_cmd.simps KvStore_Get_def KvStore_Exists_def count_entry_find
          split: option.splits if_splits)
  next
    assume "type cmd = KEYS" "args cmd = []"
    with assms(2,4) keys show ?thesis by (auto simp: execute_def spec_cmd.simps KvStore_AllKeys_def)
  qed
  then show "res = Inr (fst (spec_cmd cmd ?m))" "live st' s'" "find_entry (kv_data st') = snd (spec_cmd cmd ?m)" by simp_all
qed

text \<open>What a command does to the store, as operations of the store.\<close>

definition cmd_ops :: "Command \<Rightarrow> store_op list" where
  "cmd_ops cmd =
     (case (type cmd, args cmd) of
        (SET, [k, v]) \<Rightarrow> [OpSet k v]
      | (DEL, [k]) \<Rightarrow> [OpDel k]
      | _ \<Rightarrow> [])"

abbreviation ops_of :: "Command list \<Rightarrow> store_op list" where
  "ops_of cmds \<equiv> concat (map cmd_ops cmds)"

lemma execute_ops:
  assumes "wf_command cmd" and "execute order cmd st s = (Inr r, st', s')"
  shows "run_ops order (cmd_ops cmd) st s = (Inr (), st', s')"
  using wf_command_cases [OF assms(1)]
proof (elim disjE exE conjE)
  fix k v assume c: "type cmd = SET" "args cmd = [k, v]"
  obtain x st1 s1 where x: "PersistentKvStore_Set order k v st s = (x, st1, s1)" by (cases "PersistentKvStore_Set order k v st s") auto
  from c assms(2) x show ?thesis
    by (cases x) (auto simp: execute_def nth_arg_def cmd_ops_def run_op_def)
next
  fix k assume c: "type cmd \<in> {GET, DEL, EXISTS}" "args cmd = [k]"
  obtain x st1 s1 where x: "PersistentKvStore_Delete order k st s = (x, st1, s1)" by (cases "PersistentKvStore_Delete order k st s") auto
  from c assms(2) x show ?thesis
    by (cases x) (auto simp: execute_def nth_arg_def cmd_ops_def run_op_def)
next
  assume "type cmd = KEYS" "args cmd = []"
  with assms(2) show ?thesis by (auto simp: execute_def cmd_ops_def)
qed

section \<open>Streams of commands\<close>

lemma wf_command_type: "wf_command c \<Longrightarrow> type c \<noteq> UNKNOWN"
  by (auto simp: wf_command_def)

text \<open>Complete commands at the front of the buffer are executed in order, whatever follows.\<close>

lemma handle_loop_commands:
  assumes "visits_once order" and "live st s" and "\<forall>c \<in> set cmds. wf_command c"
    and "length (concat (map SerializeCommand cmds) @ rest) < 2 ^ 63"
  shows "\<exists>st' s'. handle_loop order st (concat (map SerializeCommand cmds) @ rest) result s
       = handle_loop order st' rest (result @ replies cmds (find_entry (kv_data st))) s'
     \<and> live st' s' \<and> find_entry (kv_data st') = snd (spec_run cmds (find_entry (kv_data st)))
     \<and> run_ops order (ops_of cmds) st s = (Inr (), st', s')"
  using assms(2-4)
proof (induction cmds arbitrary: st s result)
  case Nil
  then show ?case by auto
next
  case (Cons c cs)
  let ?rest = "concat (map SerializeCommand cs) @ rest" and ?m = "find_entry (kv_data st)"
  have wf: "wf_command c" and len: "length (SerializeCommand c @ ?rest) < 2 ^ 63" using Cons.prems by simp_all
  have p: "TryParse Command_default (SerializeCommand c @ ?rest) = Inr (R_OK, c, ?rest)"
    using wf len by (rule TryParse_command)
  obtain r st1 s1 where x: "execute order c st s = (r, st1, s1)" by (cases "execute order c st s") auto
  note e = execute_spec [OF assms(1) Cons.prems(1) wf x]
  have step: "handle_loop order st (SerializeCommand c @ ?rest) result s
      = handle_loop order st1 ?rest (result @ SerializeResponse (fst (spec_cmd c ?m))) s1"
    using wf_command_type [OF wf] by (subst handle_loop.simps) (simp add: p x e(1))
  obtain st2 s2 where "handle_loop order st1 ?rest (result @ SerializeResponse (fst (spec_cmd c ?m))) s1
      = handle_loop order st2 rest ((result @ SerializeResponse (fst (spec_cmd c ?m))) @ replies cs (find_entry (kv_data st1))) s2"
    "live st2 s2" "find_entry (kv_data st2) = snd (spec_run cs (find_entry (kv_data st1)))"
    "run_ops order (ops_of cs) st1 s1 = (Inr (), st2, s2)"
    using Cons.IH [OF e(2), of "result @ SerializeResponse (fst (spec_cmd c ?m))"] Cons.prems by auto
  moreover have "run_ops order (cmd_ops c) st s = (Inr (), st1, s1)" using wf x by (intro execute_ops) (simp_all add: e(1))
  ultimately show ?case using step by (auto simp: e(3) case_prod_beta Let_def run_ops_append)
qed

text \<open>The beginning of a command stays in the buffer.\<close>

lemma handle_loop_stream:
  assumes "visits_once order" and "live st s" and "\<forall>c \<in> set cmds. wf_command c"
    and "wf_command next" and "strict_prefix tail (SerializeCommand next)"
    and "length (concat (map SerializeCommand cmds) @ tail) < 2 ^ 63"
  shows "\<exists>st' s'. handle_loop order st (concat (map SerializeCommand cmds) @ tail) result s
       = Some (Inr (result @ replies cmds (find_entry (kv_data st))), st', tail, s')
     \<and> live st' s' \<and> find_entry (kv_data st') = snd (spec_run cmds (find_entry (kv_data st)))
     \<and> run_ops order (ops_of cmds) st s = (Inr (), st', s')"
proof -
  have "TryParse Command_default tail = Inr (R_PARTIAL, Command_default, tail)"
    using assms(4-6) by (intro TryParse_prefix) simp_all
  then have "handle_loop order st' tail res s' = Some (Inr res, st', tail, s')" for st' res s'
    by (subst handle_loop.simps) simp
  with handle_loop_commands [OF assms(1-3,6), of result] show ?thesis by auto
qed

section \<open>Streams in pieces\<close>

text \<open>Where a prefix of a concatenation ends.\<close>

lemma prefix_concat:
  "prefix p (concat xs) \<Longrightarrow> \<forall>x \<in> set xs. x \<noteq> [] \<Longrightarrow>
     \<exists>i tail. i \<le> length xs \<and> p = concat (take i xs) @ tail
       \<and> (i < length xs \<and> strict_prefix tail (xs ! i) \<or> i = length xs \<and> tail = [])"
proof (induction xs arbitrary: p)
  case Nil
  then show ?case by simp
next
  case (Cons x xs)
  show ?case
  proof (cases "strict_prefix p x")
    case True
    then show ?thesis by (intro exI [of _ 0] exI [of _ p]) simp
  next
    case False
    with Cons.prems(1) obtain q where q: "p = x @ q" "prefix q (concat xs)"
      by (auto simp: prefix_append strict_prefix_def)
    from Cons.IH [OF q(2)] Cons.prems(2) obtain i tail where
      "i \<le> length xs" "q = concat (take i xs) @ tail"
      "i < length xs \<and> strict_prefix tail (xs ! i) \<or> i = length xs \<and> tail = []" by auto
    with q(1) show ?thesis by (intro exI [of _ "Suc i"] exI [of _ tail]) auto
  qed
qed

lemma SerializeCommand_nonempty [simp]: "SerializeCommand c \<noteq> []" "[] \<noteq> SerializeCommand c"
  by (simp_all add: SerializeCommand_def)

text \<open>The bytes of one connection arrive in pieces: the handler is called for each, and the replies are
  sent one after the other.\<close>

fun deliver ::
  "(int \<Rightarrow> nat) \<Rightarrow> iteration \<Rightarrow> int \<Rightarrow> string list \<Rightarrow> KvServer \<Rightarrow> os \<Rightarrow> (string result \<times> KvServer \<times> os) option" where
  "deliver hash order fd [] srv s = Some (Inr [], srv, s)"
| "deliver hash order fd (d # ds) srv s =
     (case OnMessage hash order fd d srv s of
        None \<Rightarrow> None
      | Some (Inl e, srv1, s1) \<Rightarrow> Some (Inl e, srv1, s1)
      | Some (Inr r, srv1, s1) \<Rightarrow>
          (case deliver hash order fd ds srv1 s1 of
             None \<Rightarrow> None
           | Some (rs, srv2, s2) \<Rightarrow> Some (rbind rs (\<lambda>x. Inr (r @ x)), srv2, s2)))"

definition wf_server :: "KvServer \<Rightarrow> bool" where
  "wf_server srv \<longleftrightarrow> length (shards srv) = SHARD_COUNT"

lemma GetShard_less: "wf_server srv \<Longrightarrow> GetShard hash fd < length (shards srv)"
  by (simp add: wf_server_def GetShard_def SHARD_COUNT_def)

lemma put_reader_simps [simp]:
  "srv_store (put_reader hash fd r srv) = srv_store srv"
  "wf_server (put_reader hash fd r srv) = wf_server srv"
  "wf_server (srv\<lparr>srv_store := st\<rparr>) = wf_server srv"
  "reader_of hash (srv\<lparr>srv_store := st\<rparr>) fd = reader_of hash srv fd"
  by (simp_all add: put_reader_def wf_server_def reader_of_def Let_def)

text \<open>The readers of the connections are independent, also within a shard.\<close>

lemma reader_of_put:
  "wf_server srv \<Longrightarrow> reader_of hash (put_reader hash fd r srv) fd' = (if fd' = fd then r else reader_of hash srv fd')"
  using GetShard_less [of srv hash fd]
  by (auto simp: reader_of_def put_reader_def Let_def nth_list_update)

text \<open>One piece of a stream of commands: the commands that are complete with it are executed, the beginning of
  the next one stays in the connection's buffer.\<close>

lemma OnMessage_piece:
  assumes "visits_once order" and "live (srv_store srv) s" and "wf_server srv" and "\<forall>c \<in> set cmds. wf_command c"
    and "prefix (reader_of hash srv fd @ d) (concat (map SerializeCommand cmds))"
    and "length (concat (map SerializeCommand cmds)) < 2 ^ 63"
  obtains i srv1 s1 where "i \<le> length cmds"
    and "OnMessage hash order fd d srv s = Some (Inr (replies (take i cmds) (find_entry (kv_data (srv_store srv)))), srv1, s1)"
    and "live (srv_store srv1) s1" and "wf_server srv1"
    and "find_entry (kv_data (srv_store srv1)) = snd (spec_run (take i cmds) (find_entry (kv_data (srv_store srv))))"
    and "reader_of hash srv fd @ d = concat (map SerializeCommand (take i cmds)) @ reader_of hash srv1 fd"
    and "i < length cmds \<and> strict_prefix (reader_of hash srv1 fd) (SerializeCommand (cmds ! i))
       \<or> i = length cmds \<and> reader_of hash srv1 fd = []"
    and "\<forall>fd'. fd' \<noteq> fd \<longrightarrow> reader_of hash srv1 fd' = reader_of hash srv fd'"
    and "run_ops order (ops_of (take i cmds)) (srv_store srv) s = (Inr (), srv_store srv1, s1)"
proof -
  let ?b = "reader_of hash srv fd" and ?m = "find_entry (kv_data (srv_store srv))"
  have "\<forall>x \<in> set (map SerializeCommand cmds). x \<noteq> []" by simp
  with assms(5) obtain i tail where a: "i \<le> length (map SerializeCommand cmds)"
    "?b @ d = concat (take i (map SerializeCommand cmds)) @ tail"
    "i < length (map SerializeCommand cmds) \<and> strict_prefix tail (map SerializeCommand cmds ! i)
       \<or> i = length (map SerializeCommand cmds) \<and> tail = []"
    using prefix_concat by blast
  from a have i: "i \<le> length cmds" "?b @ d = concat (map SerializeCommand (take i cmds)) @ tail"
    and or: "i < length cmds \<and> strict_prefix tail (SerializeCommand (cmds ! i)) \<or> i = length cmds \<and> tail = []"
    by (auto simp: take_map)
  obtain c where c: "wf_command c" "strict_prefix tail (SerializeCommand c)"
  proof (cases "i < length cmds")
    case True
    with or assms(4) that [of "cmds ! i"] show ?thesis by auto
  next
    case False
    have "wf_command \<lparr>type = KEYS, args = [], error = NONE\<rparr>" by (simp add: wf_command_def)
    with False or that [OF this] show ?thesis by (simp add: strict_prefix_def)
  qed
  have wf_i: "\<forall>c \<in> set (take i cmds). wf_command c" using assms(4) set_take_subset by fastforce
  have len: "length (concat (map SerializeCommand (take i cmds)) @ tail) < 2 ^ 63"
    using prefix_length_le [OF assms(5)] assms(6) i(2) by simp
  obtain st1 s1 where h: "handle_loop order (srv_store srv) (?b @ d) [] s
      = Some (Inr (replies (take i cmds) ?m), st1, tail, s1)"
    "live st1 s1" "find_entry (kv_data st1) = snd (spec_run (take i cmds) ?m)"
    "run_ops order (ops_of (take i cmds)) (srv_store srv) s = (Inr (), st1, s1)"
    using handle_loop_stream [OF assms(1,2) wf_i c len, of "[]"] i(2) by auto
  let ?srv1 = "put_reader hash fd tail (srv\<lparr>srv_store := st1\<rparr>)"
  have on: "OnMessage hash order fd d srv s = Some (Inr (replies (take i cmds) ?m), ?srv1, s1)"
    by (simp add: OnMessage_def Feed_def h(1))
  have rd: "reader_of hash ?srv1 fd = tail" "\<And>fd'. fd' \<noteq> fd \<Longrightarrow> reader_of hash ?srv1 fd' = reader_of hash srv fd'"
    using assms(3) by (simp_all add: reader_of_put)
  show ?thesis
  proof (rule that [OF i(1) on])
    show "live (srv_store ?srv1) s1" "wf_server ?srv1" using h(2) assms(3) by simp_all
    show "find_entry (kv_data (srv_store ?srv1)) = snd (spec_run (take i cmds) ?m)" using h(3) by simp
    show "?b @ d = concat (map SerializeCommand (take i cmds)) @ reader_of hash ?srv1 fd" using i(2) rd(1) by simp
    show "i < length cmds \<and> strict_prefix (reader_of hash ?srv1 fd) (SerializeCommand (cmds ! i))
       \<or> i = length cmds \<and> reader_of hash ?srv1 fd = []" using or rd(1) by simp
  qed (simp_all add: rd(2) h(4))
qed

lemma commands_rest:
  assumes "concat (map SerializeCommand (take i cmds)) @ r = concat (map SerializeCommand cmds)"
  shows "r = concat (map SerializeCommand (drop i cmds))"
  using assms by (metis append_take_drop_id concat_append map_append same_append_eq)

lemma drop_commands_length:
  "length (concat (map SerializeCommand cmds)) < n \<Longrightarrow> length (concat (map SerializeCommand (drop i cmds))) < n"
proof -
  assume a: "length (concat (map SerializeCommand cmds)) < n"
  have "concat (map SerializeCommand cmds) = concat (map SerializeCommand (take i cmds)) @ concat (map SerializeCommand (drop i cmds))"
    by (metis append_take_drop_id concat_append map_append)
  from arg_cong [OF this, of length] a show ?thesis by simp
qed

lemma deliver_stream:
  assumes "visits_once order" and "live (srv_store srv) s" and "wf_server srv"
    and "\<forall>c \<in> set cmds. wf_command c"
    and "reader_of hash srv fd @ concat ds = concat (map SerializeCommand cmds)"
    and "reader_of hash srv fd = [] \<or> cmds \<noteq> [] \<and> strict_prefix (reader_of hash srv fd) (SerializeCommand (hd cmds))"
    and "length (concat (map SerializeCommand cmds)) < 2 ^ 63"
  shows "\<exists>srv' s'. deliver hash order fd ds srv s
       = Some (Inr (replies cmds (find_entry (kv_data (srv_store srv)))), srv', s')
     \<and> live (srv_store srv') s' \<and> find_entry (kv_data (srv_store srv')) = snd (spec_run cmds (find_entry (kv_data (srv_store srv))))
     \<and> reader_of hash srv' fd = [] \<and> wf_server srv' \<and> (\<forall>fd'. fd' \<noteq> fd \<longrightarrow> reader_of hash srv' fd' = reader_of hash srv fd')
     \<and> run_ops order (ops_of cmds) (srv_store srv) s = (Inr (), srv_store srv', s')"
  using assms(2-7)
proof (induction ds arbitrary: srv s cmds)
  case Nil
  have "cmds = []"
  proof (cases cmds)
    case (Cons c cs)
    with Nil.prems(4,5) show ?thesis by (auto simp: strict_prefix_def prefix_def)
  qed simp
  with Nil.prems show ?case by simp
next
  case (Cons d ds)
  let ?b = "reader_of hash srv fd" and ?m = "find_entry (kv_data (srv_store srv))"
  have "prefix (?b @ d) (concat (map SerializeCommand cmds))"
    using Cons.prems(4) by (metis append_assoc concat.simps(2) prefixI)
  then obtain i srv1 s1 where "i \<le> length cmds"
    and p: "OnMessage hash order fd d srv s = Some (Inr (replies (take i cmds) ?m), srv1, s1)" "live (srv_store srv1) s1" "wf_server srv1"
      "find_entry (kv_data (srv_store srv1)) = snd (spec_run (take i cmds) ?m)"
      "?b @ d = concat (map SerializeCommand (take i cmds)) @ reader_of hash srv1 fd"
      "i < length cmds \<and> strict_prefix (reader_of hash srv1 fd) (SerializeCommand (cmds ! i)) \<or> i = length cmds \<and> reader_of hash srv1 fd = []"
      "\<forall>fd'. fd' \<noteq> fd \<longrightarrow> reader_of hash srv1 fd' = reader_of hash srv fd'"
      "run_ops order (ops_of (take i cmds)) (srv_store srv) s = (Inr (), srv_store srv1, s1)"
    by (rule OnMessage_piece [OF assms(1) Cons.prems(1-3) _ Cons.prems(6)])
  have rest: "reader_of hash srv1 fd @ concat ds = concat (map SerializeCommand (drop i cmds))"
    using Cons.prems(4) p(5) by (intro commands_rest) (metis append_assoc concat.simps(2))
  have "\<forall>c \<in> set (drop i cmds). wf_command c" using Cons.prems(3) set_drop_subset by fastforce
  moreover have "reader_of hash srv1 fd = [] \<or> drop i cmds \<noteq> [] \<and> strict_prefix (reader_of hash srv1 fd) (SerializeCommand (hd (drop i cmds)))"
    using p(6) by (auto simp: hd_drop_conv_nth)
  ultimately obtain srv' s' where "deliver hash order fd ds srv1 s1
       = Some (Inr (replies (drop i cmds) (find_entry (kv_data (srv_store srv1)))), srv', s')"
     "live (srv_store srv') s'" "find_entry (kv_data (srv_store srv')) = snd (spec_run (drop i cmds) (find_entry (kv_data (srv_store srv1))))"
     "reader_of hash srv' fd = []" "wf_server srv'" "\<forall>fd'. fd' \<noteq> fd \<longrightarrow> reader_of hash srv' fd' = reader_of hash srv1 fd'"
     "run_ops order (ops_of (drop i cmds)) (srv_store srv1) s1 = (Inr (), srv_store srv', s')"
    using Cons.IH [OF p(2,3) _ rest _ drop_commands_length [OF Cons.prems(6)]] by blast
  moreover have "ops_of cmds = ops_of (take i cmds) @ ops_of (drop i cmds)"
    by (metis append_take_drop_id concat_append map_append)
  ultimately show ?case
    using p(1,4,7,8) spec_run_append [of "take i cmds" "drop i cmds" ?m]
    by (auto simp: append_take_drop_id run_ops_append)
qed

section \<open>Requests that never end\<close>

text \<open>A bulk string with a negative length takes the parser back to the start of the buffer: the command
  is executed and nothing is removed.\<close>

abbreviation looping_request :: string where
  "looping_request \<equiv> ''*1'' @ crlf @ ''$-12'' @ crlf @ ''KEYS''"

lemma TryParse_looping:
  "TryParse c0 looping_request = Inr (R_OK, \<lparr>type = KEYS, args = [], error = NONE\<rparr>, looping_request)"
  by (simp add: TryParse_def ReadLine_def str_find_def crlf_def stoi_def scan_int_def scan_sign_def is_space_def is_digit_def
      dec_value_def substr_def int_max_def int_min_def ReadBulkString_def to_size_def build_command_def classify_def
      ToUpper_def upper_char_def size_max_def Let_def)

lemma handle_loop_returns:
  assumes "handle_loop order st r result s = Some y"
  shows "r \<noteq> looping_request"
  using assms
proof (rule handle_loop.raw_induct [where P = "\<lambda>order st r result s y. r \<noteq> looping_request", rotated], goal_cases)
  case (1 loop order st r result s y)
  show ?case
  proof
    assume r: "r = looping_request"
    have "execute order \<lparr>type = KEYS, args = [], error = NONE\<rparr> st s
        = (Inr \<lparr>status = COUNT, message = to_string (length (KvStore_AllKeys order st))\<rparr>, st, s)"
      by (simp add: execute_def)
    with 1(2) TryParse_looping [of Command_default] have
      "loop order st looping_request (result @ SerializeResponse \<lparr>status = COUNT, message = to_string (length (KvStore_AllKeys order st))\<rparr>) s = Some y"
      unfolding r by (simp only: sum.case prod.case Result.case if_False CommandType.distinct Command.simps)
    from 1(1) [OF this] show False by simp
  qed
qed

lemma handle_loop_diverges: "handle_loop order st looping_request result s = None"
  using handle_loop_returns [of order st looping_request result s] by (metis not_None_eq)

section \<open>Properties\<close>

text \<open>C8: the server implements its specification. The bytes of any sequence of well-formed commands on
  one connection, cut into pieces in any way, are answered by exactly the serialised responses of the
  commands, executed in order on the finite map that the store represents; the handler returns for
  every piece, and nothing is left in the connection's buffer.\<close>

theorem server_implements_spec:
  assumes "visits_once order" and "live (srv_store srv) s" and "wf_server srv" and "reader_of hash srv fd = []"
    and "\<forall>c \<in> set cmds. wf_command c" and "concat pieces = concat (map SerializeCommand cmds)"
    and "length (concat pieces) < 2 ^ 63"
  shows "\<exists>srv' s'. deliver hash order fd pieces srv s
       = Some (Inr (concat (map SerializeResponse (fst (spec_run cmds (\<lambda>k. KvStore_Get k (srv_store srv)))))), srv', s')
     \<and> (\<lambda>k. KvStore_Get k (srv_store srv')) = snd (spec_run cmds (\<lambda>k. KvStore_Get k (srv_store srv)))
     \<and> reader_of hash srv' fd = [] \<and> live (srv_store srv') s'"
proof -
  have "(\<lambda>k. KvStore_Get k (srv_store x)) = find_entry (kv_data (srv_store x))" for x :: KvServer
    by (simp add: KvStore_Get_def)
  then show ?thesis
    using deliver_stream [OF assms(1-3,5), of hash fd pieces] assms(4,6,7) by auto
qed

abbreviation ex_cmds :: "Command list" where
  "ex_cmds \<equiv> [\<lparr>type = SET, args = [''k'', ''v''], error = NONE\<rparr>, \<lparr>type = GET, args = [''k''], error = NONE\<rparr>]"

text \<open>A server that has just been created in an empty directory.\<close>

lemma fresh_server:
  "\<exists>srv s. KvServer_ctor ServerConfig_default WAL_ctor os_start = (Inr (), srv, s) \<and> wf_server srv \<and> live (srv_store srv) s
     \<and> kv_data (srv_store srv) = [] \<and> reader_of hash srv fd = []"
proof -
  let ?dir = "cfg_data_dir ServerConfig_default"
  obtain r st s where c: "PersistentKvStore_ctor ?dir WAL_ctor os_start = (r, st, s)"
    by (cases "PersistentKvStore_ctor ?dir WAL_ctor os_start") auto
  have e: "files os_start p = None" for p by (simp add: os_start_def)
  note f = ctor_fresh [OF faults_start os_wf_start e e c]
  have "live st s" using f(3,4) by (rule consistent_live)
  with f c show ?thesis
    by (simp add: KvServer_ctor_def wf_server_def reader_of_def GetShard_def SHARD_COUNT_def)
qed

theorem server_implements_spec_witness:
  "\<exists>srv s srv' s'. KvServer_ctor ServerConfig_default WAL_ctor os_start = (Inr (), srv, s)
     \<and> deliver nat rev 7 [''*3'' @ crlf @ ''$3'' @ crlf @ ''SET'' @ crlf @ ''$1'' @ crlf @ ''k'' @ crlf @ ''$1'',
          crlf @ ''v'' @ crlf @ ''*2'' @ crlf @ ''$3'' @ crlf @ ''GET'' @ crlf @ ''$1'' @ crlf @ ''k'' @ crlf] srv s
        = Some (Inr (''+OK'' @ crlf @ ''$1'' @ crlf @ ''v'' @ crlf), srv', s')"
proof -
  obtain srv s where f: "KvServer_ctor ServerConfig_default WAL_ctor os_start = (Inr (), srv, s)" "wf_server srv"
    "live (srv_store srv) s" "kv_data (srv_store srv) = []" "reader_of nat srv 7 = []" using fresh_server by blast
  let ?p = "[''*3'' @ crlf @ ''$3'' @ crlf @ ''SET'' @ crlf @ ''$1'' @ crlf @ ''k'' @ crlf @ ''$1'',
          crlf @ ''v'' @ crlf @ ''*2'' @ crlf @ ''$3'' @ crlf @ ''GET'' @ crlf @ ''$1'' @ crlf @ ''k'' @ crlf]"
  have wf: "\<forall>c \<in> set ex_cmds. wf_command c" by (simp add: wf_command_def fits_bulk_def int_max_def)
  have st: "concat ?p = concat (map SerializeCommand ex_cmds)"
    by (simp add: SerializeCommand_def bulk_def dec_eval crlf_def)
  have len: "length (concat ?p) < 2 ^ 63" by simp
  have r: "concat (map SerializeResponse (fst (spec_run ex_cmds (\<lambda>k. KvStore_Get k (srv_store srv))))) = ''+OK'' @ crlf @ ''$1'' @ crlf @ ''v'' @ crlf"
    by (simp add: spec_cmd.simps SerializeResponse_def dec_eval)
  from server_implements_spec [OF visits_once_rev f(3,2,5) wf st len] obtain srv' s' where
    "deliver nat rev 7 ?p srv s = Some (Inr (''+OK'' @ crlf @ ''$1'' @ crlf @ ''v'' @ crlf), srv', s')"
    unfolding r by blast
  with f(1) show ?thesis by blast
qed

text \<open>A connection cannot disturb the input of another: handling a message of one leaves what was
  received so far from every other as it was, whatever the message holds and whichever connections
  share its shard.\<close>

theorem connections_isolated:
  assumes "wf_server srv" and "OnMessage hash order fd data srv s = Some (res, srv', s')" and "fd' \<noteq> fd"
  shows "reader_of hash srv' fd' = reader_of hash srv fd' \<and> wf_server srv'"
  using assms by (auto simp: OnMessage_def reader_of_put split: option.splits)

theorem connections_isolated_witness:
  "\<exists>srv s res srv' s'. KvServer_ctor ServerConfig_default WAL_ctor os_start = (Inr (), srv, s)
     \<and> OnMessage nat rev 7 ''*1'' (put_reader nat 23 ''*2'' srv) s = Some (res, srv', s') \<and> reader_of nat srv' 23 = ''*2''"
proof -
  obtain srv s where f: "KvServer_ctor ServerConfig_default WAL_ctor os_start = (Inr (), srv, s)" "wf_server srv"
    "reader_of nat srv 7 = []" using fresh_server by blast
  let ?srv = "put_reader nat 23 ''*2'' srv"
  have "TryParse Command_default ''*1'' = Inr (R_PARTIAL, Command_default, ''*1'')"
    by (simp add: TryParse_def ReadLine_def str_find_def crlf_def)
  then have "OnMessage nat rev 7 ''*1'' ?srv s = Some (Inr [], put_reader nat 7 ''*1'' (?srv\<lparr>srv_store := srv_store ?srv\<rparr>), s)"
    using f(2,3) by (simp add: OnMessage_def Feed_def reader_of_put handle_loop.simps)
  from connections_isolated [OF _ this, of 23] f this show ?thesis by (auto simp: reader_of_put)
qed

text \<open>C27: one request hangs the handler. A bulk string with the length -12 makes the parser step back to
  the start of the buffer; the command is executed again and again and the handler never returns,
  with the lock of the shard held and the reply growing.\<close>

theorem negative_length_hangs:
  assumes "reader_of hash srv fd = []"
  shows "OnMessage hash order fd (''*1'' @ crlf @ ''$-12'' @ crlf @ ''KEYS'') srv s = None"
  using assms by (simp add: OnMessage_def Feed_def handle_loop_diverges [simplified])

theorem negative_length_hangs_witness:
  "\<exists>srv s. KvServer_ctor ServerConfig_default WAL_ctor os_start = (Inr (), srv, s)
     \<and> OnMessage nat rev 7 (''*1'' @ crlf @ ''$-12'' @ crlf @ ''KEYS'') srv s = None"
  using negative_length_hangs fresh_server by blast

text \<open>A well-formed request with an unknown command name is undefined behaviour in the server: the
  parser returns it as \<open>SET\<close> without arguments, and the handler reads \<open>args[0]\<close> of the empty
  vector instead of replying with an error.\<close>

theorem unknown_command_undefined:
  assumes "reader_of hash srv fd = []" and "classify (ToUpper name) = None" and "fits_bulk name"
  shows "\<exists>srv' s'. OnMessage hash order fd (''*1'' @ crlf @ bulk name) srv s = Some (Inl Undefined, srv', s')"
proof -
  have "build_command [name] = Inr (Command_braced UNKNOWN_COMMAND)" using assms(2) by (simp add: build_command_def)
  moreover have "length (bulk name) < 2 ^ 62"
    using assms(3) length_to_string [of "length name"] by (simp add: length_bulk fits_bulk_def int_max_def)
  ultimately have p: "TryParse Command_default (''*1'' @ crlf @ bulk name) = Inr (R_OK, Command_braced UNKNOWN_COMMAND, [])"
    using TryParse_bulks [of "[name]" "[]" Command_default] assms(3) by (simp add: dec_eval)
  have "execute order (Command_braced UNKNOWN_COMMAND) st s = (Inl Undefined, st, s)" for st
    by (simp add: execute_def Command_braced_def CommandType_value_init_def nth_arg_def)
  with p have "handle_loop order st (''*1'' @ crlf @ bulk name) result s = Some (Inl Undefined, st, [], s)" for st result
    by (subst handle_loop.simps) (simp add: Command_braced_def CommandType_value_init_def)
  then show ?thesis using assms(1) by (simp add: OnMessage_def Feed_def)
qed

theorem unknown_command_undefined_witness:
  "\<exists>srv s srv' s'. KvServer_ctor ServerConfig_default WAL_ctor os_start = (Inr (), srv, s)
     \<and> OnMessage nat rev 7 (''*1'' @ crlf @ bulk ''PING'') srv s = Some (Inl Undefined, srv', s')"
proof -
  obtain srv s where f: "KvServer_ctor ServerConfig_default WAL_ctor os_start = (Inr (), srv, s)" "reader_of nat srv 7 = []"
    using fresh_server by blast
  have "classify (ToUpper ''PING'') = None" "fits_bulk ''PING''"
    by (simp_all add: classify_def ToUpper_def upper_char_def fits_bulk_def int_max_def)
  with unknown_command_undefined [OF f(2)] f(1) show ?thesis by blast
qed

text \<open>A header that is no number disables its connection. The commands before it in the same piece
  are executed, but their replies are lost with the exception; the header stays in the buffer, so every
  later message of the connection ends in the same exception, without a reply.\<close>

theorem bad_header_disables_connection:
  assumes "visits_once order" and "live (srv_store srv) s" and "wf_server srv" and "reader_of hash srv fd = []"
    and "\<forall>c \<in> set cmds. wf_command c" and "length (concat (map SerializeCommand cmds)) < 2 ^ 62"
  shows "\<exists>srv' s'. OnMessage hash order fd (concat (map SerializeCommand cmds) @ ''*x'' @ crlf) srv s = Some (Inl InvalidArgument, srv', s')
     \<and> (\<lambda>k. KvStore_Get k (srv_store srv')) = snd (spec_run cmds (\<lambda>k. KvStore_Get k (srv_store srv)))
     \<and> (\<forall>more s1. \<exists>srv2. OnMessage hash order fd more srv' s1 = Some (Inl InvalidArgument, srv2, s1))"
proof -
  have bad: "handle_loop order st (''*x'' @ crlf @ more) result s = Some (Inl InvalidArgument, st, ''*x'' @ crlf @ more, s)" for st more result s
  proof -
    have "ReadLine (''*x'' @ crlf @ more) 0 = Some (''*x'', 4)"
      using ReadLine_found [of "''*x''" "[]" more] by simp
    then have "TryParse Command_default (''*x'' @ crlf @ more) = Inl InvalidArgument"
      by (simp add: TryParse_def substr_def size_max_def stoi_def scan_int_def scan_sign_def is_space_def is_digit_def)
    then show ?thesis by (subst handle_loop.simps) simp
  qed
  have g: "(\<lambda>k. KvStore_Get k x) = find_entry (kv_data x)" for x :: PersistentKvStore
    by (simp add: KvStore_Get_def)
  have len: "length (concat (map SerializeCommand cmds) @ ''*x'' @ crlf) < 2 ^ 63" using assms(6) by simp
  obtain st' s' where h: "handle_loop order (srv_store srv) (concat (map SerializeCommand cmds) @ ''*x'' @ crlf) [] s
      = Some (Inl InvalidArgument, st', ''*x'' @ crlf, s')"
    "find_entry (kv_data st') = snd (spec_run cmds (find_entry (kv_data (srv_store srv))))"
    using handle_loop_commands [OF assms(1,2,5) len, of "[]"] bad [where more = "[]"] by auto
  let ?srv = "put_reader hash fd (''*x'' @ crlf) (srv\<lparr>srv_store := st'\<rparr>)"
  have rd: "reader_of hash ?srv fd = ''*x'' @ crlf" using assms(3) by (simp add: reader_of_put)
  have "OnMessage hash order fd (concat (map SerializeCommand cmds) @ ''*x'' @ crlf) srv s = Some (Inl InvalidArgument, ?srv, s')"
    using assms(4) h(1) by (simp only: OnMessage_def Feed_def append_Nil option.case prod.case)
  moreover have "\<exists>srv2. OnMessage hash order fd more ?srv s1 = Some (Inl InvalidArgument, srv2, s1)" for more s1
    unfolding OnMessage_def Feed_def rd append_assoc bad by simp
  ultimately show ?thesis using h(2) by (intro exI [of _ ?srv] exI [of _ s']) (simp add: g)
qed

theorem bad_header_disables_connection_witness:
  "\<exists>srv s srv' s'. KvServer_ctor ServerConfig_default WAL_ctor os_start = (Inr (), srv, s)
     \<and> OnMessage nat rev 7 (concat (map SerializeCommand ex_cmds) @ ''*x'' @ crlf) srv s = Some (Inl InvalidArgument, srv', s')
     \<and> (\<exists>srv2. OnMessage nat rev 7 (SerializeCommand (hd ex_cmds)) srv' s' = Some (Inl InvalidArgument, srv2, s'))"
proof -
  obtain srv s where f: "KvServer_ctor ServerConfig_default WAL_ctor os_start = (Inr (), srv, s)" "wf_server srv"
    "live (srv_store srv) s" "reader_of nat srv 7 = []" using fresh_server by blast
  have wf: "\<forall>c \<in> set ex_cmds. wf_command c" by (simp add: wf_command_def fits_bulk_def int_max_def)
  have len: "length (concat (map SerializeCommand ex_cmds)) < 2 ^ 62"
    by (simp add: SerializeCommand_def bulk_def dec_eval)
  from bad_header_disables_connection [OF visits_once_rev f(3,2,4) wf len] f(1) show ?thesis by blast
qed

text \<open>Descriptors are reused, but the readers are kept: when a connection is closed in the middle of a
  request and the next one gets the same descriptor, its first command is appended to the old bytes
  and is not answered.\<close>

theorem reused_descriptor_unanswered:
  assumes "wf_server srv" and "reader_of hash srv fd = []"
  shows "\<exists>srv1. OnMessage hash order fd (''*1'' @ crlf) srv s = Some (Inr [], srv1, s)
     \<and> (\<exists>srv2. OnMessage hash order fd (SerializeCommand \<lparr>type = KEYS, args = [], error = NONE\<rparr>) srv1 s = Some (Inr [], srv2, s))"
proof -
  have eval: "TryParse Command_default b = Inr (R_PARTIAL, Command_default, b)"
    if "b \<in> {''*1'' @ crlf, ''*1'' @ crlf @ SerializeCommand \<lparr>type = KEYS, args = [], error = NONE\<rparr>}" for b
    using that
    by (auto simp: TryParse_def ReadLine_def str_find_def crlf_def stoi_def scan_int_def scan_sign_def is_space_def is_digit_def
      dec_value_def substr_def int_max_def int_min_def ReadBulkString_def size_max_def Let_def SerializeCommand_def bulk_def dec_eval)
  have partial: "handle_loop order st b r s = Some (Inr r, st, b, s)"
    if "b \<in> {''*1'' @ crlf, ''*1'' @ crlf @ SerializeCommand \<lparr>type = KEYS, args = [], error = NONE\<rparr>}" for b st r
    by (subst handle_loop.simps) (simp add: eval [OF that])
  let ?srv = "put_reader hash fd (''*1'' @ crlf) (srv\<lparr>srv_store := srv_store srv\<rparr>)"
  have rd: "reader_of hash ?srv fd = ''*1'' @ crlf" using assms(1) by (simp add: reader_of_put)
  have "OnMessage hash order fd (''*1'' @ crlf) srv s = Some (Inr [], ?srv, s)"
    unfolding OnMessage_def Feed_def assms(2) append_Nil by (subst partial) simp_all
  moreover have "\<exists>srv2. OnMessage hash order fd (SerializeCommand \<lparr>type = KEYS, args = [], error = NONE\<rparr>) ?srv s = Some (Inr [], srv2, s)"
    unfolding OnMessage_def Feed_def rd append_assoc by (subst partial) simp_all
  ultimately show ?thesis by blast
qed

theorem reused_descriptor_unanswered_witness:
  "\<exists>srv s srv1 srv2. KvServer_ctor ServerConfig_default WAL_ctor os_start = (Inr (), srv, s)
     \<and> OnMessage nat rev 7 (''*1'' @ crlf) srv s = Some (Inr [], srv1, s)
     \<and> OnMessage nat rev 7 (SerializeCommand \<lparr>type = KEYS, args = [], error = NONE\<rparr>) srv1 s = Some (Inr [], srv2, s)"
proof -
  obtain srv s where f: "KvServer_ctor ServerConfig_default WAL_ctor os_start = (Inr (), srv, s)" "wf_server srv"
    "reader_of nat srv 7 = []" using fresh_server by blast
  from reused_descriptor_unanswered [OF f(2,3)] f(1) show ?thesis by blast
qed

end
