(* ===== verification/KvSystem.thy ===== *)
theory KvSystem
  imports ServerRun KvServer
begin

text \<open>
  The key-value server behind its TCP server: the callback that \<open>KvServer\<close> registers, run by the workers of the
  pool on what the event loop reads from many connections.
\<close>

section \<open>The callback\<close>

definition kv_callback :: "(int \<Rightarrow> nat) \<Rightarrow> iteration \<Rightarrow> (KvServer \<times> os) callback" where
  "kv_callback hash order fd data a =
     (case OnMessage hash order fd data (fst a) (snd a) of None \<Rightarrow> None | Some (r, srv, s) \<Rightarrow> Some (r, (srv, s)))"

section \<open>Commands of many connections\<close>




abbreviation stream_of :: "Command list \<Rightarrow> string" where
  "stream_of cmds \<equiv> concat (map SerializeCommand cmds)"











section \<open>The server behind the network\<close>








text \<open>A client that connects to a new server and sends one command.\<close>

abbreviation ex_set :: Command where
  "ex_set \<equiv> \<lparr>type = SET, args = [''k'', ''v''], error = NONE\<rparr>"



text \<open>A piece that is one command.\<close>

lemma OnMessage_command:
  assumes "visits_once order" and "live (srv_store srv) s" and "wf_server srv" and "reader_of hash srv fd = []"
    and "wf_command c" and "length (SerializeCommand c) < 2 ^ 63"
  obtains srv1 s1 where "OnMessage hash order fd (SerializeCommand c) srv s
       = Some (Inr (SerializeResponse (fst (spec_cmd c (find_entry (kv_data (srv_store srv)))))), srv1, s1)"
    and "live (srv_store srv1) s1" and "wf_server srv1" and "reader_of hash srv1 fd = []"
    and "find_entry (kv_data (srv_store srv1)) = snd (spec_cmd c (find_entry (kv_data (srv_store srv))))"
proof -
  let ?m = "find_entry (kv_data (srv_store srv))"
  have wf: "\<forall>x \<in> set [c]. wf_command x" and pre: "prefix (reader_of hash srv fd @ SerializeCommand c) (stream_of [c])"
    and len: "length (stream_of [c]) < 2 ^ 63" using assms(4-6) by simp_all
  obtain i srv1 s1 where i: "i \<le> length [c]"
    and p: "OnMessage hash order fd (SerializeCommand c) srv s = Some (Inr (replies (take i [c]) ?m), srv1, s1)" "live (srv_store srv1) s1" "wf_server srv1"
      "find_entry (kv_data (srv_store srv1)) = snd (spec_run (take i [c]) ?m)"
      "reader_of hash srv fd @ SerializeCommand c = stream_of (take i [c]) @ reader_of hash srv1 fd"
      "i < length [c] \<and> strict_prefix (reader_of hash srv1 fd) (SerializeCommand ([c] ! i)) \<or> i = length [c] \<and> reader_of hash srv1 fd = []"
      "\<forall>fd'. fd' \<noteq> fd \<longrightarrow> reader_of hash srv1 fd' = reader_of hash srv fd'"
      "run_ops order (ops_of (take i [c])) (srv_store srv) s = (Inr (), srv_store srv1, s1)"
    by (rule OnMessage_piece [OF assms(1-3) wf pre len])
  have "i = 1" using i p(5,6) assms(4) by (cases i) auto
  with that [of srv1 s1] p show ?thesis by (simp add: case_prod_beta Let_def)
qed

section \<open>Properties\<close>







text \<open>C26: a client that does not wait can find its commands in the wrong order. Two \<open>SET\<close> commands for one key arrive
  in two reads; two workers take them, the second is handled first. Both are answered with \<open>+OK\<close>, and the
  store has the value of the command that was sent first.\<close>

theorem pipelined_sets_swapped:
  assumes "visits_once order" and "live (srv_store srv) s" and "wf_server srv" and "reader_of hash srv 5 = []"
    and "sys_start ex_calls po tc (kv_callback hash order) (srv, s) = Some y0" and "tc \<noteq> 1"
    and "c1 = \<lparr>type = SET, args = [k, v1], error = NONE\<rparr>" and "c2 = \<lparr>type = SET, args = [k, v2], error = NONE\<rparr>"
    and "wf_command c1" and "wf_command c2" and "length (SerializeCommand c1) < 2 ^ 63" and "length (SerializeCommand c2) < 2 ^ 63"
  shows "\<exists>y p. run_events (ex_race (SerializeCommand c1) (SerializeCommand c2)) y0 = Some y \<and> thread_pool (tcp y) = Some p
     \<and> submitted p = [(5, SerializeCommand c1), (5, SerializeCommand c2)] \<and> sent_on (sys_net y) 5 = ''+OK'' @ crlf @ ''+OK'' @ crlf
     \<and> KvStore_Get k (srv_store (fst (app y))) = Some v1"
proof -
  obtain srv1 s1 where m: "OnMessage hash order 5 (SerializeCommand c2) srv s
       = Some (Inr (SerializeResponse (fst (spec_cmd c2 (find_entry (kv_data (srv_store srv)))))), srv1, s1)"
    "live (srv_store srv1) s1" "wf_server srv1" "reader_of hash srv1 5 = []"
    "find_entry (kv_data (srv_store srv1)) = snd (spec_cmd c2 (find_entry (kv_data (srv_store srv))))"
    by (rule OnMessage_command [OF assms(1-4,10,12)])
  obtain srv2 s2 where n: "OnMessage hash order 5 (SerializeCommand c1) srv1 s1
       = Some (Inr (SerializeResponse (fst (spec_cmd c1 (find_entry (kv_data (srv_store srv1)))))), srv2, s2)"
    "live (srv_store srv2) s2" "wf_server srv2" "reader_of hash srv2 5 = []"
    "find_entry (kv_data (srv_store srv2)) = snd (spec_cmd c1 (find_entry (kv_data (srv_store srv1))))"
    by (rule OnMessage_command [OF assms(1) m(2-4) assms(9,11)])
  let ?ok = "''+OK'' @ crlf"
  have ok: "kv_callback hash order 5 (SerializeCommand c2) (srv, s) = Some (Inr ?ok, (srv1, s1))"
    "kv_callback hash order 5 (SerializeCommand c1) (srv1, s1) = Some (Inr ?ok, (srv2, s2))"
    using m(1) n(1) assms(7,8) by (simp_all add: kv_callback_def spec_cmd.simps SerializeResponse_def)
  have "length ?ok \<le> 4096" by (simp add: crlf_def)
  from second_piece_first [OF assms(5,6) _ _ ok this this] n(5) assms(7) show ?thesis
    by (auto simp: KvStore_Get_def spec_cmd.simps)
qed

theorem pipelined_sets_swapped_witness:
  "\<exists>srv s y0 y. KvServer_ctor ServerConfig_default WAL_ctor os_start = (Inr (), srv, s)
     \<and> sys_start ex_calls 6379 0 (kv_callback nat rev) (srv, s) = Some y0
     \<and> run_events (ex_race (SerializeCommand ex_set) (SerializeCommand (ex_set\<lparr>args := [''k'', ''w'']\<rparr>))) y0 = Some y
     \<and> KvStore_Get ''k'' (srv_store (fst (app y))) = Some ''v''"
proof -
  obtain srv s where f: "KvServer_ctor ServerConfig_default WAL_ctor os_start = (Inr (), srv, s)" "wf_server srv"
    "live (srv_store srv) s" "reader_of nat srv 5 = []" using fresh_server by blast
  let ?cb = "kv_callback nat rev" and ?c = "ex_set\<lparr>args := [''k'', ''w'']\<rparr>"
  obtain y0 where y0: "sys_start ex_calls 6379 0 ?cb (srv, s) = Some y0" using ex_start_Some [of 6379 0 ?cb "(srv, s)"] by blast
  have c: "ex_set = \<lparr>type = SET, args = [''k'', ''v''], error = NONE\<rparr>" "?c = \<lparr>type = SET, args = [''k'', ''w''], error = NONE\<rparr>" by simp_all
  have wf: "wf_command ex_set" "wf_command ?c" by (simp_all add: wf_command_def fits_bulk_def int_max_def)
  have len: "length (SerializeCommand ex_set) < 2 ^ 63" "length (SerializeCommand ?c) < 2 ^ 63"
    by (simp_all add: SerializeCommand_def bulk_def dec_eval)
  have "(0 :: nat) \<noteq> 1" by simp
  from pipelined_sets_swapped [OF visits_once_rev f(3,2,4) y0 this c wf len] f(1) y0 show ?thesis by blast
qed

end
