(* ===== verification/ServerMain.thy ===== *)
theory ServerMain
  imports KvSystem
begin

text \<open>
  The program \<open>kv_server\<close>: \<open>main\<close> of \<open>src/server/server_main.cpp\<close> and the parts of \<open>src/server/kv_server.cpp\<close> that create
  the logger, the store and the TCP server, start them and stop them again. Of the log messages the
  model has those of \<open>kv_server.cpp\<close>.

  What the other threads and the environment do is an argument: the results of the system calls of \<open>Start\<close>,
  the number of signals in each period of 100 ms of the loop of \<open>main\<close>, the events of the server while \<open>main\<close>
  waits, and the events while it stops, where \<^const>\<open>None\<close> is a step of the destructor of the thread pool.
\<close>

section \<open>The server object\<close>

record process =
  p_log :: logging
  p_srv :: KvServer
  p_os :: os
  p_tcp :: "(KvServer \<times> os) TcpServer"
  p_net :: net


text \<open>Messages, one after the other.\<close>

fun say :: "(LogLevel \<times> string) list \<Rightarrow> process \<Rightarrow> unit result \<times> process" where
  "say [] pr = (Inr (), pr)"
| "say ((l, msg) # ms) pr =
     (case LOG l msg (p_log pr) of
        (Inl e, g) \<Rightarrow> (Inl e, pr\<lparr>p_log := g\<rparr>)
      | (Inr _, g) \<Rightarrow> say ms (pr\<lparr>p_log := g\<rparr>))"


definition Server_SetLogLevel :: "string \<Rightarrow> process \<Rightarrow> unit result \<times> process" where
  "Server_SetLogLevel level pr =
     say [(LL_INFO, ''Log level changed to: '' @ level)]
       (pr\<lparr>p_srv := KvServer_SetLogLevel level (p_srv pr), p_log := SetLevel (ParseLogLevel level) (p_log pr)\<rparr>)"







section \<open>Signals\<close>





section \<open>The program\<close>




section \<open>Signals and the state of the server\<close>









section \<open>Messages\<close>


section \<open>The log of a server that handles arbitrary bytes\<close>






text \<open>The level takes effect at once: the message about the change appears only if the new level is \<open>info\<close> or \<open>debug\<close>.\<close>

lemma Server_SetLogLevel_message:
  assumes "logging_ok (p_log pr)" and "singleton (p_log pr) = Some i" and "Server_SetLogLevel level pr = (r, pr')"
  shows "r = Inr ()" and "lg_records (loggers (p_log pr') ! i) = lg_records (loggers (p_log pr) ! i)
     @ (if ParseLogLevel level \<in> {LL_DEBUG, LL_INFO} then [(2, ''Log level changed to: '' @ level)] else [])"
proof -
  let ?g = "SetLevel (ParseLogLevel level) (p_log pr)" and ?m = "''Log level changed to: '' @ level"
  obtain g where g: "LOG LL_INFO ?m ?g = (Inr (), g)" using LOG_ok [OF SetLevel_ok [OF assms(1)]] by blast
  with assms(3) have r: "r = Inr ()" "p_log pr' = g" by (auto simp: Server_SetLogLevel_def)
  show "r = Inr ()" by (rule r)
  show "lg_records (loggers (p_log pr') ! i) = lg_records (loggers (p_log pr) ! i)
     @ (if ParseLogLevel level \<in> {LL_DEBUG, LL_INFO} then [(2, ?m)] else [])"
    using LOG_after_SetLevel [OF assms(1) g assms(2)] r(2) by (cases "ParseLogLevel level") (simp_all add: spd_level_def)
qed

section \<open>How the program ends\<close>



lemma TcpServer_Stop_closed:
  assumes "TcpServer_Stop t n = (t', n')"
  shows "\<not> tcp_running t' \<and> thread_pool t' = None \<and> server_fd t' < 0 \<and> epoll_fd t' < 0"
  using assms by (auto simp: TcpServer_Stop_def Let_def split: if_splits)













end
