(* ===== verification/CliParser.thy ===== *)
theory CliParser
  imports Protocol
begin

text \<open>
  The parser of the interactive client, \<open>include/client/cli_parser.h\<close> and \<open>src/client/cli_parser.cpp\<close>:
  a line of text is split with \<open>std::istringstream\<close>. Its \<open>ToUpper\<close> is the same as the one of the
  protocol.
\<close>

text \<open>\<open>iss >> word\<close>: blanks are skipped, then the characters up to the next blank are taken. At the end of
  the stream the word stays empty.\<close>

definition next_word :: "string \<Rightarrow> string \<times> string" where
  "next_word s =
     (let t = dropWhile is_space s in (takeWhile (\<lambda>c. \<not> is_space c) t, dropWhile (\<lambda>c. \<not> is_space c) t))"

text \<open>\<open>std::getline(iss >> std::ws, value)\<close>.\<close>

definition rest_of_line :: "string \<Rightarrow> string" where
  "rest_of_line s = takeWhile (\<lambda>c. c \<noteq> CHR 0x0A) (dropWhile is_space s)"

abbreviation wrong_args :: Command where
  "wrong_args \<equiv> \<lparr>type = UNKNOWN, args = [], error = WRONG_ARG_COUNT\<rparr>"

text \<open>\<open>Parse\<close>; \<^const>\<open>None\<close> is \<open>std::nullopt\<close>.\<close>

definition Parse :: "string \<Rightarrow> Command option" where
  "Parse line =
     (let (token, iss) = next_word line
      in if token = [] then None
         else
           let upper = ToUpper token; (k, iss2) = next_word iss
           in if upper = ''SET'' then
                Some (if k = [] then wrong_args else \<lparr>type = SET, args = [k, rest_of_line iss2], error = NONE\<rparr>)
              else if upper = ''GET'' then
                Some (if k = [] then wrong_args else \<lparr>type = GET, args = [k], error = NONE\<rparr>)
              else if upper = ''DEL'' then
                Some (if k = [] then wrong_args else \<lparr>type = DEL, args = [k], error = NONE\<rparr>)
              else if upper = ''EXISTS'' then
                Some (if k = [] then wrong_args else \<lparr>type = EXISTS, args = [k], error = NONE\<rparr>)
              else if upper = ''KEYS'' then Some \<lparr>type = KEYS, args = [], error = NONE\<rparr>
              else Some \<lparr>type = UNKNOWN, args = [], error = UNKNOWN_COMMAND\<rparr>)"

section \<open>Lemmas\<close>

definition word :: "string \<Rightarrow> bool" where
  "word w \<longleftrightarrow> w \<noteq> [] \<and> (\<forall>c \<in> set w. \<not> is_space c)"

lemma next_word_word:
  assumes "word w" and "rest = [] \<or> is_space (hd rest)" and "\<forall>c \<in> set blanks. is_space c"
  shows "next_word (blanks @ w @ rest) = (w, rest)"
proof -
  have "dropWhile is_space (blanks @ w @ rest) = w @ rest"
    using assms(1,3) by (cases w) (auto simp: word_def dropWhile_append)
  moreover have "takeWhile (\<lambda>c. \<not> is_space c) (w @ rest) = w" "dropWhile (\<lambda>c. \<not> is_space c) (w @ rest) = rest"
    using assms(1,2) by (cases rest; auto simp: word_def takeWhile_append dropWhile_append)+
  ultimately show ?thesis by (simp add: next_word_def)
qed

lemma next_word_blank: "\<forall>c \<in> set s. is_space c \<Longrightarrow> next_word s = ([], [])"
  by (simp add: next_word_def dropWhile_eq_Nil_conv [THEN iffD2])

text \<open>The name of a command in any mixture of cases.\<close>

lemma ToUpper_word: "ToUpper name = CommandType_name t \<Longrightarrow> word name"
proof -
  assume a: "ToUpper name = CommandType_name t"
  then have "name \<noteq> []" by (cases t) (auto simp: ToUpper_def)
  moreover have "\<not> is_space c" if "c \<in> set name" for c
  proof
    assume s: "is_space c"
    then have "upper_char c = c" by (auto simp: upper_char_def is_space_def)
    with that have "c \<in> set (ToUpper name)" by (force simp: ToUpper_def)
    with a s show False by (cases t) (auto simp: is_space_def)
  qed
  ultimately show ?thesis by (simp add: word_def)
qed

text \<open>The arguments of a command are no longer than the line.\<close>

lemma next_word_length: "next_word s = (w, r) \<Longrightarrow> length w \<le> length s \<and> length r \<le> length s"
  using length_dropWhile_le [of is_space s] length_takeWhile_le [of "\<lambda>c. \<not> is_space c" "dropWhile is_space s"]
    length_dropWhile_le [of "\<lambda>c. \<not> is_space c" "dropWhile is_space s"]
  by (auto simp: next_word_def Let_def)

lemma rest_of_line_length: "length (rest_of_line s) \<le> length s"
  using length_dropWhile_le [of is_space s] length_takeWhile_le [of "\<lambda>c. c \<noteq> CHR 0x0A" "dropWhile is_space s"]
  by (simp add: rest_of_line_def)

lemma Parse_wf:
  assumes "Parse line = Some cmd" and "fits_bulk line"
  shows "type cmd = UNKNOWN \<or> wf_command cmd"
proof -
  obtain token iss where nw: "next_word line = (token, iss)" by (cases "next_word line")
  obtain k iss2 where nk: "next_word iss = (k, iss2)" by (cases "next_word iss")
  have "length k \<le> length line" "length (rest_of_line iss2) \<le> length line"
    using next_word_length [OF nw] next_word_length [OF nk] rest_of_line_length [of iss2] by linarith+
  then have "fits_bulk k" "fits_bulk (rest_of_line iss2)" using assms(2) by (auto simp: fits_bulk_def)
  with assms(1) show ?thesis
    unfolding Parse_def nw nk prod.case Let_def by (auto simp: wf_command_def split: if_splits)
qed

section \<open>Properties\<close>

text \<open>A line with the name of a command in any mixture of cases, a key and, for \<open>SET\<close>, the rest of the
  line as the value, is parsed to that command; blanks inside the value are kept.\<close>

theorem Parse_command:
  assumes "ToUpper name = CommandType_name t" and "word k" and "v = [] \<or> \<not> is_space (hd v)" and "CHR 0x0A \<notin> set v"
  shows "(t = SET \<longrightarrow> Parse (name @ '' '' @ k @ '' '' @ v) = Some \<lparr>type = SET, args = [k, v], error = NONE\<rparr>)
     \<and> (t \<in> {GET, DEL, EXISTS} \<longrightarrow> Parse (name @ '' '' @ k) = Some \<lparr>type = t, args = [k], error = NONE\<rparr>)
     \<and> (t = KEYS \<longrightarrow> Parse name = Some \<lparr>type = KEYS, args = [], error = NONE\<rparr>)"
proof -
  note w = ToUpper_word [OF assms(1)]
  have sp: "is_space (CHR '' '')" by (simp add: is_space_def)
  have n: "next_word (name @ '' '' @ r) = (name, '' '' @ r)" for r
    using next_word_word [OF w, of "'' '' @ r" "[]"] sp by simp
  have k: "next_word ('' '' @ k @ '' '' @ v) = (k, '' '' @ v)" "next_word ('' '' @ k) = (k, [])"
    using next_word_word [OF assms(2), of "'' '' @ v" "'' ''"] next_word_word [OF assms(2), of "[]" "'' ''"] sp by simp_all
  have "dropWhile is_space v = v" using assms(3) by (cases v) simp_all
  moreover have "takeWhile (\<lambda>c. c \<noteq> CHR 0x0A) v = v" using assms(4) by (auto simp: takeWhile_eq_all_conv)
  ultimately have v: "rest_of_line ('' '' @ v) = v"
    using sp by (simp add: rest_of_line_def)
  have ne: "name \<noteq> []" "k \<noteq> []" using w assms(2) by (simp_all add: word_def)
  have "Parse (name @ '' '' @ k @ '' '' @ v) = Some \<lparr>type = SET, args = [k, v], error = NONE\<rparr>" if "t = SET"
    unfolding Parse_def n k prod.case Let_def using assms(1) ne v that by simp
  moreover have "Parse (name @ '' '' @ k) = Some \<lparr>type = t, args = [k], error = NONE\<rparr>" if "t \<in> {GET, DEL, EXISTS}"
    unfolding Parse_def n k prod.case Let_def using assms(1) ne that by auto
  moreover have "Parse name = Some \<lparr>type = KEYS, args = [], error = NONE\<rparr>" if "t = KEYS"
    using assms(1) ne next_word_word [OF w, of "[]" "[]"] that by (simp add: Parse_def next_word_blank)
  ultimately show ?thesis by blast
qed

theorem Parse_command_witness:
  "Parse ''sEt name Alice B.'' = Some \<lparr>type = SET, args = [''name'', ''Alice B.''], error = NONE\<rparr>"
proof -
  have "ToUpper ''sEt'' = CommandType_name SET" by code_simp
  then show ?thesis
    using Parse_command [of "''sEt''" SET "''name''" "''Alice B.''"] by (simp add: word_def is_space_def)
qed


end
