(* ===== verification/KvClient.thy ===== *)
theory KvClient
  imports CliParser
begin

text \<open>
  The client of \<open>include/client/client.h\<close>, \<open>src/client/client.cpp\<close> and the loop of
  \<open>src/client/client_main.cpp\<close>. The socket is part of the state: what the program has sent, and the
  outcomes of the calls of \<open>recv\<close> that are to come, each the bytes it returns, where no bytes stand for
  a result of 0 or below; when there are no more outcomes, the connection is closed.
  \<open>send\<close> takes all bytes unless \<open>accepts\<close> says otherwise; its result is not looked at.
\<close>

section \<open>The client\<close>

record KvClient =
  sock_fd :: int
  sent :: string
  accepts :: "nat list"
  incoming :: "string list"

text \<open>\<open>Connect\<close>; the results of \<open>socket\<close> and, for an address, of \<open>connect\<close> are given.\<close>

definition Connect :: "int \<Rightarrow> (string \<Rightarrow> 16 word \<Rightarrow> int) \<Rightarrow> string \<Rightarrow> 16 word \<Rightarrow> KvClient \<Rightarrow> bool \<times> KvClient" where
  "Connect socket_result connect_result host port_arg c =
     (if socket_result < 0 then (False, c\<lparr>sock_fd := socket_result\<rparr>)
      else if connect_result host port_arg < 0 then (False, c\<lparr>sock_fd := -1\<rparr>)
      else (True, c\<lparr>sock_fd := socket_result\<rparr>))"

definition Disconnect :: "KvClient \<Rightarrow> KvClient" where
  "Disconnect c = (if 0 \<le> sock_fd c then c\<lparr>sock_fd := -1\<rparr> else c)"

definition send_bytes :: "string \<Rightarrow> KvClient \<Rightarrow> KvClient" where
  "send_bytes buf c =
     (case accepts c of
        [] \<Rightarrow> c\<lparr>sent := sent c @ buf\<rparr>
      | n # ns \<Rightarrow> c\<lparr>sent := sent c @ take n buf, accepts := ns\<rparr>)"

text \<open>The test at the head of the loop: is the reply in \<open>buf\<close> complete?\<close>

definition reply_ready :: "string \<Rightarrow> bool result" where
  "reply_ready buf =
     (if buf = [] then Inr False
      else
        case str_find buf crlf 0 of
          None \<Rightarrow> Inr False
        | Some i \<Rightarrow>
            if hd buf \<in> {CHR ''+'', CHR ''-'', CHR '':''} then Inr True
            else if hd buf = CHR ''$'' then
              rbind (rbind (substr buf 1 (to_size (int i - 1))) stoi) (\<lambda>len.
                if len = -1 then Inr True else Inr (to_size (int i + 2 + len + 2) \<le> length buf))
            else Inr False)"

fun recv_loop :: "string \<Rightarrow> string list \<Rightarrow> string result \<times> string list" where
  "recv_loop buf [] =
     (case reply_ready buf of
        Inl e \<Rightarrow> (Inl e, [])
      | Inr ready \<Rightarrow> if ready then (Inr buf, []) else (Inr [], []))"
| "recv_loop buf (chunk # later) =
     (case reply_ready buf of
        Inl e \<Rightarrow> (Inl e, chunk # later)
      | Inr ready \<Rightarrow>
          if ready then (Inr buf, chunk # later)
          else if chunk = [] then (Inr [], later)
          else recv_loop (buf @ chunk) later)"

definition SendCommand :: "string \<Rightarrow> KvClient \<Rightarrow> string result \<times> KvClient" where
  "SendCommand cmd c =
     (if sock_fd c < 0 then (Inr [], c)
      else
        let c1 = send_bytes cmd c; (r, later) = recv_loop [] (incoming c1)
        in (r, c1\<lparr>incoming := later\<rparr>))"

text \<open>The common beginning of the operations.\<close>

definition request :: "CommandType \<Rightarrow> string list \<Rightarrow> KvClient \<Rightarrow> string result \<times> KvClient" where
  "request t as c = SendCommand (SerializeCommand \<lparr>type = t, args = as, error = NONE\<rparr>) c"

definition KvClient_Set :: "string \<Rightarrow> string \<Rightarrow> KvClient \<Rightarrow> bool result \<times> KvClient" where
  "KvClient_Set k v c =
     (let (r, c1) = request SET [k, v] c
      in (rbind r (\<lambda>resp. Inr (4 \<le> length resp \<and> hd resp = CHR ''+'')), c1))"

definition get_reply :: "string \<Rightarrow> string option result" where
  "get_reply resp =
     (if resp = [] \<or> hd resp \<noteq> CHR ''$'' then Inr None
      else case str_find resp crlf 0 of
        None \<Rightarrow> Inr None
      | Some i \<Rightarrow>
          rbind (rbind (substr resp 1 (to_size (int i - 1))) stoi) (\<lambda>len.
            if len = -1 then Inr None
            else rbind (substr resp (i + 2) (to_size len)) (\<lambda>v. Inr (Some v))))"

definition KvClient_Get :: "string \<Rightarrow> KvClient \<Rightarrow> string option result \<times> KvClient" where
  "KvClient_Get k c = (let (r, c1) = request GET [k] c in (rbind r get_reply, c1))"

text \<open>\<open>resp[1]\<close> of a string of one character is the zero byte that ends it.\<close>

definition KvClient_Delete :: "string \<Rightarrow> KvClient \<Rightarrow> bool result \<times> KvClient" where
  "KvClient_Delete k c =
     (let (r, c1) = request DEL [k] c
      in (rbind r (\<lambda>resp.
            if resp = [] \<or> hd resp \<noteq> CHR '':'' then Inr False
            else Inr ((resp @ [CHR 0x00]) ! 1 \<noteq> CHR ''0'')), c1))"

definition KvClient_Exists :: "string \<Rightarrow> KvClient \<Rightarrow> bool result \<times> KvClient" where
  "KvClient_Exists k c =
     (let (r, c1) = request EXISTS [k] c
      in (rbind r (\<lambda>resp. Inr (4 \<le> length resp \<and> hd resp = CHR ''+'')), c1))"

definition KvClient_Keys :: "KvClient \<Rightarrow> nat result \<times> KvClient" where
  "KvClient_Keys c =
     (let (r, c1) = request KEYS [] c
      in (rbind r (\<lambda>resp.
            if resp = [] \<or> hd resp \<noteq> CHR '':'' then Inr 0
            else rbind (rbind (substr resp 1 size_max) stoi) (\<lambda>n. Inr (to_size n))), c1))"

section \<open>The interactive loop\<close>

text \<open>One line of input: what is printed, and the client afterwards.\<close>

definition client_line :: "string \<Rightarrow> KvClient \<Rightarrow> string result \<times> KvClient" where
  "client_line line c =
     (case Parse line of
        None \<Rightarrow> (Inr [], c)
      | Some cmd \<Rightarrow>
          (case (type cmd, args cmd) of
             (UNKNOWN, _) \<Rightarrow>
               (Inr ((if error cmd = UNKNOWN_COMMAND then ''ERR unknown command'' else ''ERR wrong number of arguments'') @ [CHR 0x0A]), c)
           | (SET, k # v # _) \<Rightarrow>
               (let (r, c1) = KvClient_Set k v c in (rbind r (\<lambda>b. Inr ((if b then ''OK'' else ''ERR'') @ [CHR 0x0A])), c1))
           | (GET, k # _) \<Rightarrow>
               (let (r, c1) = KvClient_Get k c
                in (rbind r (\<lambda>v. Inr ((case v of Some x \<Rightarrow> x | None \<Rightarrow> ''(nil)'') @ [CHR 0x0A])), c1))
           | (DEL, k # _) \<Rightarrow>
               (let (r, c1) = KvClient_Delete k c in (rbind r (\<lambda>b. Inr ((if b then ''1'' else ''0'') @ [CHR 0x0A])), c1))
           | (EXISTS, k # _) \<Rightarrow>
               (let (r, c1) = KvClient_Exists k c in (rbind r (\<lambda>b. Inr ((if b then ''exists'' else ''not found'') @ [CHR 0x0A])), c1))
           | (KEYS, _) \<Rightarrow>
               (let (r, c1) = KvClient_Keys c in (rbind r (\<lambda>n. Inr (''total keys: '' @ to_string n @ [CHR 0x0A])), c1))
           | _ \<Rightarrow> (Inl Undefined, c)))"

text \<open>The loop: it ends at the end of the input, at \<open>exit\<close> or \<open>quit\<close>, or with an exception.\<close>

fun client_loop :: "string list \<Rightarrow> KvClient \<Rightarrow> string \<Rightarrow> string result \<times> KvClient" where
  "client_loop [] c out = (Inr (out @ ''> ''), Disconnect c)"
| "client_loop (line # ls) c out =
     (if line = ''exit'' \<or> line = ''quit'' then (Inr (out @ ''> ''), Disconnect c)
      else case client_line line c of
        (Inl e, c1) \<Rightarrow> (Inl e, c1)
      | (Inr o1, c1) \<Rightarrow> client_loop ls c1 (out @ ''> '' @ o1))"

text \<open>\<open>main\<close> with the arguments after the program name: the exit status, or the exception that ends the
  program, and what is printed on the standard output.\<close>

definition client_main ::
  "int \<Rightarrow> (string \<Rightarrow> 16 word \<Rightarrow> int) \<Rightarrow> string list \<Rightarrow> string list \<Rightarrow> KvClient \<Rightarrow> (int \<times> string) result \<times> KvClient" where
  "client_main socket_result connect_result argv_rest input c =
     (case argv_rest of
        host # port_text # _ \<Rightarrow>
          (case stoi port_text of
             Inl e \<Rightarrow> (Inl e, c)
           | Inr p \<Rightarrow>
               (case Connect socket_result connect_result host (word_of_int p) c of
                  (False, c1) \<Rightarrow> (Inr (1, []), c1)
                | (True, c1) \<Rightarrow>
                    (case client_loop input c1 (''Connected. Type '' @ [CHR 0x27] @ ''exit'' @ [CHR 0x27] @ '' to quit.'' @ [CHR 0x0A]) of
                       (Inl e, c2) \<Rightarrow> (Inl e, c2)
                     | (Inr out, c2) \<Rightarrow> (Inr (0, out), c2))))
      | _ \<Rightarrow> (Inr (1, []), c))"

section \<open>Replies that arrive in pieces\<close>

text \<open>\<open>whole r\<close>: the loop waits on every proper prefix of \<open>r\<close> and is satisfied by \<open>r\<close>.\<close>

definition whole :: "string \<Rightarrow> bool" where
  "whole r \<longleftrightarrow> reply_ready r = Inr True \<and> (\<forall>p. strict_prefix p r \<longrightarrow> reply_ready p = Inr False)"

lemma recv_loop_whole:
  assumes "whole r" and "buf @ concat chunks = r" and "\<forall>c \<in> set chunks. c \<noteq> []"
  shows "recv_loop buf (chunks @ later) = (Inr r, later)"
  using assms(2,3)
proof (induction chunks arbitrary: buf)
  case Nil
  then have "reply_ready buf = Inr True" using assms(1) by (simp add: whole_def)
  with Nil show ?case by (cases later) simp_all
next
  case (Cons c cs)
  then have "strict_prefix buf r" by (auto simp: strict_prefix_def prefix_def)
  then have "reply_ready buf = Inr False" using assms(1) by (simp add: whole_def)
  with Cons.prems Cons.IH [of "buf @ c"] show ?case by simp
qed

lemma str_find_crlf_None: "find_sub crlf p = None \<Longrightarrow> str_find p crlf 0 = None"
  by (simp add: str_find_def)

lemma str_find_crlf: "CHR 0x0D \<notin> set l \<Longrightarrow> str_find (l @ crlf @ rest) crlf 0 = Some (length l)"
  using str_find_fresh [of "CHR 0x0D" l "[]" "[CHR 0x0A]" rest] by (simp add: crlf_def)

text \<open>One-line replies.\<close>

lemma whole_line:
  assumes "CHR 0x0D \<notin> set l" and "l \<noteq> []" and "hd l \<in> {CHR ''+'', CHR ''-'', CHR '':''}"
  shows "whole (l @ crlf)"
proof -
  have "str_find (l @ crlf @ []) crlf 0 = Some (length l)" using assms(1) by (rule str_find_crlf)
  then have "reply_ready (l @ crlf) = Inr True" using assms(2,3) by (auto simp: reply_ready_def)
  moreover have "reply_ready p = Inr False" if "strict_prefix p (l @ crlf)" for p
  proof -
    from strict_prefix_line [of p l "[]"] that have "prefix p (l @ [CHR 0x0D])" by auto
    from find_sub_crlf_prefix [OF this assms(1)] show ?thesis
      by (simp add: reply_ready_def str_find_crlf_None)
  qed
  ultimately show ?thesis by (simp add: whole_def)
qed

lemma whole_nil: "whole (''$-1'' @ crlf)"
proof -
  have e: "reply_ready (''$-1'' @ crlf) = Inr True"
    by (simp add: reply_ready_def str_find_def crlf_def substr_def to_size_def stoi_def scan_int_def scan_sign_def
        is_space_def is_digit_def dec_value_def int_max_def int_min_def Let_def)
  moreover have "reply_ready p = Inr False" if "strict_prefix p (''$-1'' @ crlf)" for p
  proof -
    from strict_prefix_line [of p "''$-1''" "[]"] that have "prefix p (''$-1'' @ [CHR 0x0D])" by auto
    from find_sub_crlf_prefix [OF this] show ?thesis by (simp add: reply_ready_def str_find_crlf_None)
  qed
  ultimately show ?thesis by (simp add: whole_def)
qed

text \<open>A bulk string.\<close>

lemma whole_bulk:
  assumes "fits_bulk v"
  shows "whole (bulk v)"
proof -
  let ?h = "CHR ''$'' # to_string (length v)"
  have crlf_notin: "CHR 0x0D \<notin> set ?h" using cr_notin_to_string by simp
  have l: "length ?h < 2 ^ 32"
    using length_to_string [of "length v"] fits_bulkD [OF assms] by simp
  have head: "reply_ready (?h @ crlf @ q) = Inr (length v + 2 \<le> length q)" for q
  proof -
    have "str_find (?h @ crlf @ q) crlf 0 = Some (length ?h)" using crlf_notin by (rule str_find_crlf)
    moreover have "to_size (int (length ?h) - 1) = length (to_string (length v))" using l by (simp add: to_size_def)
    moreover have "stoi (to_string (length v)) = Inr (int (length v))"
      using stoi_to_string [of "length v" "[]"] fits_bulkD [OF assms] by simp
    moreover have "to_size (int (length ?h) + 2 + int (length v) + 2) = length ?h + length v + 4"
      using l fits_bulkD [OF assms] by (simp add: to_size_def)
    ultimately show ?thesis by (simp add: reply_ready_def crlf_def)
  qed
  have "reply_ready p = Inr False" if "strict_prefix p (bulk v)" for p
  proof -
    from that have "strict_prefix p (?h @ crlf @ (v @ crlf))" by (simp add: bulk_def)
    then consider "find_sub crlf p = None" | q where "p = ?h @ crlf @ q" "strict_prefix q (v @ crlf)"
      using strict_prefix_line find_sub_crlf_prefix crlf_notin by metis
    then show ?thesis
    proof cases
      case 1
      then show ?thesis by (simp add: reply_ready_def str_find_crlf_None)
    next
      case 2
      from prefix_length_less [OF 2(2)] head [of q] show ?thesis unfolding 2(1) by simp
    qed
  qed
  moreover have "reply_ready (bulk v) = Inr True" using head [of "v @ crlf"] by (simp add: bulk_def)
  ultimately show ?thesis by (simp add: whole_def)
qed

text \<open>Every reply of the server is whole.\<close>

definition wf_response :: "Response \<Rightarrow> bool" where
  "wf_response resp \<longleftrightarrow>
     (case status resp of VALUE \<Rightarrow> fits_bulk (message resp) | _ \<Rightarrow> CHR 0x0D \<notin> set (message resp))"

lemma whole_response:
  assumes "wf_response resp"
  shows "whole (SerializeResponse resp)"
proof (cases "status resp")
  case VALUE
  with assms whole_bulk [of "message resp"] show ?thesis
    by (simp add: wf_response_def SerializeResponse_def bulk_def)
next
  case NOT_FOUND
  then show ?thesis using whole_nil by (simp add: SerializeResponse_def)
next
  case OK
  then show ?thesis using whole_line [of "''+OK''"] by (simp add: SerializeResponse_def)
next
  case ERR
  with assms whole_line [of "''-ERR '' @ message resp"] show ?thesis by (simp add: wf_response_def SerializeResponse_def)
next
  case COUNT
  with assms whole_line [of "'':'' @ message resp"] show ?thesis by (simp add: wf_response_def SerializeResponse_def)
qed

text \<open>A connected client whose \<open>send\<close> takes everything sends the request and gets the reply.\<close>

lemma request_reply:
  assumes "0 \<le> sock_fd c" and "accepts c = []" and "incoming c = chunks @ later"
    and "wf_response resp" and "concat chunks = SerializeResponse resp" and "\<forall>x \<in> set chunks. x \<noteq> []"
  shows "request t as c = (Inr (SerializeResponse resp),
     c\<lparr>sent := sent c @ SerializeCommand \<lparr>type = t, args = as, error = NONE\<rparr>, incoming := later\<rparr>)"
  using recv_loop_whole [OF whole_response [OF assms(4)], of "[]" chunks later] assms
  by (simp add: request_def SendCommand_def send_bytes_def)

lemma get_reply_response:
  assumes "case v of None \<Rightarrow> True | Some x \<Rightarrow> fits_bulk x"
  shows "get_reply (SerializeResponse (case v of Some x \<Rightarrow> \<lparr>status = VALUE, message = x\<rparr> | None \<Rightarrow> \<lparr>status = NOT_FOUND, message = []\<rparr>))
    = Inr v"
proof (cases v)
  case None
  then show ?thesis
    by (simp add: get_reply_def SerializeResponse_def str_find_def crlf_def substr_def to_size_def stoi_def scan_int_def
        scan_sign_def is_space_def is_digit_def dec_value_def int_max_def int_min_def Let_def)
next
  case (Some x)
  let ?h = "CHR ''$'' # to_string (length x)"
  from assms Some have f: "fits_bulk x" by simp
  have "str_find (?h @ crlf @ x @ crlf) crlf 0 = Some (length ?h)"
    using cr_notin_to_string by (intro str_find_crlf) simp
  moreover have "to_size (int (length ?h) - 1) = length (to_string (length x))"
    using length_to_string [of "length x"] fits_bulkD [OF f] by (simp add: to_size_def)
  moreover have "stoi (to_string (length x)) = Inr (int (length x))"
    using stoi_to_string [of "length x" "[]"] fits_bulkD [OF f] by simp
  moreover have "to_size (int (length x)) = length x" using fits_bulkD [OF f] by (simp add: to_size_def)
  ultimately show ?thesis using Some by (simp add: get_reply_def SerializeResponse_def crlf_def)
qed

lemma count_reply:
  "n < 2 ^ 31 \<Longrightarrow>
     rbind (substr ('':'' @ to_string n @ crlf) 1 size_max) stoi = Inr (int n)"
  using stoi_to_string [of n crlf] length_to_string [of n]
  by (simp add: crlf_def is_digit_def size_max_def)

end
