(* ===== verification/ClientServer.thy ===== *)
theory ClientServer
  imports KvServer KvClient
begin

text \<open>
  A client and a server at the two ends of a connection. The handler of the server answers the request of one
  operation of the client; bytes are cut into pieces in both directions in any way. \<open>remote_served\<close> is the
  shared lemma: an operation that sends a well-formed command gets the answer that the specification gives.
\<close>

section \<open>One request\<close>

text \<open>An operation of the client with a server at the other end. What the operation writes to its socket reaches the message
  handler of the server in the pieces \<open>up\<close>, and the handler's replies come back in the pieces \<open>down\<close>. The value is
  \<^const>\<open>None\<close> when the server or the client fails or does not return.\<close>

definition remote ::
  "(int \<Rightarrow> nat) \<Rightarrow> iteration \<Rightarrow> int \<Rightarrow> (string \<Rightarrow> string list) \<Rightarrow> (string \<Rightarrow> string list) \<Rightarrow> (KvClient \<Rightarrow> 'b result \<times> KvClient)
     \<Rightarrow> KvClient \<Rightarrow> KvServer \<Rightarrow> os \<Rightarrow> ('b \<times> KvClient \<times> KvServer \<times> os) option" where
  "remote hash order fd up down op c srv s =
     (case deliver hash order fd (up (drop (length (sent c)) (sent (snd (op c))))) srv s of
        Some (Inr reply, srv1, s1) \<Rightarrow>
          (case op (c\<lparr>incoming := down reply\<rparr>) of
             (Inr x, c1) \<Rightarrow> Some (x, c1, srv1, s1)
           | _ \<Rightarrow> None)
      | _ \<Rightarrow> None)"


text \<open>One line typed at the client's prompt; the value is what the client prints.\<close>

definition exchange ::
  "(int \<Rightarrow> nat) \<Rightarrow> iteration \<Rightarrow> int \<Rightarrow> (string \<Rightarrow> string list) \<Rightarrow> (string \<Rightarrow> string list) \<Rightarrow> string
     \<Rightarrow> KvClient \<Rightarrow> KvServer \<Rightarrow> os \<Rightarrow> (string \<times> KvClient \<times> KvServer \<times> os) option" where
  "exchange hash order fd up down line = remote hash order fd up down (client_line line)"

fun exchanges ::
  "(int \<Rightarrow> nat) \<Rightarrow> iteration \<Rightarrow> int \<Rightarrow> (string \<Rightarrow> string list) \<Rightarrow> (string \<Rightarrow> string list) \<Rightarrow> string list
     \<Rightarrow> KvClient \<Rightarrow> KvServer \<Rightarrow> os \<Rightarrow> (string list \<times> KvClient \<times> KvServer \<times> os) option" where
  "exchanges hash order fd up down [] c srv s = Some ([], c, srv, s)"
| "exchanges hash order fd up down (l # ls) c srv s =
     (case exchange hash order fd up down l c srv s of
        None \<Rightarrow> None
      | Some (out, c1, srv1, s1) \<Rightarrow>
          (case exchanges hash order fd up down ls c1 srv1 s1 of
             None \<Rightarrow> None
           | Some (outs, c2, srv2, s2) \<Rightarrow> Some (out # outs, c2, srv2, s2)))"

text \<open>What the user should see: the store is a map from keys to values.\<close>

definition shown :: "Command \<Rightarrow> (string \<Rightarrow> string option) \<Rightarrow> string" where
  "shown cmd m =
     (case (type cmd, args cmd) of
        (SET, [k, v]) \<Rightarrow> ''OK''
      | (GET, [k]) \<Rightarrow> (case m k of Some v \<Rightarrow> v | None \<Rightarrow> ''(nil)'')
      | (DEL, [k]) \<Rightarrow> (if m k = None then ''0'' else ''1'')
      | (EXISTS, [k]) \<Rightarrow> (if m k = None then ''not found'' else ''exists'')
      | (KEYS, []) \<Rightarrow> ''total keys: '' @ to_string (card (dom m))
      | _ \<Rightarrow> if error cmd = UNKNOWN_COMMAND then ''ERR unknown command'' else ''ERR wrong number of arguments'')"

definition spec_line :: "string \<Rightarrow> (string \<Rightarrow> string option) \<Rightarrow> string \<times> (string \<Rightarrow> string option)" where
  "spec_line line m =
     (case Parse line of
        None \<Rightarrow> ([], m)
      | Some cmd \<Rightarrow> (shown cmd m @ [CHR 0x0A], snd (spec_cmd cmd m)))"

fun spec_lines :: "string list \<Rightarrow> (string \<Rightarrow> string option) \<Rightarrow> string list" where
  "spec_lines [] m = []"
| "spec_lines (l # ls) m = fst (spec_line l m) # spec_lines ls (snd (spec_line l m))"

text \<open>The maps whose replies the client can read: values that fit into a bulk string, and fewer keys than
  an \<open>int\<close> can count.\<close>

definition readable :: "nat \<Rightarrow> (string \<Rightarrow> string option) \<Rightarrow> bool" where
  "readable n m \<longleftrightarrow> finite (dom m) \<and> card (dom m) + n < 2 ^ 31 \<and> (\<forall>k. pred_option fits_bulk (m k))"

lemma readable_le: "readable n m \<Longrightarrow> n' \<le> n \<Longrightarrow> readable n' m"
  by (auto simp: readable_def)

lemma readable_spec_cmd:
  assumes "readable (Suc n) m" and "wf_command cmd"
  shows "readable n (snd (spec_cmd cmd m))"
  using wf_command_cases [OF assms(2)]
proof (elim disjE exE conjE)
  fix k v assume c: "type cmd = SET" "args cmd = [k, v]"
  have "card (dom (m(k \<mapsto> v))) \<le> Suc (card (dom m))"
    using assms(1) by (simp add: readable_def card_insert_if)
  moreover have "fits_bulk v" using assms(2) c by (simp add: wf_command_def)
  ultimately show ?thesis
    using assms(1) c by (auto simp: spec_cmd.simps readable_def)
next
  fix k assume c: "type cmd \<in> {GET, DEL, EXISTS}" "args cmd = [k]"
  have "card (dom m - {k}) \<le> card (dom m)" using assms(1) by (intro card_mono) (auto simp: readable_def)
  with assms(1) c show ?thesis by (auto simp: spec_cmd.simps readable_def)
next
  assume "type cmd = KEYS" "args cmd = []"
  with assms(1) show ?thesis by (auto simp: spec_cmd.simps readable_def)
qed

lemma wf_response_spec:
  assumes "readable n m" and "wf_command cmd"
  shows "wf_response (fst (spec_cmd cmd m))"
proof -
  have "fits_bulk v" if "m k = Some v" for k v
    using assms(1) that unfolding readable_def by (metis option.pred_inject(2))
  with wf_command_cases [OF assms(2)] show ?thesis
    by (auto simp: spec_cmd.simps wf_response_def cr_notin_to_string split: option.splits)
qed

lemma length_SerializeCommand:
  assumes "wf_command cmd"
  shows "length (SerializeCommand cmd) < 2 ^ 63"
proof -
  have b: "length (bulk a) < 2 ^ 33" if "fits_bulk a" for a
    using length_bulk [of a] length_to_string [of "length a"] fits_bulkD [OF that] by simp
  have n: "length (bulk (CommandType_name t)) < 2 ^ 33" for t
    by (rule b, cases t) (simp_all add: fits_bulk_def int_max_def)
  show ?thesis
    using wf_command_cases [OF assms] assms n [of "type cmd"]
      length_to_string [of "Suc (length (args cmd))"]
    by (auto simp: SerializeCommand_def wf_command_def crlf_def dest!: b)
qed


text \<open>One line, for a client that is connected and a server that has nothing left of an earlier request.\<close>

definition connected :: "KvClient \<Rightarrow> bool" where
  "connected c \<longleftrightarrow> 0 \<le> sock_fd c \<and> accepts c = []"

lemma request_sent:
  "connected c \<Longrightarrow> sent (snd (request t as c)) = sent c @ SerializeCommand \<lparr>type = t, args = as, error = NONE\<rparr>"
  by (simp add: connected_def request_def SendCommand_def send_bytes_def case_prod_beta Let_def)

lemma client_line_sent:
  assumes "connected c" and "Parse line = Some cmd" and "wf_command cmd"
  shows "drop (length (sent c)) (sent (snd (client_line line c))) = SerializeCommand cmd"
proof -
  have e: "cmd = \<lparr>type = type cmd, args = args cmd, error = NONE\<rparr>" using assms(3) by (simp add: wf_command_def)
  have "sent (snd (client_line line c)) = sent (snd (request (type cmd) (args cmd) c))"
    using wf_command_cases [OF assms(3)] assms(2)
    by (auto simp: client_line_def KvClient_Set_def KvClient_Get_def KvClient_Delete_def KvClient_Exists_def
        KvClient_Keys_def case_prod_beta Let_def)
  then show ?thesis using request_sent [OF assms(1)] e by simp
qed

lemma client_line_reply:
  assumes "connected c" and "Parse line = Some cmd" and "wf_command cmd" and "readable n m"
    and "concat chunks = SerializeResponse (fst (spec_cmd cmd m))" and "[] \<notin> set chunks"
  shows "\<exists>c'. client_line line (c\<lparr>incoming := chunks\<rparr>) = (Inr (shown cmd m @ [CHR 0x0A]), c') \<and> connected c'"
proof -
  let ?resp = "fst (spec_cmd cmd m)"
  let ?c = "c\<lparr>incoming := chunks\<rparr>"
  obtain c' where r: "request (type cmd) (args cmd) ?c = (Inr (SerializeResponse ?resp), c')" and c': "connected c'"
  proof (rule that)
    show "request (type cmd) (args cmd) ?c = (Inr (SerializeResponse ?resp),
        ?c\<lparr>sent := sent ?c @ SerializeCommand \<lparr>type = type cmd, args = args cmd, error = NONE\<rparr>, incoming := []\<rparr>)"
      using assms(1,6) by (intro request_reply [OF _ _ _ wf_response_spec [OF assms(4,3)] assms(5)])
        (auto simp: connected_def)
  qed (use assms(1) in \<open>simp add: connected_def\<close>)
  have fits: "case m k of None \<Rightarrow> True | Some x \<Rightarrow> fits_bulk x" for k
    using assms(4) by (cases "m k") (auto simp: readable_def, metis option.pred_inject(2))
  have keys: "card (dom m) < 2 ^ 31" using assms(4) by (simp add: readable_def)
  have "client_line line ?c = (Inr (shown cmd m @ [CHR 0x0A]), c')"
    using wf_command_cases [OF assms(3)]
  proof (elim disjE exE conjE)
    fix k v assume a: "type cmd = SET" "args cmd = [k, v]"
    with r have "request SET [k, v] ?c = (Inr (''+OK'' @ crlf), c')" by (simp add: spec_cmd.simps SerializeResponse_def)
    with a assms(2) show ?thesis by (simp add: client_line_def KvClient_Set_def shown_def crlf_def)
  next
    fix k assume "type cmd \<in> {GET, DEL, EXISTS}" and a: "args cmd = [k]"
    then consider (g) "type cmd = GET" | (d) "type cmd = DEL" | (e) "type cmd = EXISTS" by blast
    then show ?thesis
    proof cases
      case g
      with a r have "request GET [k] ?c = (Inr (SerializeResponse (case m k of Some x \<Rightarrow> \<lparr>status = VALUE, message = x\<rparr>
          | None \<Rightarrow> \<lparr>status = NOT_FOUND, message = []\<rparr>)), c')" by (simp add: spec_cmd.simps)
      with g a assms(2) get_reply_response [OF fits, of k] show ?thesis
        by (simp add: client_line_def KvClient_Get_def shown_def)
    next
      case d
      with a r have "request DEL [k] ?c = (Inr (if m k = None then '':0'' @ crlf else '':1'' @ crlf), c')"
        by (auto simp: spec_cmd.simps SerializeResponse_def)
      with d a assms(2) show ?thesis by (simp add: client_line_def KvClient_Delete_def shown_def crlf_def)
    next
      case e
      with a r have "request EXISTS [k] ?c = (Inr (if m k = None then ''$-1'' @ crlf else ''+OK'' @ crlf), c')"
        by (auto simp: spec_cmd.simps SerializeResponse_def)
      with e a assms(2) show ?thesis by (simp add: client_line_def KvClient_Exists_def shown_def crlf_def)
    qed
  next
    assume a: "type cmd = KEYS" "args cmd = []"
    with r have "request KEYS [] ?c = (Inr ('':'' @ to_string (card (dom m)) @ crlf), c')"
      by (simp add: spec_cmd.simps SerializeResponse_def)
    with a assms(2) count_reply [OF keys] keys show ?thesis
      by (simp add: client_line_def KvClient_Keys_def shown_def to_size_def)
  qed
  with c' show ?thesis by blast
qed

text \<open>A way of cutting a byte stream into pieces, none of them empty.\<close>

definition cuts :: "(string \<Rightarrow> string list) \<Rightarrow> bool" where
  "cuts f \<longleftrightarrow> (\<forall>x. concat (f x) = x \<and> [] \<notin> set (f x))"

lemma cuts_Nil: "cuts f \<Longrightarrow> f [] = []"
  by (metis concat_eq_Nil_conv cuts_def list.set_intros(1) neq_Nil_conv)

lemma remote_served:
  assumes op: "\<And>c. op c = (let (r, c1) = request (type cmd) (args cmd) c in (rbind r g, c1))" and "wf_command cmd"
    and "visits_once order" and "cuts up" and "cuts down"
    and "connected c" and "live (srv_store srv) s" and "wf_server srv" and "reader_of hash srv fd = []"
    and m: "m = find_entry (kv_data (srv_store srv))" and "wf_response (fst (spec_cmd cmd m))" and "g (SerializeResponse (fst (spec_cmd cmd m))) = Inr x"
  obtains c' srv' s' where "remote hash order fd up down op c srv s = Some (x, c', srv', s')"
    and "connected c'" and "live (srv_store srv') s'" and "wf_server srv'"
    and "find_entry (kv_data (srv_store srv')) = snd (spec_cmd cmd m)"
    and "\<forall>fd'. reader_of hash srv' fd' = reader_of hash srv fd'"
    and "run_ops order (cmd_ops cmd) (srv_store srv) s = (Inr (), srv_store srv', s')"
proof -
  let ?pieces = "up (SerializeCommand cmd)" and ?reply = "SerializeResponse (fst (spec_cmd cmd m))"
  have e: "cmd = \<lparr>type = type cmd, args = args cmd, error = NONE\<rparr>" using assms(2) by (simp add: wf_command_def)
  have snt: "drop (length (sent c)) (sent (snd (op c))) = SerializeCommand cmd"
    using request_sent [OF assms(6), of "type cmd" "args cmd"] e by (simp add: op case_prod_beta Let_def)
  have st: "reader_of hash srv fd @ concat ?pieces = concat (map SerializeCommand [cmd])"
    using assms(4,9) by (simp add: cuts_def)
  have "replies [cmd] m = ?reply" "snd (spec_run [cmd] m) = snd (spec_cmd cmd m)" by (simp_all add: case_prod_beta)
  with deliver_stream [OF assms(3,7,8) _ st] assms(2,9) length_SerializeCommand [OF assms(2)]
  obtain srv' s' where d: "deliver hash order fd ?pieces srv s = Some (Inr ?reply, srv', s')"
    "live (srv_store srv') s'" "find_entry (kv_data (srv_store srv')) = snd (spec_cmd cmd m)"
    "reader_of hash srv' fd = []" "wf_server srv'" "\<forall>fd'. fd' \<noteq> fd \<longrightarrow> reader_of hash srv' fd' = reader_of hash srv fd'"
    "run_ops order (cmd_ops cmd) (srv_store srv) s = (Inr (), srv_store srv', s')" unfolding m by auto
  let ?c = "c\<lparr>incoming := down ?reply\<rparr>"
  let ?c' = "?c\<lparr>sent := sent ?c @ SerializeCommand \<lparr>type = type cmd, args = args cmd, error = NONE\<rparr>, incoming := []\<rparr>"
  have cd: "concat (down ?reply) = ?reply" "[] \<notin> set (down ?reply)" using assms(5) by (simp_all add: cuts_def)
  have "request (type cmd) (args cmd) ?c = (Inr ?reply, ?c')"
    using assms(6) cd(2) by (intro request_reply [OF _ _ _ assms(11) cd(1)]) (auto simp: connected_def)
  then have "op ?c = (Inr x, ?c')" using assms(12) by (simp add: op)
  then have "remote hash order fd up down op c srv s = Some (x, ?c', srv', s')"
    by (simp add: remote_def snt d(1))
  moreover have "connected ?c'" using assms(6) by (simp add: connected_def)
  moreover have "\<forall>fd'. reader_of hash srv' fd' = reader_of hash srv fd'" using d(4,6) assms(9) by metis
  ultimately show ?thesis using that d(2,3,5,7) by blast
qed

lemma exchange_spec:
  assumes "visits_once order" and "cuts up" and "cuts down" and "fits_bulk line"
    and "connected c" and "live (srv_store srv) s" and "wf_server srv" and "reader_of hash srv fd = []"
    and "readable (Suc n) (find_entry (kv_data (srv_store srv)))"
  shows "\<exists>c' srv' s'. exchange hash order fd up down line c srv s
       = Some (fst (spec_line line (find_entry (kv_data (srv_store srv)))), c', srv', s')
     \<and> connected c' \<and> live (srv_store srv') s' \<and> wf_server srv' \<and> reader_of hash srv' fd = []
     \<and> find_entry (kv_data (srv_store srv')) = snd (spec_line line (find_entry (kv_data (srv_store srv))))
     \<and> readable n (find_entry (kv_data (srv_store srv')))"
proof -
  let ?m = "find_entry (kv_data (srv_store srv))"
  note inv = assms(5-8) readable_le [OF assms(9), of n, simplified]
  consider (none) "Parse line = None" | (bad) cmd where "Parse line = Some cmd" "type cmd = UNKNOWN"
    | (good) cmd where "Parse line = Some cmd" "wf_command cmd"
    using Parse_wf [OF _ assms(4)] by (cases "Parse line") auto
  then show ?thesis
  proof cases
    case none
    then have "client_line line x = (Inr [], x)" for x by (simp add: client_line_def)
    with none inv cuts_Nil [OF assms(2)] show ?thesis
      by (auto simp: exchange_def remote_def spec_line_def connected_def)
  next
    case bad
    then have "client_line line x = (Inr (shown cmd ?m @ [CHR 0x0A]), x)" for x
      by (simp add: client_line_def shown_def)
    moreover have "snd (spec_cmd cmd ?m) = ?m" using bad by (simp add: spec_cmd.simps)
    ultimately show ?thesis
      using bad inv cuts_Nil [OF assms(2)] by (auto simp: exchange_def remote_def spec_line_def connected_def)
  next
    case good
    let ?pieces = "up (SerializeCommand cmd)" and ?reply = "SerializeResponse (fst (spec_cmd cmd ?m))"
    have st: "reader_of hash srv fd @ concat ?pieces = concat (map SerializeCommand [cmd])"
      using assms(2,8) by (simp add: cuts_def)
    have "replies [cmd] ?m = ?reply" "snd (spec_run [cmd] ?m) = snd (spec_cmd cmd ?m)"
      by (simp_all add: case_prod_beta)
    with deliver_stream [OF assms(1,6,7) _ st] good length_SerializeCommand [OF good(2)] assms(8)
    obtain srv' s' where d: "deliver hash order fd ?pieces srv s = Some (Inr ?reply, srv', s')"
      "live (srv_store srv') s'" "find_entry (kv_data (srv_store srv')) = snd (spec_cmd cmd ?m)"
      "reader_of hash srv' fd = []" "wf_server srv'" by auto
    have "concat (down ?reply) = ?reply" "[] \<notin> set (down ?reply)" using assms(3) by (simp_all add: cuts_def)
    from client_line_reply [OF assms(5) good assms(9) this] obtain c' where
      "client_line line (c\<lparr>incoming := down ?reply\<rparr>) = (Inr (shown cmd ?m @ [CHR 0x0A]), c')" "connected c'" by blast
    with d good client_line_sent [OF assms(5) good] readable_spec_cmd [OF assms(9) good(2)] show ?thesis
      by (simp add: exchange_def remote_def spec_line_def)
  qed
qed

end
