(* ===== verification/LoadClients.thy ===== *)
theory LoadClients
  imports ClientServer
begin

text \<open>
  The clients of the end-to-end test, \<open>d2dtest/clients\<close>, and what \<open>d2dtest/run_test.py\<close> expects of them: one client writes
  a hundred keys, four clients change them at the same time, the server is killed and started again, and a
  last client reads the keys. A client is a program that calls operations of \<open>KvClient\<close>; it runs against the
  server of this development, one operation at a time, in any order of the clients. That a server whose
  handlers run in a pool of workers looks to clients that wait for their answers like one that executes one
  operation at a time is shown in \<open>KvSystem\<close>. Messages to the error stream and the pauses are not modelled.
\<close>

section \<open>The programs\<close>

datatype 'r prog =
    Return 'r
  | Call_Set string string "bool \<Rightarrow> 'r prog"
  | Call_Get string "string option \<Rightarrow> 'r prog"
  | Call_Delete string "bool \<Rightarrow> 'r prog"

text \<open>\<open>setw(2)\<close> with \<open>setfill('0')\<close>.\<close>

definition two :: "nat \<Rightarrow> string" where
  "two i = replicate (2 - length (to_string i)) (CHR ''0'') @ to_string i"

definition key :: "nat \<Rightarrow> string" where
  "key i = ''key_'' @ two i"

text \<open>The value of a program is what it prints and its exit status.\<close>

fun writer_loop :: "nat list \<Rightarrow> nat \<Rightarrow> nat \<Rightarrow> (string \<times> nat) prog" where
  "writer_loop [] success fail =
     Return (''WRITER DONE: '' @ to_string success @ '' ok, '' @ to_string fail @ '' fail'', if 0 < fail then 1 else 0)"
| "writer_loop (i # is) success fail =
     Call_Set (key i) (''value_'' @ two i) (\<lambda>b. if b then writer_loop is (Suc success) fail else writer_loop is success (Suc fail))"

fun burst_loop :: "nat list \<Rightarrow> nat \<Rightarrow> nat \<Rightarrow> (string \<times> nat) prog" where
  "burst_loop [] ok fail =
     Return (''BURST DONE: '' @ to_string ok @ '' ok, '' @ to_string fail @ '' fail'', if 0 < fail then 1 else 0)"
| "burst_loop (i # is) ok fail =
     Call_Set (key i) (''burst_'' @ to_string i) (\<lambda>b. if b then burst_loop is (Suc ok) fail else burst_loop is ok (Suc fail))"

fun steady_loop :: "nat list \<Rightarrow> nat \<Rightarrow> nat \<Rightarrow> (string \<times> nat) prog" where
  "steady_loop [] ok fail =
     Return (''STEADY DONE: '' @ to_string ok @ '' ok, '' @ to_string fail @ '' fail'', if 0 < fail then 1 else 0)"
| "steady_loop (i # is) ok fail =
     Call_Set (key i) (''steady_'' @ to_string i) (\<lambda>b. if b then steady_loop is (Suc ok) fail else steady_loop is ok (Suc fail))"

fun delete_loop :: "nat list \<Rightarrow> nat \<Rightarrow> nat \<Rightarrow> nat \<Rightarrow> nat \<Rightarrow> (string \<times> nat) prog" where
  "delete_loop [] del_ok del_fail set_ok set_fail =
     Return (''DELETE DONE: DEL '' @ to_string del_ok @ ''/'' @ to_string del_fail @ '' SET '' @ to_string set_ok @ ''/'' @ to_string set_fail,
       if 0 < del_fail \<or> 0 < set_fail then 1 else 0)"
| "delete_loop (i # is) del_ok del_fail set_ok set_fail =
     Call_Delete (key i) (\<lambda>d. Call_Set (key i) (''del_'' @ to_string i) (\<lambda>b.
       delete_loop is (if d then Suc del_ok else del_ok) (if d then del_fail else Suc del_fail)
         (if b then Suc set_ok else set_ok) (if b then set_fail else Suc set_fail)))"

fun modify_loop :: "nat list \<Rightarrow> nat \<Rightarrow> nat \<Rightarrow> nat \<Rightarrow> nat \<Rightarrow> (string \<times> nat) prog" where
  "modify_loop [] get_ok get_fail set_ok set_fail =
     Return (''MODIFY DONE: GET '' @ to_string get_ok @ ''/'' @ to_string get_fail @ '' SET '' @ to_string set_ok @ ''/'' @ to_string set_fail,
       if 0 < get_fail \<or> 0 < set_fail then 1 else 0)"
| "modify_loop (i # is) get_ok get_fail set_ok set_fail =
     Call_Get (key i) (\<lambda>current.
       case current of
         Some _ \<Rightarrow> Call_Set (key i) (''modify_'' @ to_string i) (\<lambda>b.
           modify_loop is (Suc get_ok) get_fail (if b then Suc set_ok else set_ok) (if b then set_fail else Suc set_fail))
       | None \<Rightarrow> Call_Set (key i) (''modify_'' @ to_string i) (\<lambda>b.
           modify_loop is get_ok (Suc get_fail) (if b then Suc set_ok else set_ok) (if b then set_fail else Suc set_fail)))"

text \<open>The reader also writes a file; \<open>g_timeout i\<close> is the value of the flag when key \<open>i\<close> is due.\<close>

fun reader_loop :: "(nat \<Rightarrow> bool) \<Rightarrow> nat list \<Rightarrow> nat \<Rightarrow> nat \<Rightarrow> string \<Rightarrow> (string \<times> string \<times> nat) prog" where
  "reader_loop g_timeout [] found missing ofs =
     Return (ofs, ''READER DONE: '' @ to_string found @ '' found, '' @ to_string missing @ '' missing'', 0)"
| "reader_loop g_timeout (i # is) found missing ofs =
     (if g_timeout i then Return (ofs, ''READER DONE: '' @ to_string found @ '' found, '' @ to_string missing @ '' missing'', 0)
      else
        Call_Get (key i) (\<lambda>value.
          case value of
            Some v \<Rightarrow> reader_loop g_timeout is (Suc found) missing (ofs @ key i @ ''='' @ v @ [CHR 0x0A])
          | None \<Rightarrow> reader_loop g_timeout is found (Suc missing) (ofs @ key i @ ''=MISSING'' @ [CHR 0x0A])))"

text \<open>The bodies of \<open>main\<close> after \<open>Connect\<close>, with its result.\<close>

definition writer_client :: "bool \<Rightarrow> (string \<times> nat) prog" where
  "writer_client ok = (if \<not> ok then Return ([], 1) else writer_loop [0..<100] 0 0)"

definition burst_client :: "bool \<Rightarrow> (string \<times> nat) prog" where
  "burst_client ok = (if \<not> ok then Return ([], 1) else burst_loop [0..<50] 0 0)"

definition steady_client :: "bool \<Rightarrow> (string \<times> nat) prog" where
  "steady_client ok = (if \<not> ok then Return ([], 1) else steady_loop [50..<80] 0 0)"

definition delete_client :: "bool \<Rightarrow> (string \<times> nat) prog" where
  "delete_client ok = (if \<not> ok then Return ([], 1) else delete_loop [80..<90] 0 0 0 0)"

definition modify_client :: "bool \<Rightarrow> (string \<times> nat) prog" where
  "modify_client ok = (if \<not> ok then Return ([], 1) else modify_loop [90..<100] 0 0 0 0)"

definition reader_client :: "(nat \<Rightarrow> bool) \<Rightarrow> bool \<Rightarrow> bool \<Rightarrow> (string \<times> string \<times> nat) prog" where
  "reader_client g_timeout can_open ok =
     (if \<not> ok then Return ([], [], 1) else if \<not> can_open then Return ([], [], 1) else reader_loop g_timeout [0..<100] 0 0 [])"

text \<open>The arguments, and the beginning of \<open>main\<close>.\<close>

definition load_args :: "string list \<Rightarrow> (string \<times> 16 word) result" where
  "load_args as =
     (case as of
        [] \<Rightarrow> Inr (''127.0.0.1'', 6379)
      | [host] \<Rightarrow> Inr (host, 6379)
      | host # p # _ \<Rightarrow> rbind (stoi p) (\<lambda>n. Inr (host, of_int n)))"

definition launch ::
  "int \<Rightarrow> (string \<Rightarrow> 16 word \<Rightarrow> int) \<Rightarrow> (bool \<Rightarrow> 'r prog) \<Rightarrow> string list \<Rightarrow> (KvClient \<times> 'r prog) result" where
  "launch socket_result connect_result body as =
     rbind (load_args as) (\<lambda>(host, p).
       let (ok, c) = Connect socket_result connect_result host p \<lparr>sock_fd = -1, sent = [], accepts = [], incoming = []\<rparr>
       in Inr (c, body ok))"

section \<open>Clients and a server\<close>

text \<open>The next operation of a client; a client that has ended stays as it is.\<close>

definition client_call ::
  "(int \<Rightarrow> nat) \<Rightarrow> iteration \<Rightarrow> (string \<Rightarrow> string list) \<Rightarrow> (string \<Rightarrow> string list) \<Rightarrow> int \<Rightarrow> KvClient \<Rightarrow> 'r prog \<Rightarrow> KvServer \<Rightarrow> os
     \<Rightarrow> ('r prog \<times> KvClient \<times> KvServer \<times> os) option" where
  "client_call hash order up down fd c p srv s =
     (case p of
        Return r \<Rightarrow> Some (p, c, srv, s)
      | Call_Set k v f \<Rightarrow> map_option (\<lambda>(x, y). (f x, y)) (remote hash order fd up down (KvClient_Set k v) c srv s)
      | Call_Get k f \<Rightarrow> map_option (\<lambda>(x, y). (f x, y)) (remote hash order fd up down (KvClient_Get k) c srv s)
      | Call_Delete k f \<Rightarrow> map_option (\<lambda>(x, y). (f x, y)) (remote hash order fd up down (KvClient_Delete k) c srv s))"

text \<open>Clients with the descriptors of their connections; the list of numbers says whose turn it is.\<close>

fun run_clients ::
  "(int \<Rightarrow> nat) \<Rightarrow> iteration \<Rightarrow> (string \<Rightarrow> string list) \<Rightarrow> (string \<Rightarrow> string list) \<Rightarrow> nat list \<Rightarrow> (int \<times> KvClient \<times> 'r prog) list \<Rightarrow> KvServer \<Rightarrow> os
     \<Rightarrow> ((int \<times> KvClient \<times> 'r prog) list \<times> KvServer \<times> os) option" where
  "run_clients hash order up down [] cls srv s = Some (cls, srv, s)"
| "run_clients hash order up down (j # js) cls srv s =
     (if j < length cls then
        (case cls ! j of (fd, c, p) \<Rightarrow>
           (case client_call hash order up down fd c p srv s of
              None \<Rightarrow> None
            | Some (p1, c1, srv1, s1) \<Rightarrow> run_clients hash order up down js (cls[j := (fd, c1, p1)]) srv1 s1))
      else run_clients hash order up down js cls srv s)"

section \<open>Programs on a map\<close>

type_synonym kv_map = "string \<Rightarrow> string option"

fun prog_step :: "'r prog \<Rightarrow> kv_map \<Rightarrow> 'r prog \<times> kv_map" where
  "prog_step (Return r) m = (Return r, m)"
| "prog_step (Call_Set k v f) m = (f True, m(k \<mapsto> v))"
| "prog_step (Call_Get k f) m = (f (m k), m)"
| "prog_step (Call_Delete k f) m = (f (m k \<noteq> None), m(k := None))"

text \<open>A program alone: its value, the map at the end, and the number of operations.\<close>

primrec exec :: "'r prog \<Rightarrow> kv_map \<Rightarrow> 'r \<times> kv_map \<times> nat" where
  "exec (Return r) m = (r, m, 0)"
| "exec (Call_Set k v f) m = (case exec (f True) (m(k \<mapsto> v)) of (r, m', n) \<Rightarrow> (r, m', Suc n))"
| "exec (Call_Get k f) m = (case exec (f (m k)) m of (r, m', n) \<Rightarrow> (r, m', Suc n))"
| "exec (Call_Delete k f) m = (case exec (f (m k \<noteq> None)) (m(k := None)) of (r, m', n) \<Rightarrow> (r, m', Suc n))"

abbreviation value_of where "value_of p m \<equiv> fst (exec p m)"
abbreviation map_of_exec where "map_of_exec p m \<equiv> fst (snd (exec p m))"
abbreviation calls where "calls p m \<equiv> snd (snd (exec p m))"

text \<open>\<open>tidy K A p\<close>: the program uses only the keys \<open>K\<close>, keys and values are short, and it deletes none of the keys \<open>A\<close>; if
  there are none, it does not delete at all.\<close>

primrec tidy :: "string set \<Rightarrow> string set \<Rightarrow> 'r prog \<Rightarrow> bool" where
  "tidy K A (Return r) \<longleftrightarrow> True"
| "tidy K A (Call_Set k v f) \<longleftrightarrow> k \<in> K \<and> length k < 2 ^ 16 \<and> length v < 2 ^ 16 \<and> (\<forall>b. tidy K A (f b))"
| "tidy K A (Call_Get k f) \<longleftrightarrow> k \<in> K \<and> length k < 2 ^ 16 \<and> (\<forall>v. tidy K A (f v))"
| "tidy K A (Call_Delete k f) \<longleftrightarrow> k \<in> K \<and> length k < 2 ^ 16 \<and> A \<noteq> {} \<and> k \<notin> A \<and> (\<forall>b. tidy K A (f b))"

lemma exec_frame:
  assumes "tidy K A p" and "\<forall>k \<in> K. m1 k = m2 k"
  shows "value_of p m1 = value_of p m2 \<and> calls p m1 = calls p m2 \<and> (\<forall>k \<in> K. map_of_exec p m1 k = map_of_exec p m2 k)"
  using assms
proof (induction p arbitrary: m1 m2)
  case (Call_Set k v f)
  then have "\<forall>x \<in> K. (m1(k \<mapsto> v)) x = (m2(k \<mapsto> v)) x" by simp
  with Call_Set.IH [OF rangeI, of True "m1(k \<mapsto> v)" "m2(k \<mapsto> v)"] Call_Set.prems(1) show ?case by (simp add: split_beta del: fun_upd_apply)
next
  case (Call_Get k f)
  then have "m1 k = m2 k" by simp
  with Call_Get.IH [OF rangeI _ Call_Get.prems(2), of "m2 k"] Call_Get.prems(1) show ?case by (simp add: split_beta)
next
  case (Call_Delete k f)
  then have d: "\<forall>x \<in> K. (m1(k := None)) x = (m2(k := None)) x" and "m1 k = m2 k" by simp_all
  with Call_Delete.IH [OF rangeI, of "m2 k \<noteq> None" "m1(k := None)" "m2(k := None)"] Call_Delete.prems(1) show ?case by (simp add: split_beta del: fun_upd_apply)
qed simp

lemma exec_step:
  "value_of (fst (prog_step p m)) (snd (prog_step p m)) = value_of p m"
  "map_of_exec (fst (prog_step p m)) (snd (prog_step p m)) = map_of_exec p m"
  "calls (fst (prog_step p m)) (snd (prog_step p m)) = calls p m - 1"
  by (cases p; simp add: split_beta)+

lemma tidy_step: "tidy K A p \<Longrightarrow> tidy K A (fst (prog_step p m))"
  by (cases p) auto

lemma step_frame: "tidy K A p \<Longrightarrow> k \<notin> K \<Longrightarrow> snd (prog_step p m) k = m k"
  by (cases p) auto

lemma tidy_mono: "tidy K A p \<Longrightarrow> K \<subseteq> L \<Longrightarrow> tidy L A p"
  by (induction p) auto

lemma calls_0: "calls p m = 0 \<Longrightarrow> p = Return (value_of p m) \<and> map_of_exec p m = m"
  by (cases p) (auto simp: split_beta)

text \<open>Programs taking turns.\<close>

fun run_spec :: "nat list \<Rightarrow> 'r prog list \<Rightarrow> kv_map \<Rightarrow> 'r prog list \<times> kv_map" where
  "run_spec [] ps m = (ps, m)"
| "run_spec (j # js) ps m =
     (if j < length ps then run_spec js (ps[j := fst (prog_step (ps ! j) m)]) (snd (prog_step (ps ! j) m)) else run_spec js ps m)"

text \<open>Programs with different keys do not disturb each other: each gets the value, and leaves the keys, that it would
  get and leave alone.\<close>

lemma run_spec_independent:
  assumes "\<forall>j < length ps. tidy (K j) A (ps ! j)" and "\<forall>i < length ps. \<forall>j < length ps. i \<noteq> j \<longrightarrow> K i \<inter> K j = {}"
    and "run_spec js ps m = (ps', m')"
  shows "length ps' = length ps \<and> (\<forall>j < length ps. value_of (ps' ! j) m' = value_of (ps ! j) m
     \<and> (\<forall>k \<in> K j. map_of_exec (ps' ! j) m' k = map_of_exec (ps ! j) m k) \<and> calls (ps' ! j) m' = calls (ps ! j) m - count_list js j)
     \<and> (\<forall>k. (\<forall>j < length ps. k \<notin> K j) \<longrightarrow> m' k = m k)"
  using assms
proof (induction js arbitrary: ps m)
  case (Cons i js)
  show ?case
  proof (cases "i < length ps")
    case False
    then have r: "run_spec js ps m = (ps', m')" using Cons.prems(3) by simp
    have "i \<noteq> j" if "j < length ps" for j using False that by blast
    with Cons.IH [OF Cons.prems(1,2) r] show ?thesis by simp
  next
    case True
    let ?p = "fst (prog_step (ps ! i) m)" and ?m = "snd (prog_step (ps ! i) m)"
    have ti: "tidy (K i) A (ps ! i)" using Cons.prems(1) True by blast
    have "\<forall>j < length ps. tidy (K j) A (ps[i := ?p] ! j)"
      using Cons.prems(1) tidy_step [OF ti] True by (auto simp: nth_list_update)
    moreover note Cons.prems(2)
    moreover have "run_spec js (ps[i := ?p]) ?m = (ps', m')" using Cons.prems(3) True by simp
    ultimately have ih: "length ps' = length ps \<and> (\<forall>j < length ps. value_of (ps' ! j) m' = value_of (ps[i := ?p] ! j) ?m
       \<and> (\<forall>k \<in> K j. map_of_exec (ps' ! j) m' k = map_of_exec (ps[i := ?p] ! j) ?m k) \<and> calls (ps' ! j) m' = calls (ps[i := ?p] ! j) ?m - count_list js j)
       \<and> (\<forall>k. (\<forall>j < length ps. k \<notin> K j) \<longrightarrow> m' k = ?m k)"
      by (rule Cons.IH [of "ps[i := ?p]" ?m, unfolded length_list_update])
    have one: "value_of (ps[i := ?p] ! j) ?m = value_of (ps ! j) m
       \<and> (\<forall>k \<in> K j. map_of_exec (ps[i := ?p] ! j) ?m k = map_of_exec (ps ! j) m k)
       \<and> calls (ps[i := ?p] ! j) ?m = calls (ps ! j) m - (if i = j then 1 else 0)" if j: "j < length ps" for j
    proof (cases "i = j")
      case True
      with j show ?thesis by (simp add: exec_step)
    next
      case False
      then have "K i \<inter> K j = {}" using Cons.prems(2) \<open>i < length ps\<close> j by blast
      then have "\<forall>k \<in> K j. ?m k = m k" by (auto intro!: step_frame [OF ti])
      from exec_frame [OF _ this, of A "ps ! j"] Cons.prems(1) j False show ?thesis by simp
    qed
    show ?thesis
    proof (intro conjI allI impI ballI)
      show "length ps' = length ps" using ih by (rule conjunct1)
    next
      fix j assume j: "j < length ps"
      note a = one [OF j] and b = ih [THEN conjunct2, THEN conjunct1, rule_format, OF j]
      show "value_of (ps' ! j) m' = value_of (ps ! j) m" using a b by simp
      show "calls (ps' ! j) m' = calls (ps ! j) m - count_list (i # js) j" using a b by simp
      fix k assume "k \<in> K j"
      with a b show "map_of_exec (ps' ! j) m' k = map_of_exec (ps ! j) m k" by simp
    next
      fix k assume k: "\<forall>j < length ps. k \<notin> K j"
      then have "k \<notin> K i" using True by blast
      with k ih step_frame [OF ti] show "m' k = m k" by simp
    qed
  qed
qed simp

section \<open>The programs on the server\<close>

text \<open>The server between two requests; with \<open>G\<close> also that the files in the directory have the contents of the store.\<close>

definition served :: "(int \<Rightarrow> nat) \<Rightarrow> string \<Rightarrow> bool \<Rightarrow> KvServer \<Rightarrow> os \<Rightarrow> kv_map \<Rightarrow> bool" where
  "served hash dir G srv s m \<longleftrightarrow> (G \<longrightarrow> ok_store 1 (srv_store srv) s \<and> data_dir (srv_store srv) = dir) \<and> live (srv_store srv) s
     \<and> wf_server srv \<and> find_entry (kv_data (srv_store srv)) = m \<and> (\<forall>fd. reader_of hash srv fd = [])"

definition small_map :: "string set \<Rightarrow> kv_map \<Rightarrow> bool" where
  "small_map T m \<longleftrightarrow> finite T \<and> card T < 2 ^ 30 \<and> dom m \<subseteq> T \<and> (\<forall>k v. m k = Some v \<longrightarrow> length v < 2 ^ 16)"

lemma short_fits: "length x < 2 ^ 16 \<Longrightarrow> fits_bulk x"
  by (simp add: fits_bulk_def int_max_def)

lemma small_map_card: "small_map T m \<Longrightarrow> card (dom m) < 2 ^ 30"
  using card_mono [of T "dom m"] by (auto simp: small_map_def)

lemma small_map_readable: "small_map T m \<Longrightarrow> readable 0 m"
  using small_map_card [of T m] finite_subset [of "dom m" T]
  by (auto simp: readable_def small_map_def pred_option_def short_fits split: option.splits)

lemma served_remote:
  assumes op: "\<And>c. op c = (let (r, c1) = request (type cmd) (args cmd) c in (rbind r g, c1))" and "wf_command cmd"
    and "visits_once order" and "cuts up" and "cuts down" and "connected c" and "served hash dir G srv s m"
    and "small_map T m" and "small_map T (snd (spec_cmd cmd m))" and "g (SerializeResponse (fst (spec_cmd cmd m))) = Inr x"
    and "length (cmd_ops cmd) \<le> 1" and "\<forall>q \<in> set (cmd_ops cmd). small_op q" and "never_emptied m (cmd_ops cmd)"
  shows "\<exists>c' srv' s'. remote hash order fd up down op c srv s = Some (x, c', srv', s') \<and> connected c'
     \<and> served hash dir G srv' s' (snd (spec_cmd cmd m))"
proof -
  have sv: "live (srv_store srv) s" "wf_server srv" "m = find_entry (kv_data (srv_store srv))" "\<And>fd. reader_of hash srv fd = []"
    using assms(7) by (simp_all add: served_def)
  from remote_served [OF op assms(2-6) sv(1,2,4,3) wf_response_spec [OF small_map_readable [OF assms(8)] assms(2)] assms(10)]
  obtain c' srv' s' where r: "remote hash order fd up down op c srv s = Some (x, c', srv', s')" "connected c'" "live (srv_store srv') s'"
    "wf_server srv'" "find_entry (kv_data (srv_store srv')) = snd (spec_cmd cmd m)" "\<forall>fd'. reader_of hash srv' fd' = reader_of hash srv fd'"
    "run_ops order (cmd_ops cmd) (srv_store srv) s = (Inr (), srv_store srv', s')" by metis
  have "ok_store 1 (srv_store srv') s' \<and> data_dir (srv_store srv') = dir" if G
  proof -
    have g: "ok_store 1 (srv_store srv) s" "data_dir (srv_store srv) = dir" using assms(7) \<open>G\<close> by (simp_all add: served_def)
    then have "ok_store (length (cmd_ops cmd)) (srv_store srv) s" using assms(11) by (auto simp: ok_store_def)
    from run_ops_ok [OF assms(3) this assms(12) _ r(7)] assms(13) sv(3) g(2)
    have o: "ok_store 0 (srv_store srv') s'" "data_dir (srv_store srv') = dir" by simp_all
    have "length (kv_data (srv_store srv')) = card (dom (snd (spec_cmd cmd m)))"
      using hash_map.enum_card [of "kv_data (srv_store srv')"] r(3,5) by (simp add: live_def)
    with o small_map_card [OF assms(9)] show ?thesis by (auto simp: ok_store_def)
  qed
  then have "served hash dir G srv' s' (snd (spec_cmd cmd m))" using r(3-6) sv(4) by (simp add: served_def)
  with r(1,2) show ?thesis by blast
qed

lemma client_call_step:
  assumes "visits_once order" and "cuts up" and "cuts down" and "connected c" and "served hash dir G srv s m"
    and "tidy T A p" and "small_map T m" and "A \<subseteq> dom m"
  shows "\<exists>c' srv' s'. client_call hash order up down fd c p srv s = Some (fst (prog_step p m), c', srv', s') \<and> connected c'
     \<and> served hash dir G srv' s' (snd (prog_step p m)) \<and> small_map T (snd (prog_step p m)) \<and> A \<subseteq> dom (snd (prog_step p m))"
proof (cases p)
  case (Return r)
  with assms show ?thesis by (simp add: client_call_def)
next
  case (Call_Set k v f)
  let ?cmd = "\<lparr>type = SET, args = [k, v], error = NONE\<rparr>"
  have k: "k \<in> T" "length k < 2 ^ 16" "length v < 2 ^ 16" using assms(6) Call_Set by simp_all
  have sp: "spec_cmd ?cmd m = (\<lparr>status = OK, message = []\<rparr>, m(k \<mapsto> v))" by (simp add: spec_cmd.simps)
  have ne: "m(k \<mapsto> v) \<noteq> (\<lambda>_. None)" by (metis fun_upd_same option.distinct(1))
  have sm: "small_map T (m(k \<mapsto> v))" using assms(7) k by (auto simp: small_map_def)
  have "\<exists>c' srv' s'. remote hash order fd up down (KvClient_Set k v) c srv s = Some (True, c', srv', s') \<and> connected c'
     \<and> served hash dir G srv' s' (snd (spec_cmd ?cmd m))"
    using k ne by (intro served_remote [OF _ _ assms(1-5,7), where g = "\<lambda>resp. Inr (4 \<le> length resp \<and> hd resp = CHR ''+'')"])
      (simp_all add: KvClient_Set_def wf_command_def short_fits sp sm SerializeResponse_def crlf_def cmd_ops_def small_op_def)
  then obtain c' srv' s' where "remote hash order fd up down (KvClient_Set k v) c srv s = Some (True, c', srv', s')" "connected c'"
    "served hash dir G srv' s' (m(k \<mapsto> v))" unfolding sp by auto
  with Call_Set sm assms(8) show ?thesis by (simp add: client_call_def subset_insertI2)
next
  case (Call_Get k f)
  let ?cmd = "\<lparr>type = GET, args = [k], error = NONE\<rparr>"
  have k: "k \<in> T" "length k < 2 ^ 16" using assms(6) Call_Get by simp_all
  have "case m k of None \<Rightarrow> True | Some x \<Rightarrow> fits_bulk x"
    using assms(7) by (auto simp: small_map_def short_fits split: option.splits)
  note g = get_reply_response [OF this]
  have sp: "spec_cmd ?cmd m = (case m k of Some v \<Rightarrow> \<lparr>status = VALUE, message = v\<rparr> | None \<Rightarrow> \<lparr>status = NOT_FOUND, message = []\<rparr>, m)"
    by (simp add: spec_cmd.simps)
  have "\<exists>c' srv' s'. remote hash order fd up down (KvClient_Get k) c srv s = Some (m k, c', srv', s') \<and> connected c'
     \<and> served hash dir G srv' s' (snd (spec_cmd ?cmd m))"
    using k assms(7) by (intro served_remote [OF _ _ assms(1-5,7), where g = get_reply])
      (simp_all add: KvClient_Get_def wf_command_def short_fits sp g cmd_ops_def)
  then obtain c' srv' s' where "remote hash order fd up down (KvClient_Get k) c srv s = Some (m k, c', srv', s')" "connected c'"
    "served hash dir G srv' s' m" unfolding sp by auto
  with Call_Get assms(7,8) show ?thesis by (simp add: client_call_def)
next
  case (Call_Delete k f)
  let ?cmd = "\<lparr>type = DEL, args = [k], error = NONE\<rparr>"
  have k: "k \<in> T" "length k < 2 ^ 16" "A \<noteq> {}" "k \<notin> A" using assms(6) Call_Delete by simp_all
  have sp: "spec_cmd ?cmd m = (\<lparr>status = COUNT, message = (if m k = None then ''0'' else ''1'')\<rparr>, m(k := None))" by (simp add: spec_cmd.simps)
  have sm: "small_map T (m(k := None))" using assms(7) by (auto simp: small_map_def)
  obtain a where a: "a \<in> A" "a \<noteq> k" "m a \<noteq> None" using k(3,4) assms(8) by blast
  then have ne: "m(k := None) \<noteq> (\<lambda>_. None)" by (metis fun_upd_other)
  have "\<exists>c' srv' s'. remote hash order fd up down (KvClient_Delete k) c srv s = Some (m k \<noteq> None, c', srv', s') \<and> connected c'
     \<and> served hash dir G srv' s' (snd (spec_cmd ?cmd m))"
    using k ne by (intro served_remote [OF _ _ assms(1-5,7), where g = "\<lambda>resp.
        if resp = [] \<or> hd resp \<noteq> CHR '':'' then Inr False else Inr ((resp @ [CHR 0x00]) ! 1 \<noteq> CHR ''0'')"])
      (simp_all add: KvClient_Delete_def wf_command_def short_fits sp sm SerializeResponse_def crlf_def cmd_ops_def small_op_def)
  then obtain c' srv' s' where "remote hash order fd up down (KvClient_Delete k) c srv s = Some (m k \<noteq> None, c', srv', s')" "connected c'"
    "served hash dir G srv' s' (m(k := None))" unfolding sp by auto
  moreover have "A \<subseteq> dom (m(k := None))" using assms(8) k(4) by auto
  ultimately show ?thesis using Call_Delete sm by (simp add: client_call_def)
qed

text \<open>The clients on the server do what the programs do on the map.\<close>

lemma run_clients_spec:
  assumes "visits_once order" and "cuts up" and "cuts down" and "\<forall>(fd, c, p) \<in> set cls. connected c \<and> tidy T A p"
    and "served hash dir G srv s m" and "small_map T m" and "A \<subseteq> dom m" and "run_spec js (map (\<lambda>x. snd (snd x)) cls) m = (ps', m')"
  shows "\<exists>cls' srv' s'. run_clients hash order up down js cls srv s = Some (cls', srv', s') \<and> map (\<lambda>x. snd (snd x)) cls' = ps'
     \<and> served hash dir G srv' s' m' \<and> small_map T m'"
  using assms(4-8)
proof (induction js arbitrary: cls srv s m)
  case (Cons j js)
  show ?case
  proof (cases "j < length cls")
    case False
    with Cons.IH [OF Cons.prems(1-4)] Cons.prems(5) show ?thesis by simp
  next
    case True
    obtain fd c p where j: "cls ! j = (fd, c, p)" by (cases "cls ! j")
    with Cons.prems(1) True have p: "connected c" "tidy T A p" using nth_mem [OF True] by auto
    from client_call_step [OF assms(1-3) p(1) Cons.prems(2) p(2) Cons.prems(3,4)] obtain c1 srv1 s1 where
      c: "client_call hash order up down fd c p srv s = Some (fst (prog_step p m), c1, srv1, s1)" "connected c1"
      "served hash dir G srv1 s1 (snd (prog_step p m))" "small_map T (snd (prog_step p m))" "A \<subseteq> dom (snd (prog_step p m))" by blast
    let ?cls = "cls[j := (fd, c1, fst (prog_step p m))]"
    have "\<forall>(fd, c, p) \<in> set ?cls. connected c \<and> tidy T A p"
      using Cons.prems(1) c(2) tidy_step [OF p(2)] set_update_subset_insert [of cls j] by fastforce
    moreover have "run_spec js (map (\<lambda>x. snd (snd x)) ?cls) (snd (prog_step p m)) = (ps', m')"
      using Cons.prems(5) True j by (simp add: map_update)
    ultimately have "\<exists>cls' srv' s'. run_clients hash order up down js ?cls srv1 s1 = Some (cls', srv', s') \<and> map (\<lambda>x. snd (snd x)) cls' = ps'
       \<and> served hash dir G srv' s' m' \<and> small_map T m'" by (rule Cons.IH [OF _ c(3-5)])
    with c(1) True j show ?thesis by simp
  qed
qed simp

text \<open>Clients with different keys that get enough turns all end, each with the value and the keys that it has alone.\<close>

lemma clients_finish:
  assumes "visits_once order" and "cuts up" and "cuts down" and "\<forall>x \<in> set cls. connected (fst (snd x))"
    and "served hash dir G srv s m" and "small_map T m" and "A \<subseteq> dom m"
    and "\<forall>j < length cls. tidy (K j) A (snd (snd (cls ! j))) \<and> K j \<subseteq> T \<and> calls (snd (snd (cls ! j))) m \<le> count_list js j"
    and "\<forall>i < length cls. \<forall>j < length cls. i \<noteq> j \<longrightarrow> K i \<inter> K j = {}"
  obtains cls' srv' s' m' where "run_clients hash order up down js cls srv s = Some (cls', srv', s')"
    and "served hash dir G srv' s' m'" and "small_map T m'"
    and "map (\<lambda>x. snd (snd x)) cls' = map (\<lambda>x. Return (value_of (snd (snd x)) m)) cls"
    and "\<forall>j < length cls. \<forall>k \<in> K j. m' k = map_of_exec (snd (snd (cls ! j))) m k"
proof -
  let ?ps = "map (\<lambda>x. snd (snd x)) cls"
  obtain ps' m' where r: "run_spec js ?ps m = (ps', m')" by (cases "run_spec js ?ps m")
  have "\<forall>(fd, c, p) \<in> set cls. connected c \<and> tidy T A p"
    using assms(4,8) tidy_mono by (fastforce simp: in_set_conv_nth)
  from run_clients_spec [OF assms(1-3) this assms(5-7) r] obtain cls' srv' s' where
    c: "run_clients hash order up down js cls srv s = Some (cls', srv', s')" "map (\<lambda>x. snd (snd x)) cls' = ps'"
      "served hash dir G srv' s' m'" "small_map T m'" by blast
  have t: "\<forall>j < length ?ps. tidy (K j) A (?ps ! j)" "\<forall>i < length ?ps. \<forall>j < length ?ps. i \<noteq> j \<longrightarrow> K i \<inter> K j = {}"
    using assms(8,9) by simp_all
  note ind = run_spec_independent [OF t r]
  have fin: "ps' ! j = Return (value_of (?ps ! j) m) \<and> (\<forall>k \<in> K j. m' k = map_of_exec (?ps ! j) m k)" if j: "j < length cls" for j
  proof -
    have a: "value_of (ps' ! j) m' = value_of (?ps ! j) m" "\<forall>k \<in> K j. map_of_exec (ps' ! j) m' k = map_of_exec (?ps ! j) m k"
      "calls (ps' ! j) m' = calls (?ps ! j) m - count_list js j" using ind j by simp_all
    have "calls (ps' ! j) m' = 0" using a(3) assms(8) j by simp
    from calls_0 [OF this] a(1,2) show ?thesis by simp
  qed
  have "ps' = map (\<lambda>x. Return (value_of (snd (snd x)) m)) cls"
    using ind fin by (intro nth_equalityI) simp_all
  with that [OF c(1,3,4)] c(2) fin show ?thesis by simp
qed

section \<open>What the programs do\<close>

lemma dec_value_zeros: "dec_value (replicate n (CHR ''0'') @ ds) = dec_value ds"
  by (induction n) (simp_all add: dec_value_def)

lemma key_inject [simp]: "key i = key j \<longleftrightarrow> i = j"
proof
  assume "key i = key j"
  then have "dec_value (two i) = dec_value (two j)" by (simp add: key_def)
  then show "i = j" by (simp add: two_def dec_value_zeros)
qed simp

lemma short_key:
  "i < 100 \<Longrightarrow> 120 \<le> n \<Longrightarrow> length (key i) < n" "i < 100 \<Longrightarrow> 110 \<le> n \<Longrightarrow> length (two i) < n"
  "i < 100 \<Longrightarrow> 110 \<le> n \<Longrightarrow> length (to_string i) < n"
  using length_to_string [of i] by (simp_all add: key_def two_def)

lemma loops_tidy:
  assumes "set is \<subseteq> {..<100}" and "key ` set is \<subseteq> K"
  shows "tidy K A (writer_loop is a b)" "tidy K A (burst_loop is a b)" "tidy K A (steady_loop is a b)"
    "tidy K A (modify_loop is a b c d)" "tidy K A (reader_loop g is a b ofs)"
  using assms by (induction "is" arbitrary: a b c d ofs) (auto simp: short_key split: option.splits)

lemma delete_tidy:
  assumes "set is \<subseteq> {..<100}" and "key ` set is \<subseteq> K" and "A \<noteq> {}" and "key ` set is \<inter> A = {}"
  shows "tidy K A (delete_loop is a b c d)"
  using assms by (induction "is" arbitrary: a b c d) (auto simp: short_key)

text \<open>Writing a value to each of a list of keys.\<close>

fun writes :: "(nat \<Rightarrow> string) \<Rightarrow> nat list \<Rightarrow> kv_map \<Rightarrow> kv_map" where
  "writes f [] m = m"
| "writes f (i # is) m = writes f is (m(key i \<mapsto> f i))"

lemma writes_key: "writes f is m (key i) = (if i \<in> set is then Some (f i) else m (key i))"
  by (induction "is" arbitrary: m) auto

lemma exec_writer: "exec (writer_loop is a b) m = (value_of (writer_loop [] (a + length is) b) m, writes (\<lambda>i. ''value_'' @ two i) is m, length is)"
  by (induction "is" arbitrary: a m) simp_all

lemma exec_burst: "exec (burst_loop is a b) m = (value_of (burst_loop [] (a + length is) b) m, writes (\<lambda>i. ''burst_'' @ to_string i) is m, length is)"
  by (induction "is" arbitrary: a m) simp_all

lemma exec_steady: "exec (steady_loop is a b) m = (value_of (steady_loop [] (a + length is) b) m, writes (\<lambda>i. ''steady_'' @ to_string i) is m, length is)"
  by (induction "is" arbitrary: a m) simp_all

lemma exec_delete:
  "\<forall>i \<in> set is. m (key i) \<noteq> None \<Longrightarrow>
   exec (delete_loop is a b c d) m
     = (value_of (delete_loop [] (a + length is) b (c + length is) d) m, writes (\<lambda>i. ''del_'' @ to_string i) is m, 2 * length is)"
  by (induction "is" arbitrary: a c m) simp_all

lemma exec_modify:
  "\<forall>i \<in> set is. m (key i) \<noteq> None \<Longrightarrow>
   exec (modify_loop is a b c d) m
     = (value_of (modify_loop [] (a + length is) b (c + length is) d) m, writes (\<lambda>i. ''modify_'' @ to_string i) is m, 2 * length is)"
proof (induction "is" arbitrary: a c m)
  case (Cons i "is")
  then obtain v where "m (key i) = Some v" by auto
  moreover have "\<forall>j \<in> set is. (m(key i \<mapsto> ''modify_'' @ to_string i)) (key j) \<noteq> None" using Cons.prems by simp
  note Cons.IH [OF this, of "Suc a" "Suc c"]
  ultimately show ?case by (simp del: fun_upd_apply)
qed simp

lemma exec_reader:
  "\<forall>i \<in> set is. m (key i) = Some (e i) \<Longrightarrow>
   exec (reader_loop (\<lambda>_. False) is a b ofs) m
     = (value_of (reader_loop (\<lambda>_. False) [] (a + length is) b (ofs @ concat (map (\<lambda>i. key i @ ''='' @ e i @ [CHR 0x0A]) is))) m, m, length is)"
  by (induction "is" arbitrary: a ofs) simp_all

end
