(* ===== verification/EndToEnd.thy ===== *)
theory EndToEnd
  imports LoadClients
begin

text \<open>
  The end-to-end test \<open>d2dtest/run_test.py\<close>: the steps of \<open>run_test\<close> and the verdict of \<open>verify_result\<close>, over the models of the
  clients and of the server. The processes of the test are those of the models; which client takes its turn when,
  and when the reader's time is over, are arguments. A process that is given too few turns is one that the script
  kills. The value is \<^const>\<open>None\<close> when a request is not answered at all.
\<close>

section \<open>The verdict\<close>










section \<open>The test\<close>





section \<open>The expected file is accepted\<close>

declare upt_rec_numeral [simp del]















section \<open>The phases of the test\<close>

abbreviation fresh_client :: "int \<Rightarrow> KvClient" where
  "fresh_client sk \<equiv> \<lparr>sock_fd = sk, sent = [], accepts = [], incoming = []\<rparr>"







lemma fresh_connected: "0 \<le> sk \<Longrightarrow> connected (fresh_client sk)"
  by (simp add: connected_def)









section \<open>Properties\<close>



end
