(* ===== verification/IocpServer.thy ===== *)
theory IocpServer
  imports TcpServer
begin

text \<open>
  The Windows branches of \<open>src/server/tcp_server.cpp\<close> and \<open>include/server/tcp_server.h\<close>: a thread that accepts connections, threads
  that wait on an I/O completion port, and the thread pool that the other platform uses as well. A read is posted for
  each connection; its completion gives the bytes, the next read is posted, and the bytes are submitted to the pool.
  As in \<open>TcpServer\<close>, what the system calls return is an argument, also where the code ignores it.
\<close>

section \<open>The server\<close>

datatype handle = INVALID_HANDLE | NULL_HANDLE | Port

text \<open>\<open>contexts\<close> has the flag \<open>is_read\<close> of each context. \<open>posted\<close> is the state of the system: the connections for which a read
  is under way.\<close>

record 'a IocpServer = "'a TcpServer" +
  iocp :: handle
  worker_threads :: nat
  accept_thread :: bool
  contexts :: "int \<Rightarrow> bool option"
  wsa_initialized :: bool
  posted :: "int set"







text \<open>\<open>CloseConnection\<close>. It calls \<open>close\<close>, which is for the file descriptors of the C runtime, and not \<open>closesocket\<close>: the
  socket stays open. What the call does to a file that has the same number is outside the model, and the call is
  taken to return.\<close>

definition Iocp_CloseConnection :: "int \<Rightarrow> 'a IocpServer \<Rightarrow> 'a IocpServer" where
  "Iocp_CloseConnection fd t =
     t\<lparr>contexts := (contexts t)(fd := None), write_buffers := (write_buffers t)(fd := None)\<rparr>"

text \<open>What \<open>GetQueuedCompletionStatus\<close> gives: whether it succeeded, the key and the bytes; and whether the next read can be started.\<close>

record completion =
  c_ok :: bool
  c_key :: int
  c_data :: string
  c_post :: bool

text \<open>One round of \<open>WorkerThread\<close>. The lock is held from the look-up of the context to the end of \<open>Submit\<close>. A task is
  submitted also when there is no callback.\<close>

definition iocp_round :: "completion \<Rightarrow> 'a IocpServer \<Rightarrow> unit result \<times> 'a IocpServer" where
  "iocp_round c t =
     (let k = c_key c in
      if \<not> c_ok c then (Inr (), if k \<noteq> server_fd t then Iocp_CloseConnection k t else t)
      else if c_data c = [] then (Inr (), if k \<noteq> server_fd t then Iocp_CloseConnection k t else t)
      else
        (case contexts t k of
           None \<Rightarrow> (Inr (), t)
         | Some is_read \<Rightarrow>
             if \<not> is_read then (Inr (), t)
             else
               let t1 = t\<lparr>posted := (if c_post c then insert k (posted t) else posted t)\<rparr>
               in case thread_pool t1 of
                    None \<Rightarrow> (Inl Undefined, t1)
                  | Some p \<Rightarrow> (let (r, p1) = Submit (k, c_data c) p in (r, t1\<lparr>thread_pool := Some p1\<rparr>))))"

text \<open>The loop of a worker, over the completions that come to it while the server runs.\<close>

fun WorkerThread :: "completion list \<Rightarrow> 'a IocpServer \<Rightarrow> unit result \<times> 'a IocpServer" where
  "WorkerThread [] t = (Inr (), t)"
| "WorkerThread (c # cs) t =
     (if \<not> tcp_running t then (Inr (), t)
      else
        case iocp_round c t of
          (Inl e, t1) \<Rightarrow> (Inl e, t1)
        | (Inr _, t1) \<Rightarrow> WorkerThread cs t1)"

text \<open>The task that a worker submits, when the pool runs it. A callback that does not return is \<^const>\<open>None\<close>; what \<open>send\<close>
  returns is ignored.\<close>

definition iocp_task :: "task \<Rightarrow> send_result \<Rightarrow> 'a IocpServer \<Rightarrow> 'a \<Rightarrow> net \<Rightarrow> (unit result \<times> 'a \<times> net) option" where
  "iocp_task tk sr t x n =
     (case tk of (fd, data) \<Rightarrow>
        (case on_message t of
           None \<Rightarrow> Some (Inr (), x, n)
         | Some cb \<Rightarrow>
             (case cb fd data x of
                None \<Rightarrow> None
              | Some (Inl e, x1) \<Rightarrow> Some (Inl e, x1, n)
              | Some (Inr resp, x1) \<Rightarrow> Some (Inr (), x1, if resp \<noteq> [] then snd (sock_send fd resp sr n) else n))))"

text \<open>The last rounds of the workers that wait at the port when \<open>Stop\<close> is called: a worker takes a completion, or the port is
  closed under it (\<^const>\<open>None\<close>). In that case the call stores no key, and the worker reads the variable without a value.\<close>

fun last_rounds :: "completion option list \<Rightarrow> 'a IocpServer \<Rightarrow> unit result \<times> 'a IocpServer" where
  "last_rounds [] t = (Inr (), t)"
| "last_rounds (None # ws) t = (Inl Undefined, t)"
| "last_rounds (Some c # ws) t =
     (case iocp_round c t of
        (Inl e, t1) \<Rightarrow> (Inl e, t1)
      | (Inr _, t1) \<Rightarrow> last_rounds ws t1)"

text \<open>The packet that \<open>Stop\<close> posts for each worker has the key 0 and no bytes.\<close>

definition wake_packet :: completion where
  "wake_packet = \<lparr>c_ok = True, c_key = 0, c_data = [], c_post = True\<rparr>"



section \<open>Connections and reads\<close>











lemma iocp_round_closed:
  assumes "k \<noteq> server_fd t"
  shows "iocp_round \<lparr>c_ok = ok, c_key = k, c_data = [], c_post = post\<rparr> t = (Inr (), Iocp_CloseConnection k t)"
  using assms by (simp add: iocp_round_def)



text \<open>A task sends only to the connection it was read from.\<close>

lemma iocp_task_frame:
  assumes "iocp_task (fd, d) sr t x n = Some (r, x', n')" and "conns n fd \<noteq> Some c"
  shows "outbox n' c = outbox n c \<and> conns n' = conns n"
  using assms by (auto simp: iocp_task_def sock_send_def split: option.splits prod.splits sum.splits send_result.splits if_splits)

section \<open>Stopping\<close>



text \<open>A worker that takes the packet of \<open>Stop\<close> forgets the connection with the number 0.\<close>

lemma wake_packet_closes_0:
  assumes "server_fd t \<noteq> 0"
  shows "last_rounds [Some wake_packet] t = (Inr (), Iocp_CloseConnection 0 t)"
  using assms by (simp add: wake_packet_def iocp_round_closed)






section \<open>Properties\<close>







end
