(* ===== verification/WalThread.thy ===== *)
theory WalThread
  imports Wal Transition
begin

text \<open>
  The background thread of the log, \<open>WAL::SyncLoop\<close> in \<open>src/common/wal.cpp\<close>, together with a thread that
  calls \<open>Shutdown\<close> or calls \<open>Init\<close> again while the background thread runs. A step is a section of code
  between two points where the other thread may run; the mutex is held by one of them or free. The
  sections that work on the file are the operations of the theory \<open>Wal\<close>.
\<close>

section \<open>The two threads\<close>

datatype sync_pc =
    S_Test     \<comment> \<open>at \<open>while (running_)\<close>\<close>
  | S_Lock1    \<comment> \<open>about to lock the mutex to read the interval\<close>
  | S_Read     \<comment> \<open>holds the mutex\<close>
  | S_Sleep    \<comment> \<open>in \<open>sleep_for\<close>\<close>
  | S_Lock2    \<comment> \<open>about to lock the mutex to synchronise\<close>
  | S_Sync     \<comment> \<open>holds the mutex\<close>
  | S_Done     \<comment> \<open>has returned, or was never started\<close>

datatype main_pc =
    M_Shutdown                 \<comment> \<open>\<open>Shutdown\<close>: about to set \<open>running_\<close>\<close>
  | M_SJoin                    \<comment> \<open>in \<open>join\<close>, without the mutex\<close>
  | M_SLock                    \<comment> \<open>about to lock the mutex\<close>
  | M_SClose                   \<comment> \<open>holds the mutex\<close>
  | M_Init string WALConfig    \<comment> \<open>\<open>Init\<close>: about to lock the mutex\<close>
  | M_IStop string WALConfig   \<comment> \<open>holds the mutex, about to set \<open>running_\<close>\<close>
  | M_IJoin string WALConfig   \<comment> \<open>in \<open>join\<close>, with the mutex\<close>
  | M_IOpen string WALConfig   \<comment> \<open>holds the mutex\<close>
  | M_Done

datatype holder = H_Main | H_Sync

record wal_sys =
  the_wal :: WAL
  the_os :: os
  lock :: "holder option"
  sync_pc :: sync_pc
  main_pc :: main_pc

text \<open>\<open>SyncLoop\<close>; \<^const>\<open>None\<close> when the thread waits or has returned.\<close>

definition SyncLoop_step :: "wal_sys \<Rightarrow> wal_sys option" where
  "SyncLoop_step p =
     (case sync_pc p of
        S_Test \<Rightarrow> Some (p\<lparr>sync_pc := if wal_running (the_wal p) then S_Lock1 else S_Done\<rparr>)
      | S_Lock1 \<Rightarrow> if lock p = None then Some (p\<lparr>sync_pc := S_Read, lock := Some H_Sync\<rparr>) else None
      | S_Read \<Rightarrow> Some (p\<lparr>sync_pc := S_Sleep, lock := None\<rparr>)
      | S_Sleep \<Rightarrow> Some (p\<lparr>sync_pc := S_Lock2\<rparr>)
      | S_Lock2 \<Rightarrow> if lock p = None then Some (p\<lparr>sync_pc := S_Sync, lock := Some H_Sync\<rparr>) else None
      | S_Sync \<Rightarrow> Some (p\<lparr>sync_pc := S_Test, lock := None, the_os := WAL_Sync (the_wal p) (the_os p)\<rparr>)
      | S_Done \<Rightarrow> None)"

text \<open>\<open>join\<close> returns when the thread has returned; there is nothing to wait for when it is not joinable.\<close>

definition joined :: "wal_sys \<Rightarrow> bool" where
  "joined p \<longleftrightarrow> \<not> sync_thread (the_wal p) \<or> sync_pc p = S_Done"

definition caller_step :: "wal_sys \<Rightarrow> wal_sys option" where
  "caller_step p =
     (case main_pc p of
        M_Shutdown \<Rightarrow> Some (p\<lparr>the_wal := (the_wal p)\<lparr>wal_running := False\<rparr>, main_pc := M_SJoin\<rparr>)
      | M_SJoin \<Rightarrow> if joined p then Some (p\<lparr>the_wal := (the_wal p)\<lparr>sync_thread := False\<rparr>, main_pc := M_SLock\<rparr>) else None
      | M_SLock \<Rightarrow> if lock p = None then Some (p\<lparr>lock := Some H_Main, main_pc := M_SClose\<rparr>) else None
      | M_SClose \<Rightarrow>
          (let (w, s) = WAL_Shutdown (the_wal p) (the_os p)
           in Some (p\<lparr>the_wal := w, the_os := s, lock := None, main_pc := M_Done\<rparr>))
      | M_Init path cfg \<Rightarrow> if lock p = None then Some (p\<lparr>lock := Some H_Main, main_pc := M_IStop path cfg\<rparr>) else None
      | M_IStop path cfg \<Rightarrow>
          Some (if is_open (the_wal p)
                then p\<lparr>the_wal := (the_wal p)\<lparr>wal_running := False\<rparr>, main_pc := M_IJoin path cfg\<rparr>
                else p\<lparr>main_pc := M_IOpen path cfg\<rparr>)
      | M_IJoin path cfg \<Rightarrow>
          if joined p then Some (p\<lparr>the_wal := (the_wal p)\<lparr>sync_thread := False\<rparr>, main_pc := M_IOpen path cfg\<rparr>) else None
      | M_IOpen path cfg \<Rightarrow>
          (let (w, s) = WAL_Init path cfg (the_wal p) (the_os p)
           in Some (p\<lparr>the_wal := w, the_os := s, lock := None, main_pc := M_Done,
                      sync_pc := (if sync_thread w then S_Test else sync_pc p)\<rparr>))
      | M_Done \<Rightarrow> None)"

inductive wal_step :: "wal_sys \<Rightarrow> wal_sys \<Rightarrow> bool" where
  sync: "SyncLoop_step p = Some q \<Longrightarrow> wal_step p q"
| caller: "caller_step p = Some q \<Longrightarrow> wal_step p q"

text \<open>A log that \<open>Init\<close> opened with the policy \<open>EVERYSEC\<close>, with its thread at the start of the loop, and a call
  that is about to begin.\<close>

definition running_log :: "WAL \<Rightarrow> os \<Rightarrow> main_pc \<Rightarrow> wal_sys" where
  "running_log w s m = \<lparr>the_wal = w, the_os = s, lock = None, sync_pc = S_Test, main_pc = m\<rparr>"

section \<open>Invariant\<close>

definition sync_holds :: "sync_pc \<Rightarrow> bool" where
  "sync_holds pc \<longleftrightarrow> pc = S_Read \<or> pc = S_Sync"

fun main_holds :: "main_pc \<Rightarrow> bool" where
  "main_holds M_SClose = True"
| "main_holds (M_IStop path cfg) = True"
| "main_holds (M_IJoin path cfg) = True"
| "main_holds (M_IOpen path cfg) = True"
| "main_holds _ = False"

definition lock_inv :: "wal_sys \<Rightarrow> bool" where
  "lock_inv p \<longleftrightarrow> (lock p = Some H_Sync \<longleftrightarrow> sync_holds (sync_pc p)) \<and> (lock p = Some H_Main \<longleftrightarrow> main_holds (main_pc p))"

lemma lock_inv_step:
  assumes "lock_inv p" and "wal_step p q"
  shows "lock_inv q"
  using assms(2)
proof cases
  case sync
  with assms(1) show ?thesis
    by (auto simp: SyncLoop_step_def lock_inv_def sync_holds_def split: sync_pc.splits if_splits)
next
  case caller
  with assms(1) show ?thesis
    by (auto simp: caller_step_def lock_inv_def sync_holds_def split: main_pc.splits if_splits prod.splits)
qed

interpretation wal_threads: state_machine wal_step lock_inv
  by unfold_locales (rule lock_inv_step)

text \<open>Synchronising the file twice is the same as once, so what the thread does before the file is closed
  does not matter.\<close>

lemma WAL_Sync_idem: "WAL_Sync w (WAL_Sync w s) = WAL_Sync w s"
  by (auto simp: WAL_Sync_def os_fsync_def split: option.splits)

lemma WAL_Sync_flags [simp]:
  "WAL_Sync (w\<lparr>wal_running := b\<rparr>) = WAL_Sync w" "WAL_Sync (w\<lparr>sync_thread := b\<rparr>) = WAL_Sync w"
  by (simp_all add: WAL_Sync_def fun_eq_iff)

lemma WAL_Shutdown_flags [simp]:
  "WAL_Shutdown (w\<lparr>wal_running := b\<rparr>) = WAL_Shutdown w" "WAL_Shutdown (w\<lparr>sync_thread := b\<rparr>) = WAL_Shutdown w"
  by (simp_all add: WAL_Shutdown_def fun_eq_iff)

lemma WAL_Shutdown_Sync: "is_open w \<Longrightarrow> WAL_Shutdown w (WAL_Sync w s) = WAL_Shutdown w s"
  by (simp add: WAL_Shutdown_def WAL_Sync_idem)

lemma WAL_Init_flags:
  "is_open w \<Longrightarrow> WAL_Init path cfg (w\<lparr>wal_running := b\<rparr>) s = WAL_Init path cfg w s"
  "is_open w \<Longrightarrow> WAL_Init path cfg (w\<lparr>sync_thread := b\<rparr>) s = WAL_Init path cfg w s"
  by (simp_all add: WAL_Init_def)

lemma WAL_Init_Sync: "is_open w \<Longrightarrow> WAL_Init path cfg w (WAL_Sync w s) = WAL_Init path cfg w s"
  by (simp add: WAL_Init_def WAL_Sync_idem)

section \<open>Shutdown\<close>

text \<open>\<open>closes_to w s p\<close>: closing the log in the state \<open>p\<close> has the effect of \<open>Shutdown\<close> on \<open>w\<close> and \<open>s\<close>.\<close>

definition closes_to :: "WAL \<Rightarrow> os \<Rightarrow> wal_sys \<Rightarrow> bool" where
  "closes_to w s p \<longleftrightarrow> is_open (the_wal p) \<and> WAL_Shutdown (the_wal p) (the_os p) = WAL_Shutdown w s"

text \<open>The states of a call of \<open>Shutdown\<close>.\<close>

definition shutdown_inv :: "WAL \<Rightarrow> os \<Rightarrow> wal_sys \<Rightarrow> bool" where
  "shutdown_inv w s p \<longleftrightarrow> lock_inv p
     \<and> (case main_pc p of
          M_Shutdown \<Rightarrow> sync_thread (the_wal p) \<and> closes_to w s p
        | M_SJoin \<Rightarrow> sync_thread (the_wal p) \<and> \<not> wal_running (the_wal p) \<and> closes_to w s p
        | M_SLock \<Rightarrow> sync_pc p = S_Done \<and> closes_to w s p
        | M_SClose \<Rightarrow> sync_pc p = S_Done \<and> closes_to w s p
        | M_Done \<Rightarrow> sync_pc p = S_Done \<and> (the_wal p, the_os p) = WAL_Shutdown w s
        | _ \<Rightarrow> False)"

lemma SyncLoop_step_main: "SyncLoop_step p = Some q \<Longrightarrow> main_pc q = main_pc p \<and> the_wal q = the_wal p"
  by (cases "sync_pc p") (auto simp: SyncLoop_step_def split: if_splits)

lemma SyncLoop_step_closes: "SyncLoop_step p = Some q \<Longrightarrow> closes_to w s p \<Longrightarrow> closes_to w s q"
  by (cases "sync_pc p") (auto simp: SyncLoop_step_def closes_to_def WAL_Shutdown_Sync split: if_splits)

lemma SyncLoop_step_done: "sync_pc p = S_Done \<Longrightarrow> SyncLoop_step p = None"
  by (simp add: SyncLoop_step_def)

lemma shutdown_inv_step:
  assumes "shutdown_inv w s p" and "wal_step p q"
  shows "shutdown_inv w s q"
proof -
  have l: "lock_inv q" using lock_inv_step [OF _ assms(2)] assms(1) by (simp add: shutdown_inv_def)
  from assms(2) show ?thesis
  proof cases
    case sync
    from l SyncLoop_step_main [OF this] SyncLoop_step_closes [OF this] SyncLoop_step_done [of p] sync assms(1) show ?thesis
      by (cases "main_pc p") (auto simp: shutdown_inv_def)
  next
    case caller
    with assms(1) l show ?thesis
      by (cases "main_pc p")
        (auto simp: caller_step_def shutdown_inv_def joined_def closes_to_def split: if_splits prod.splits)
  qed
qed

fun sync_weight :: "sync_pc \<Rightarrow> nat" where
  "sync_weight S_Lock1 = 6"
| "sync_weight S_Read = 5"
| "sync_weight S_Sleep = 4"
| "sync_weight S_Lock2 = 3"
| "sync_weight S_Sync = 2"
| "sync_weight S_Test = 1"
| "sync_weight S_Done = 0"

fun main_weight :: "main_pc \<Rightarrow> nat" where
  "main_weight M_SJoin = 3"
| "main_weight M_SLock = 2"
| "main_weight M_SClose = 1"
| "main_weight _ = 0"

definition shutdown_weight :: "wal_sys \<Rightarrow> nat" where
  "shutdown_weight p = sync_weight (sync_pc p) + main_weight (main_pc p)"

text \<open>Once \<open>running_\<close> is false, the call is bound to end.\<close>

definition stopping :: "WAL \<Rightarrow> os \<Rightarrow> wal_sys \<Rightarrow> bool" where
  "stopping w s p \<longleftrightarrow> shutdown_inv w s p \<and> main_pc p \<noteq> M_Shutdown"

lemma SyncLoop_step_weight: "SyncLoop_step p = Some q \<Longrightarrow> \<not> wal_running (the_wal p) \<Longrightarrow> sync_weight (sync_pc q) < sync_weight (sync_pc p)"
  by (cases "sync_pc p") (auto simp: SyncLoop_step_def split: if_splits)

lemma stopping_step:
  assumes "stopping w s p" and "wal_step p q"
  shows "stopping w s q" and "shutdown_weight q < shutdown_weight p"
proof -
  have i: "shutdown_inv w s q" using shutdown_inv_step [OF _ assms(2)] assms(1) by (simp add: stopping_def)
  have "main_pc q \<noteq> M_Shutdown \<and> shutdown_weight q < shutdown_weight p"
    using assms(2)
  proof cases
    case sync
    from SyncLoop_step_main [OF this] SyncLoop_step_weight [OF this] SyncLoop_step_done [of p] sync assms(1) show ?thesis
      by (cases "main_pc p") (auto simp: stopping_def shutdown_inv_def shutdown_weight_def)
  next
    case caller
    with assms(1) show ?thesis
      by (cases "main_pc p")
        (auto simp: caller_step_def stopping_def shutdown_inv_def shutdown_weight_def split: if_splits prod.splits)
  qed
  with i show "stopping w s q" "shutdown_weight q < shutdown_weight p" by (simp_all add: stopping_def)
qed

interpretation wal_shutdown: terminating_machine wal_step "stopping w s" shutdown_weight
  by unfold_locales (auto intro: stopping_step)

lemma stopping_final:
  assumes "stopping w s p" and "final wal_step p"
  shows "main_pc p = M_Done"
proof (rule ccontr)
  assume n: "main_pc p \<noteq> M_Done"
  have s: "SyncLoop_step p = None" and c: "caller_step p = None"
    using finalD [OF assms(2)] wal_step.intros by (metis option.exhaust)+
  have l: "lock p = None" if "main_pc p \<noteq> M_SClose" "\<not> sync_holds (sync_pc p)"
    using assms(1) that n
    by (cases "lock p"; cases "the (lock p)"; cases "main_pc p") (auto simp: stopping_def shutdown_inv_def lock_inv_def)
  show False
    using s c n l assms(1)
    by (cases "main_pc p"; cases "sync_pc p")
      (auto simp: SyncLoop_step_def caller_step_def stopping_def shutdown_inv_def joined_def sync_holds_def split: prod.splits)
qed

section \<open>Calling Init again\<close>

text \<open>Once \<open>Init\<close> waits for the thread while holding the mutex, a thread that will lock the mutex again
  is stuck.\<close>

definition will_lock :: "sync_pc \<Rightarrow> bool" where
  "will_lock pc \<longleftrightarrow> pc \<in> {S_Lock1, S_Sleep, S_Lock2}"

lemma stuck_step:
  assumes "lock_inv p" and "main_pc p = M_IJoin path cfg" and "sync_thread (the_wal p)" and "will_lock (sync_pc p)"
    and "wal_step p q"
  shows "lock_inv q \<and> main_pc q = M_IJoin path cfg \<and> sync_thread (the_wal q) \<and> will_lock (sync_pc q)"
proof -
  have "lock p = Some H_Main" using assms(1,2) by (simp add: lock_inv_def)
  with assms lock_inv_step [OF assms(1,5)] show ?thesis
    by (auto simp: will_lock_def SyncLoop_step_def caller_step_def joined_def elim!: wal_step.cases)
qed

definition opens_to :: "string \<Rightarrow> WALConfig \<Rightarrow> WAL \<Rightarrow> os \<Rightarrow> wal_sys \<Rightarrow> bool" where
  "opens_to path cfg w s p \<longleftrightarrow> is_open (the_wal p) \<and> WAL_Init path cfg (the_wal p) (the_os p) = WAL_Init path cfg w s"

definition reinit_inv :: "string \<Rightarrow> WALConfig \<Rightarrow> WAL \<Rightarrow> os \<Rightarrow> wal_sys \<Rightarrow> bool" where
  "reinit_inv path cfg w s p \<longleftrightarrow> lock_inv p
     \<and> (case main_pc p of
          M_Init path' cfg' \<Rightarrow> (path', cfg') = (path, cfg) \<and> sync_thread (the_wal p) \<and> opens_to path cfg w s p
        | M_IStop path' cfg' \<Rightarrow> (path', cfg') = (path, cfg) \<and> sync_thread (the_wal p) \<and> opens_to path cfg w s p
        | M_IJoin path' cfg' \<Rightarrow>
            (path', cfg') = (path, cfg) \<and> sync_thread (the_wal p) \<and> \<not> wal_running (the_wal p) \<and> opens_to path cfg w s p
        | M_IOpen path' cfg' \<Rightarrow> (path', cfg') = (path, cfg) \<and> sync_pc p = S_Done \<and> opens_to path cfg w s p
        | M_Done \<Rightarrow> True
        | _ \<Rightarrow> False)"

lemma SyncLoop_step_opens: "SyncLoop_step p = Some q \<Longrightarrow> opens_to path cfg w s p \<Longrightarrow> opens_to path cfg w s q"
  by (cases "sync_pc p") (auto simp: SyncLoop_step_def opens_to_def WAL_Init_Sync split: if_splits)

lemma reinit_inv_step:
  assumes "reinit_inv path cfg w s p" and "wal_step p q"
  shows "reinit_inv path cfg w s q"
proof -
  have l: "lock_inv q" using lock_inv_step [OF _ assms(2)] assms(1) by (simp add: reinit_inv_def)
  from assms(2) show ?thesis
  proof cases
    case sync
    from l SyncLoop_step_main [OF this] SyncLoop_step_opens [OF this] SyncLoop_step_done [of p] sync assms(1) show ?thesis
      by (cases "main_pc p") (auto simp: reinit_inv_def)
  next
    case caller
    with assms(1) l show ?thesis
      by (cases "main_pc p")
        (auto simp: caller_step_def reinit_inv_def joined_def opens_to_def WAL_Init_flags split: if_splits prod.splits)
  qed
qed

interpretation wal_reinit: state_machine wal_step "reinit_inv path cfg w s"
  by unfold_locales (rule reinit_inv_step)

text \<open>A thread that is about to see \<open>running_\<close> lets \<open>Init\<close> go on.\<close>

lemma reopen_run:
  assumes "main_pc p = M_IJoin path cfg" and "\<not> wal_running (the_wal p)" and "opens_to path cfg w s p"
    and "sync_pc p \<in> {S_Test, S_Done}"
  shows "\<exists>q. wal_step\<^sup>*\<^sup>* p q \<and> main_pc q = M_Done \<and> (the_wal q, the_os q) = WAL_Init path cfg w s"
proof -
  let ?p1 = "p\<lparr>sync_pc := S_Done\<rparr>"
  let ?p2 = "?p1\<lparr>the_wal := (the_wal p)\<lparr>sync_thread := False\<rparr>, main_pc := M_IOpen path cfg\<rparr>"
  have "wal_step\<^sup>*\<^sup>* p ?p1"
  proof (cases "sync_pc p = S_Done")
    case True
    then have "?p1 = p" by simp
    then show ?thesis by simp
  next
    case False
    with assms(2,4) have "wal_step p ?p1" by (intro wal_step.sync) (simp add: SyncLoop_step_def)
    then show ?thesis by blast
  qed
  moreover have "wal_step ?p1 ?p2" using assms(1) by (intro wal_step.caller) (simp add: caller_step_def joined_def)
  moreover obtain w' s' where r: "WAL_Init path cfg (the_wal ?p2) (the_os ?p2) = (w', s')" by fastforce
  then have "wal_step ?p2 (?p2\<lparr>the_wal := w', the_os := s', lock := None, main_pc := M_Done,
      sync_pc := (if sync_thread w' then S_Test else sync_pc ?p2)\<rparr>)" (is "wal_step _ ?p3")
    by (intro wal_step.caller) (simp add: caller_step_def)
  ultimately have "wal_step\<^sup>*\<^sup>* p ?p3" by (meson rtranclp.rtrancl_into_rtrancl)
  moreover have "(w', s') = WAL_Init path cfg w s" using r assms(3) by (simp add: opens_to_def WAL_Init_flags)
  ultimately show ?thesis by (intro exI [of _ ?p3]) simp
qed

section \<open>Properties\<close>

text \<open>C36: \<open>Shutdown\<close> returns. Whatever the background thread is doing when \<open>Shutdown\<close> has told it to stop, the
  two threads can only take a bounded number of steps, and wherever they come to rest \<open>Shutdown\<close> has
  returned and the log and the files are as the call would leave them without the thread: synchronised
  and closed.\<close>

theorem Shutdown_returns:
  assumes "is_open w" and "sync_thread w" and "wal_step\<^sup>*\<^sup>* (running_log w s M_Shutdown) p" and "main_pc p \<noteq> M_Shutdown"
  shows "(\<forall>k q. (wal_step ^^ k) p q \<longrightarrow> k \<le> shutdown_weight p) \<and> (\<exists>q. wal_step\<^sup>*\<^sup>* p q \<and> final wal_step q)
     \<and> (\<forall>q. wal_step\<^sup>*\<^sup>* p q \<and> final wal_step q \<longrightarrow> main_pc q = M_Done \<and> (the_wal q, the_os q) = WAL_Shutdown w s)"
proof -
  have "shutdown_inv w s (running_log w s M_Shutdown)"
    using assms(1,2) by (simp add: shutdown_inv_def running_log_def lock_inv_def sync_holds_def closes_to_def)
  with assms(3) have "shutdown_inv w s p"
    by (induction rule: rtranclp_induct) (auto intro: shutdown_inv_step)
  with assms(4) have i: "stopping w s p" by (simp add: stopping_def)
  have "k \<le> shutdown_weight p" if "(wal_step ^^ k) p q" for k q
    using wal_shutdown.run_bounded [OF that i] by simp
  moreover have "main_pc q = M_Done \<and> (the_wal q, the_os q) = WAL_Shutdown w s" if "wal_step\<^sup>*\<^sup>* p q" "final wal_step q" for q
  proof -
    have "stopping w s q" using wal_shutdown.steps_inv [OF that(1) i] .
    with stopping_final [OF this that(2)] show ?thesis by (simp add: stopping_def shutdown_inv_def)
  qed
  ultimately show ?thesis using wal_shutdown.reaches_final [OF i] by blast
qed

abbreviation ex_log :: WAL where
  "ex_log \<equiv> WAL_ctor\<lparr>is_open := True, enabled := True, wal_fd := 3, sync_thread := True, wal_running := True\<rparr>"

abbreviation ex_state :: "sync_pc \<Rightarrow> bool \<Rightarrow> holder option \<Rightarrow> main_pc \<Rightarrow> wal_sys" where
  "ex_state pc b l m \<equiv> \<lparr>the_wal = ex_log\<lparr>wal_running := b\<rparr>, the_os = os_start, lock = l, sync_pc = pc, main_pc = m\<rparr>"

theorem Shutdown_returns_witness:
  "\<exists>p q. wal_step\<^sup>*\<^sup>* (running_log ex_log os_start M_Shutdown) p \<and> wal_step\<^sup>*\<^sup>* p q \<and> main_pc q = M_Done
     \<and> wal_fd (the_wal q) = -1 \<and> \<not> is_open (the_wal q)"
proof -
  let ?first = "running_log ex_log os_start M_Shutdown" and ?p = "ex_state S_Test False None M_SJoin"
  have "wal_step (ex_state S_Test True None M_Shutdown) ?p" by (rule wal_step.caller) (simp add: caller_step_def)
  then have "wal_step ?first ?p" by (simp add: running_log_def)
  then have s: "wal_step\<^sup>*\<^sup>* ?first ?p" by blast
  have "main_pc ?p \<noteq> M_Shutdown" by simp
  moreover have "is_open ex_log" "sync_thread ex_log" by simp_all
  ultimately obtain q where
    q: "wal_step\<^sup>*\<^sup>* ?p q" "main_pc q = M_Done" "(the_wal q, the_os q) = WAL_Shutdown ex_log os_start"
    using Shutdown_returns [OF _ _ s] by blast
  from q(3) have "wal_fd (the_wal q) = -1 \<and> \<not> is_open (the_wal q)"
    by (auto simp: WAL_Shutdown_def WAL_CloseFD_def)
  with s q show ?thesis by blast
qed

text \<open>C40: calling \<open>Init\<close> on a log that is open with its thread running. \<open>Init\<close> waits for the thread with the
  mutex locked; it returns, with the effect it has without the thread, exactly when the thread was at
  the test of its loop or had returned. A thread that sleeps or is about to lock the mutex waits for
  \<open>Init\<close>, and \<open>Init\<close> waits for it.\<close>

theorem Init_again_returns_iff:
  assumes "is_open w" and "sync_thread w" and "wal_step\<^sup>*\<^sup>* (running_log w s (M_Init path cfg)) p"
    and "main_pc p = M_IJoin path cfg"
  shows "((\<exists>q. wal_step\<^sup>*\<^sup>* p q \<and> main_pc q = M_Done) \<longleftrightarrow> sync_pc p \<in> {S_Test, S_Done})
     \<and> (sync_pc p \<in> {S_Test, S_Done} \<longrightarrow>
          (\<exists>q. wal_step\<^sup>*\<^sup>* p q \<and> main_pc q = M_Done \<and> (the_wal q, the_os q) = WAL_Init path cfg w s))"
proof -
  have "reinit_inv path cfg w s (running_log w s (M_Init path cfg))"
    using assms(1,2) by (simp add: reinit_inv_def running_log_def lock_inv_def sync_holds_def opens_to_def)
  with assms(3) have i: "reinit_inv path cfg w s p" by (rule wal_reinit.steps_inv)
  then have l: "lock_inv p" "sync_thread (the_wal p)" "\<not> wal_running (the_wal p)" "opens_to path cfg w s p"
    using assms(4) by (simp_all add: reinit_inv_def)
  have "\<not> sync_holds (sync_pc p)" using l(1) assms(4) by (auto simp: lock_inv_def)
  then have pcs: "sync_pc p \<in> {S_Test, S_Done} \<or> will_lock (sync_pc p)"
    by (cases "sync_pc p") (auto simp: sync_holds_def will_lock_def)
  have stuck: "main_pc q \<noteq> M_Done" if "will_lock (sync_pc p)" "wal_step\<^sup>*\<^sup>* p q" for q
  proof -
    have "lock_inv q \<and> main_pc q = M_IJoin path cfg \<and> sync_thread (the_wal q) \<and> will_lock (sync_pc q)"
      using that(2) l assms(4) that(1) by (induction rule: rtranclp_induct) (use stuck_step in blast)+
    then show ?thesis by simp
  qed
  have good: "\<exists>q. wal_step\<^sup>*\<^sup>* p q \<and> main_pc q = M_Done \<and> (the_wal q, the_os q) = WAL_Init path cfg w s"
    if "sync_pc p \<in> {S_Test, S_Done}"
    using reopen_run [OF assms(4) l(3,4) that] .
  from pcs show ?thesis
  proof
    assume "sync_pc p \<in> {S_Test, S_Done}"
    with good show ?thesis by blast
  next
    assume "will_lock (sync_pc p)"
    moreover from this have "sync_pc p \<notin> {S_Test, S_Done}" by (auto simp: will_lock_def)
    ultimately show ?thesis using stuck by blast
  qed
qed

theorem Init_again_returns_iff_witness:
  "wal_step\<^sup>*\<^sup>* (running_log ex_log os_start (M_Init [] WALConfig_default)) (ex_state S_Lock1 False (Some H_Main) (M_IJoin [] WALConfig_default))
   \<and> \<not> (\<exists>q. wal_step\<^sup>*\<^sup>* (ex_state S_Lock1 False (Some H_Main) (M_IJoin [] WALConfig_default)) q \<and> main_pc q = M_Done)"
proof -
  let ?m = "\<lambda>f. f [] WALConfig_default" and ?p = "ex_state S_Lock1 False (Some H_Main) (M_IJoin [] WALConfig_default)"
  have "wal_step (ex_state S_Test True None (?m M_Init)) (ex_state S_Lock1 True None (?m M_Init))"
    by (rule wal_step.sync) (simp add: SyncLoop_step_def)
  moreover have "wal_step (ex_state S_Lock1 True None (?m M_Init)) (ex_state S_Lock1 True (Some H_Main) (?m M_IStop))"
    "wal_step (ex_state S_Lock1 True (Some H_Main) (?m M_IStop)) ?p"
    by (rule wal_step.caller; simp add: caller_step_def)+
  ultimately have "wal_step\<^sup>*\<^sup>* (ex_state S_Test True None (?m M_Init)) ?p"
    by (meson converse_rtranclp_into_rtranclp rtranclp.rtrancl_refl)
  then have s: "wal_step\<^sup>*\<^sup>* (running_log ex_log os_start (?m M_Init)) ?p" by (simp add: running_log_def)
  moreover have "is_open ex_log" "sync_thread ex_log" "main_pc ?p = M_IJoin [] WALConfig_default" by simp_all
  note Init_again_returns_iff [OF this(1,2) s this(3)]
  ultimately show ?thesis by simp
qed

end
