(* ===== verification/ConcurrentStore.thy ===== *)
theory ConcurrentStore
  imports PersistentKvStore Transition
begin

text \<open>
  Operations of \<open>PersistentKvStore\<close> that overlap: the message handlers of connections in different shards run
  on different threads of the pool and share one store. An operation is cut at the points where it holds no lock; the append to
  the log runs under the mutex of the log, the change of the memory under the mutex of the store, the
  sliding window has its own, and \<open>CreateSnapshot\<close> holds both of the first two. A schedule is the list of
  the threads in the order in which they take a step.
\<close>

section \<open>Operations as threads\<close>

datatype op_pc =
    P_Log         \<comment> \<open>about to append to the log\<close>
  | P_Mem         \<comment> \<open>about to change the memory\<close>
  | P_Count       \<comment> \<open>at \<open>++op_count_\<close>\<close>
  | P_Window      \<comment> \<open>at \<open>burst_window_.AddOp()\<close>\<close>
  | P_Check       \<comment> \<open>\<open>CheckSnapshotTrigger\<close>: about to read \<open>op_count_\<close>\<close>
  | P_Burst bool  \<comment> \<open>about to call \<open>IsExceeded\<close>; the value of \<open>should_snapshot\<close>\<close>
  | P_Snap        \<comment> \<open>about to run \<open>CreateSnapshot\<close>\<close>
  | P_Done
  | P_Failed cxx_error

record op_thread =
  th_op :: store_op
  th_pc :: op_pc
  th_result :: bool   \<comment> \<open>what \<open>Delete\<close> returns\<close>

definition op_start :: "store_op \<Rightarrow> op_thread" where
  "op_start op = \<lparr>th_op = op, th_pc = (if op = OpSnapshot then P_Snap else P_Log), th_result = False\<rparr>"

record shared_store =
  sh_store :: PersistentKvStore
  sh_os :: os
  threads :: "op_thread list"

text \<open>The two locked sections of \<open>Set\<close> and \<open>Delete\<close>.\<close>

definition log_section :: "store_op \<Rightarrow> WAL \<Rightarrow> os \<Rightarrow> unit result \<times> WAL \<times> os" where
  "log_section op w s =
     (case op of OpSet k v \<Rightarrow> WAL_AppendSet k v w s | OpDel k \<Rightarrow> WAL_AppendDel k w s | OpSnapshot \<Rightarrow> (Inr (), w, s))"

definition mem_section :: "store_op \<Rightarrow> flat_hash_map \<Rightarrow> bool \<times> flat_hash_map" where
  "mem_section op m =
     (case op of
        OpSet k v \<Rightarrow> (False, insert_or_assign k v m)
      | OpDel k \<Rightarrow> (let (n, m1) = erase k m in (0 < n, m1))
      | OpSnapshot \<Rightarrow> (False, m))"

text \<open>One step of a thread; a thread that has ended does nothing.\<close>

definition op_step :: "iteration \<Rightarrow> op_thread \<Rightarrow> PersistentKvStore \<Rightarrow> os \<Rightarrow> op_thread \<times> PersistentKvStore \<times> os" where
  "op_step order t st s =
     (case th_pc t of
        P_Log \<Rightarrow>
          (case log_section (th_op t) (pk_wal st) s of
             (Inl e, w, s1) \<Rightarrow> (t\<lparr>th_pc := P_Failed e\<rparr>, st\<lparr>pk_wal := w\<rparr>, s1)
           | (Inr _, w, s1) \<Rightarrow> (t\<lparr>th_pc := P_Mem\<rparr>, st\<lparr>pk_wal := w\<rparr>, s1))
      | P_Mem \<Rightarrow>
          (let (b, m) = mem_section (th_op t) (kv_data st)
           in (t\<lparr>th_pc := P_Count, th_result := b\<rparr>, st\<lparr>kv_data := m\<rparr>, s))
      | P_Count \<Rightarrow> (t\<lparr>th_pc := P_Window\<rparr>, st\<lparr>op_count := (op_count st + 1) mod 2 ^ 64\<rparr>, s)
      | P_Window \<Rightarrow> (let (win, s1) = AddOp (burst_window st) s in (t\<lparr>th_pc := P_Check\<rparr>, st\<lparr>burst_window := win\<rparr>, s1))
      | P_Check \<Rightarrow> (t\<lparr>th_pc := P_Burst (kSnapshotInterval \<le> op_count st)\<rparr>, st, s)
      | P_Burst should_snapshot \<Rightarrow>
          (let (exceeded, s1) = IsExceeded (burst_window st) s
           in (t\<lparr>th_pc := (if should_snapshot \<or> exceeded then P_Snap else P_Done)\<rparr>, st, s1))
      | P_Snap \<Rightarrow>
          (case CreateSnapshot order st s of
             (Inl e, st1, s1) \<Rightarrow> (t\<lparr>th_pc := P_Failed e\<rparr>, st1, s1)
           | (Inr _, st1, s1) \<Rightarrow> (t\<lparr>th_pc := P_Done\<rparr>, st1, s1))
      | P_Done \<Rightarrow> (t, st, s)
      | P_Failed e \<Rightarrow> (t, st, s))"

definition sched_step :: "iteration \<Rightarrow> shared_store \<Rightarrow> nat \<Rightarrow> shared_store" where
  "sched_step order c i =
     (if i < length (threads c) then
        let (t, st, s) = op_step order (threads c ! i) (sh_store c) (sh_os c)
        in \<lparr>sh_store = st, sh_os = s, threads = (threads c)[i := t]\<rparr>
      else c)"

definition run_schedule :: "iteration \<Rightarrow> nat list \<Rightarrow> shared_store \<Rightarrow> shared_store" where
  "run_schedule order is c = foldl (sched_step order) c is"

lemma run_schedule_simps [simp]:
  "run_schedule order [] c = c"
  "run_schedule order (i # is) c = run_schedule order is (sched_step order c i)"
  by (simp_all add: run_schedule_def)

lemma run_schedule_append: "run_schedule order (is @ js) c = run_schedule order js (run_schedule order is c)"
  by (simp add: run_schedule_def)

definition all_done :: "shared_store \<Rightarrow> bool" where
  "all_done c \<longleftrightarrow> (\<forall>t \<in> set (threads c). th_pc t = P_Done)"

section \<open>Keys of concurrent operations\<close>

fun op_key :: "store_op \<Rightarrow> string" where
  "op_key (OpSet k v) = k"
| "op_key (OpDel k) = k"
| "op_key OpSnapshot = []"


definition writes :: "store_op \<Rightarrow> bool" where
  "writes op \<longleftrightarrow> op \<noteq> OpSnapshot"


text \<open>The log record of an operation.\<close>

definition op_record :: "store_op \<Rightarrow> WALRecord" where
  "op_record op = \<lparr>rec_op = (case op of OpSet k v \<Rightarrow> OpType_SET | _ \<Rightarrow> OpType_DEL), rec_key = op_key op,
     rec_value = (case op of OpSet k v \<Rightarrow> v | _ \<Rightarrow> [])\<rparr>"

lemma log_section_append: "writes op \<Longrightarrow> log_section op w s = WAL_Append (op_record op) w s"
  by (cases op) (simp_all add: log_section_def writes_def op_record_def WAL_AppendSet_def WAL_AppendDel_def)

lemma record_op_record: "writes op \<Longrightarrow> record_op (op_record op) = op"
  by (cases op) (auto simp: record_op_def op_record_def writes_def OpType_SET_def OpType_DEL_def)

lemma wf_op_record: "writes op \<Longrightarrow> small_op op \<Longrightarrow> wf_record (op_record op)"
  by (cases op) (auto simp: wf_record_def op_record_def writes_def small_op_def)

lemma mem_section_snd [simp]:
  "snd (mem_section (OpSet k v) m) = insert_or_assign k v m"
  "snd (mem_section (OpDel k) m) = snd (erase k m)"
  "snd (mem_section OpSnapshot m) = m"
  by (simp_all add: mem_section_def case_prod_beta Let_def)

lemma mem_section_spec:
  assumes "distinct_keys m" and "small_data m" and "small_op op"
  shows "distinct_keys (snd (mem_section op m)) \<and> small_data (snd (mem_section op m))
    \<and> find_entry (snd (mem_section op m)) = apply_op (find_entry m) op"
proof (cases op)
  case (OpSet k v)
  with assms small_data_update [of m k v] show ?thesis
    by (simp add: small_op_def hash_map.inv_ins hash_map.abs_ins)
next
  case (OpDel k)
  with assms small_data_erase [of m k] show ?thesis by (simp add: hash_map.inv_del hash_map.abs_del)
qed (use assms in simp)

section \<open>Operations on different keys\<close>
























text \<open>Appending to the log, when the disk is that of a store with the memory \<open>mv\<close>.\<close>

lemma log_section_consistent:
  assumes "consistent (st\<lparr>kv_data := mv\<rparr>) s es rs" and "faults s = []" and "writes op" and "small_op op"
  shows "\<exists>w s1. log_section op (pk_wal st) s = (Inr (), w, s1) \<and> faults s1 = []
     \<and> consistent (st\<lparr>pk_wal := w, kv_data := snd (mem_section op mv)\<rparr>) s1 es (rs @ [op_record op])"
proof -
  obtain r w s1 where a: "WAL_Append (op_record op) (pk_wal (st\<lparr>kv_data := mv\<rparr>)) s = (r, w, s1)"
    by (cases "WAL_Append (op_record op) (pk_wal (st\<lparr>kv_data := mv\<rparr>)) s") auto
  have mv: "distinct_keys (snd (mem_section op mv))" "small_data (snd (mem_section op mv))"
    "find_entry (snd (mem_section op mv)) = apply_op (find_entry (kv_data (st\<lparr>kv_data := mv\<rparr>))) (record_op (op_record op))"
    using mem_section_spec [OF _ _ assms(4), of mv] consistentD(1,2) [OF assms(1)]
    by (simp_all add: record_op_record [OF assms(3)])
  note app = consistent_append [OF assms(1,2) wf_op_record [OF assms(3,4)] a mv]
  from a app show ?thesis by (simp add: log_section_append [OF assms(3)])
qed



text \<open>The steps after the memory: counters, clock, and no snapshot.\<close>

lemma IsExceeded_small:
  assumes "length (timestamps win) \<le> 100" and "max_ops win = kBurstMaxOps" and "IsExceeded win s = (b, s1)"
  shows "\<not> b" and "\<exists>k tk. s1 = s\<lparr>clock := k, ticks := tk\<rparr>"
proof -
  obtain t s2 where t: "steady_now s = (t, s2)" by fastforce
  have "size_to_int (count_recent x (rev (timestamps win))) \<le> 100" for x
    using count_recent_le [of x "rev (timestamps win)"] assms(1) by (subst size_to_int) simp_all
  from this [of "int t - window_size win * 1000000"] assms(2,3) t show "\<not> b"
    by (auto simp: IsExceeded_def kBurstMaxOps_def Let_def)
  from assms(3) t steady_now_frame [OF t] show "\<exists>k tk. s1 = s\<lparr>clock := k, ticks := tk\<rparr>"
    by (auto simp: IsExceeded_def Let_def)
qed













text \<open>The start: a consistent store and a list of operations that are about to begin.\<close>

definition begin_ops :: "store_op list \<Rightarrow> PersistentKvStore \<Rightarrow> os \<Rightarrow> shared_store" where
  "begin_ops ops st s = \<lparr>sh_store = st, sh_os = s, threads = map op_start ops\<rparr>"


text \<open>The end of an operation that does not trigger a snapshot changes counters and clock only.\<close>

lemma finish_op:
  assumes "i < length (threads c)" and "th_pc (threads c ! i) = P_Count"
    and "Suc (op_count (sh_store c)) < kSnapshotInterval" and "length (timestamps (burst_window (sh_store c))) < 100"
    and "max_ops (burst_window (sh_store c)) = kBurstMaxOps"
  shows "\<exists>win k tk. length (timestamps win) = Suc (length (timestamps (burst_window (sh_store c)))) \<and> max_ops win = kBurstMaxOps
     \<and> run_schedule order [i, i, i, i] c
       = \<lparr>sh_store = (sh_store c)\<lparr>op_count := Suc (op_count (sh_store c)), burst_window := win\<rparr>,
          sh_os = (sh_os c)\<lparr>clock := k, ticks := tk\<rparr>, threads = (threads c)[i := (threads c ! i)\<lparr>th_pc := P_Done\<rparr>]\<rparr>"
proof -
  let ?st = "sh_store c" and ?t = "threads c ! i"
  obtain tm s1 where tm: "steady_now (sh_os c) = (tm, s1)" by fastforce
  obtain k1 tk1 where s1: "s1 = (sh_os c)\<lparr>clock := k1, ticks := tk1\<rparr>" using steady_now_frame [OF tm] by blast
  let ?win = "(burst_window ?st)\<lparr>timestamps := timestamps (burst_window ?st) @ [tm]\<rparr>"
  obtain b s2 where ex: "IsExceeded ?win s1 = (b, s2)" by fastforce
  note e = IsExceeded_small [OF _ _ ex]
  then have b: "\<not> b" using assms(4,5) by simp
  obtain k2 tk2 where s2: "s2 = s1\<lparr>clock := k2, ticks := tk2\<rparr>" using e(2) assms(4,5) by auto
  have "run_schedule order [i, i, i, i] c
       = \<lparr>sh_store = ?st\<lparr>op_count := Suc (op_count ?st), burst_window := ?win\<rparr>, sh_os = s2,
          threads = (threads c)[i := ?t\<lparr>th_pc := P_Done\<rparr>]\<rparr>"
    using assms(1-3) tm ex b
    by (simp add: sched_step_def op_step_def AddOp_def kSnapshotInterval_def Let_def)
  then show ?thesis using assms(5) s1 s2 by (intro exI [of _ ?win] exI [of _ k2] exI [of _ tk2]) simp
qed

text \<open>A store whose disk is that of a store with the memory \<open>mv\<close> is opened again with the contents \<open>mv\<close>.\<close>

lemma reopen_virtual:
  assumes "consistent (st\<lparr>kv_data := mv\<rparr>) s es rs" and "faults s = []" and "data_dir st = dir"
    and "PersistentKvStore_ctor dir WAL_ctor (os_exit s) = (res, st2, s2)"
  shows "res = Inr ()" and "find_entry (kv_data st2) = find_entry mv"
  using ctor_reopens [OF assms(1,2), of res st2 s2] assms(3,4) by simp_all



section \<open>Properties\<close>







text \<open>C39: a snapshot in another thread can lose a write that was acknowledged: when \<open>CreateSnapshot\<close> runs between the
  append of a \<open>Set\<close> to the log and its change of the memory, the snapshot does not have the entry yet and the
  log is cleared. Both calls complete, the memory has the new value, and after a crash the store is
  opened with the old contents.\<close>

theorem snapshot_race_loses_write:
  assumes "visits_once order" and "good_ops ops0" and "fresh_run order dir ops0 st s"
    and "contents ops0 \<noteq> (\<lambda>_. None)" and "small_op (OpSet k v)"
    and "run_schedule order [0, 1, 0, 0, 0, 0, 0] (begin_ops [OpSet k v, OpSnapshot] st s) = c"
    and "PersistentKvStore_ctor dir WAL_ctor (os_exit (sh_os c)) = (r2, st2, s2)"
  shows "all_done c \<and> KvStore_Get k (sh_store c) = Some v \<and> r2 = Inr () \<and> (\<forall>k'. KvStore_Get k' st2 = contents ops0 k')"
proof -
  let ?op = "OpSet k v"
  note f = fresh_run_ok [OF assms(1-3)]
  from f(1) obtain es rs where ok: "consistent st s es rs" "tracked st rs" "faults s = []" "length (kv_data st) < 2 ^ 32"
    by (auto simp: ok_store_def)
  then have c0: "consistent (st\<lparr>kv_data := kv_data st\<rparr>) s es rs" by simp
  have ne: "kv_data st \<noteq> []" using assms(4) f(3) by auto
  from log_section_consistent [OF c0 ok(3) _ assms(5)] obtain w s1 where l: "log_section ?op (pk_wal st) s = (Inr (), w, s1)"
    "faults s1 = []" "consistent (st\<lparr>pk_wal := w, kv_data := snd (mem_section ?op (kv_data st))\<rparr>) s1 es (rs @ [op_record ?op])"
    by (auto simp: writes_def)
  obtain r st3 s3 where cs: "CreateSnapshot order (st\<lparr>pk_wal := w\<rparr>) s1 = (r, st3, s3)"
    by (cases "CreateSnapshot order (st\<lparr>pk_wal := w\<rparr>) s1") auto
  have "r = Inr ()" "\<exists>es'. consistent st3 s3 es' []" "faults s3 = []" "kv_data st3 = kv_data st" "data_dir st3 = data_dir st"
    "op_count st3 = 0" "burst_window st3 = Window_Clear (burst_window st)"
    using CreateSnapshot_catches_up [OF assms(1) _ l(2) _ _ _ _ cs] l(3) ok(4) ne consistentD(1,2) [OF ok(1)] by simp_all
  then obtain es' where s3: "r = Inr ()" "consistent st3 s3 es' []" "faults s3 = []" "kv_data st3 = kv_data st"
    "data_dir st3 = dir" "op_count st3 = 0" "burst_window st3 = Window_Clear (burst_window st)" using f(2) by auto
  let ?t = "op_start ?op\<lparr>th_pc := P_Count\<rparr>" and ?d = "op_start OpSnapshot\<lparr>th_pc := P_Done\<rparr>"
  let ?c = "\<lparr>sh_store = st3\<lparr>kv_data := insert_or_assign k v (kv_data st)\<rparr>, sh_os = s3, threads = [?t, ?d]\<rparr>"
  have "run_schedule order [0, 1, 0] (begin_ops [?op, OpSnapshot] st s) = ?c"
    using l(1) cs s3(1,4) by (simp add: begin_ops_def op_start_def sched_step_def op_step_def mem_section_def)
  then have "c = run_schedule order [0, 0, 0, 0] ?c" using assms(6) by simp
  moreover have "max_ops (burst_window st) = kBurstMaxOps" using ok(2) by (simp add: tracked_def)
  ultimately obtain win ck tk where c: "c = \<lparr>sh_store = st3\<lparr>kv_data := insert_or_assign k v (kv_data st), op_count := 1, burst_window := win\<rparr>,
      sh_os = s3\<lparr>clock := ck, ticks := tk\<rparr>, threads = [?t\<lparr>th_pc := P_Done\<rparr>, ?d]\<rparr>"
    using finish_op [of 0 ?c order] s3(6,7) by (auto simp: kSnapshotInterval_def Window_Clear_def op_start_def)
  have "consistent ((sh_store c)\<lparr>kv_data := kv_data st\<rparr>) s3 es' []" using s3(2) unfolding c by (simp add: consistent_def s3(4))
  then have v: "consistent ((sh_store c)\<lparr>kv_data := kv_data st\<rparr>) (sh_os c) es' []" "faults (sh_os c) = []" "data_dir (sh_store c) = dir"
    using s3(3,5) by (simp_all add: c)
  from reopen_virtual [OF v assms(7)] f(3) show ?thesis
    by (simp add: c all_done_def KvStore_Get_def hash_map.abs_ins [OF consistentD(1) [OF ok(1)]])
qed

theorem snapshot_race_loses_write_witness:
  "\<exists>st s. fresh_run rev ''data'' [OpSet ''a'' ''1''] st s
     \<and> (let c = run_schedule rev [0, 1, 0, 0, 0, 0, 0] (begin_ops [OpSet ''a'' ''2'', OpSnapshot] st s)
        in KvStore_Get ''a'' (sh_store c) = Some ''2''
         \<and> (case PersistentKvStore_ctor ''data'' WAL_ctor (os_exit (sh_os c)) of (r2, st2, s2) \<Rightarrow> KvStore_Get ''a'' st2 = Some ''1''))"
proof -
  let ?ops = "[OpSet ''a'' ''1'']"
  have g: "good_ops ?ops" by (simp add: good_ops_def small_op_def fun_eq_iff)
  obtain st s where f: "fresh_run rev ''data'' ?ops st s" using fresh_run_exists [OF visits_once_rev g] by blast
  define c where "c = run_schedule rev [0, 1, 0, 0, 0, 0, 0] (begin_ops [OpSet ''a'' ''2'', OpSnapshot] st s)"
  obtain r2 st2 s2 where o: "PersistentKvStore_ctor ''data'' WAL_ctor (os_exit (sh_os c)) = (r2, st2, s2)"
    by (cases "PersistentKvStore_ctor ''data'' WAL_ctor (os_exit (sh_os c))") auto
  have "contents ?ops \<noteq> (\<lambda>_. None)" "small_op (OpSet ''a'' ''2'')" by (simp_all add: fun_eq_iff small_op_def)
  from snapshot_race_loses_write [OF visits_once_rev g f this c_def [symmetric] o]
  have "KvStore_Get ''a'' (sh_store c) = Some ''2''" "KvStore_Get ''a'' st2 = Some ''1''" by simp_all
  with f show ?thesis
    by (intro exI [of _ st] exI [of _ s]) (unfold c_def [symmetric] Let_def o prod.case, simp)
qed

end
