(* ===== verification/Spec2Isabelle.thy ===== *)
theory Spec2Isabelle
  imports ServerMain EndToEnd IocpServer WalThread ConcurrentStore
begin

text \<open>
  This development models \<open>kv-cache\<close>, a key-value server with a write-ahead log and snapshots, and its
  command line client. The sources are under \<open>src/\<close>: \<open>src/src\<close> and \<open>src/include\<close>.

  \<^bold>\<open>The program.\<close> A client (\<open>src/client\<close>) turns a line of text into a command and sends it in the RESP
  format (\<open>src/common/protocol.cpp\<close>). The server (\<open>src/server/kv_server.cpp\<close>) collects the bytes of each
  connection in a reader, executes the complete commands and sends the replies. The store
  (\<open>src/storage\<close>) is a hash map; \<open>PersistentKvStore\<close> writes each change to the log
  (\<open>src/common/wal.cpp\<close>) before it changes the map, and from time to time writes a snapshot
  (\<open>src/common/snapshot.cpp\<close>) and clears the log. Opening the store loads the snapshot and replays the log.
  Log records and snapshots carry CRC-32 checksums (\<open>src/common/crc32.cpp\<close>). The bytes of the connections are read
  by the event loop of the TCP server (\<open>src/server/tcp_server.cpp\<close>), one thread on \<open>epoll\<close>; it submits every
  piece that it reads to a thread pool (\<open>include/common/thread_pool.h\<close>), whose workers run the message handler and
  send the reply. \<open>src/server/server_main.cpp\<close> reads the configuration, starts the server and waits for a signal.

  \<^bold>\<open>The theories.\<close>

  \<^item> \<open>Prelude\<close>: results with exceptions and undefined behaviour as values (\<open>cxx_error + 'a\<close>), the string
    functions of the standard library that the sources use, decimal numbers, little-endian words,
    \<open>size_t\<close> arithmetic modulo \<open>2 ^ 64\<close>.
  \<^item> \<open>Crc32\<close>: \<open>crc32.cpp\<close> on 32-bit words; the table-driven checksum is the bitwise polynomial division,
    and it detects every change of up to four adjacent bytes.
  \<^item> \<open>Protocol\<close>: \<open>protocol.cpp\<close>, the serialisation of commands and responses and the buffered reader
    \<open>TryParse\<close>; round trip, incomplete input, and the inputs on which it goes wrong.
  \<^item> \<open>Posix\<close>: the file system calls of the wrappers in \<open>wal.cpp\<close> and \<open>snapshot.cpp\<close>. The record \<open>os\<close> holds
    the files, the open descriptors, the clock readings to come, and a list of outcomes for the calls
    to come: a call may fail or transfer fewer bytes. With an empty list every call succeeds.
  \<^item> \<open>Codec\<close>: the interface of a self-delimiting record format and of a log of such records, as the
    locales \<open>record_codec\<close> and \<open>framed_log\<close>; what holds of every log whose last record is torn or damaged.
    \<open>Wal\<close> and \<open>Snapshot\<close> interpret them with their formats.
  \<^item> \<open>Transition\<close>: state machines, as the locales \<open>state_machine\<close> (an invariant that every step keeps) and
    \<open>terminating_machine\<close> (a weight that every step lowers); the machines below interpret them.
  \<^item> \<open>Wal\<close>: \<open>wal.cpp\<close>, record format and every operation. \<open>WalThread\<close>: the background thread \<open>SyncLoop\<close>, interleaved
    with a thread that calls \<open>Shutdown\<close> or \<open>Init\<close>.
  \<^item> \<open>Snapshot\<close>: \<open>snapshot.cpp\<close>, formats and operations; the system calls of \<open>WriteSnapshot\<close> also as a step
    relation \<open>ws_step\<close>, for crashes in the middle.
  \<^item> \<open>KvStore\<close>: \<open>kv_store.cpp\<close>; the hash map is a finite map (locale \<open>kv_container\<close>, interpreted with the
    list operations of the model), and the order in which it is iterated is a parameter \<open>order\<close> of
    which only \<open>visits_once\<close> is assumed: every entry is visited exactly once.
  \<^item> \<open>PersistentKvStore\<close>: \<open>persistent_kv_store.cpp\<close>, the store with its log, snapshots and sliding window.
    The invariants \<open>consistent\<close> (disk and memory agree), \<open>tracked\<close> (the counters agree with the log) and
    \<open>live\<close> (operations do not throw) carry the proofs; \<open>apply_op\<close> is the specification.
  \<^item> \<open>ConcurrentStore\<close>: \<open>Set\<close> and \<open>Delete\<close> of \<open>persistent_kv_store.cpp\<close> as sequences of steps, one for each section under a
    lock, for threads that run at the same time.
  \<^item> \<open>ThreadPool\<close>: \<open>thread_pool.h\<close>, with the workers as program counters and the condition variable step by step.
  \<^item> \<open>TcpServer\<close>: the Linux branches of \<open>tcp_server.cpp\<close>, for any callback; what the system calls return is an
    argument. \<open>ServerRun\<close>: event loop, workers and kernel taking turns, as the step function \<open>server_step\<close> on
    events. \<open>orderly\<close> describes clients that wait for their answers. \<open>IocpServer\<close>: the Windows branches of the same file,
    with the threads of the completion port and the thread that accepts connections.
  \<^item> \<open>Logger\<close>: \<open>logger.h\<close>, with the objects of \<open>spdlog\<close> that it configures.
  \<^item> \<open>Config\<close>: \<open>config.cpp\<close> and the way \<open>server_main.cpp\<close> finds its configuration.
  \<^item> \<open>KvServer\<close>: \<open>kv_server.cpp\<close>, the message handler. Its loop may not end: it is a partial function, and
    the theorems that it returns say so. \<open>spec_cmd\<close> specifies a command on a map.
  \<^item> \<open>KvSystem\<close>: the TCP server with the message handler as its callback. \<open>ServerMain\<close>: the program \<open>kv_server\<close>,
    from its arguments to its exit status.
  \<^item> \<open>CliParser\<close>, \<open>KvClient\<close>: \<open>cli_parser.cpp\<close>, \<open>client.cpp\<close> and \<open>client_main.cpp\<close>. The socket of the client
    is a list of the pieces that \<open>recv\<close> returns.
  \<^item> \<open>ClientServer\<close>: a client and a server at the two ends of a connection, one operation at a time.
  \<^item> \<open>LoadClients\<close>, \<open>EndToEnd\<close>: the programs of \<open>d2dtest/clients\<close>, as trees of the operations they call, and the test
    \<open>d2dtest/run_test.py\<close> that runs them.
  \<^item> This theory: the client's prompt and the server together.

  \<^bold>\<open>What is shown.\<close> On the path without faults: every line typed at the client is answered as a finite map
  would answer it, with bytes cut into pieces in both directions in any way; the server answers
  pipelined commands that are read at once in order; the store that is opened again after a crash has the contents
  it had. With threads: however the event loop and the workers take turns, the clients that wait for their answers
  see one server that executes their commands one at a time, every command is answered, and what they
  wrote survives the end of the process; operations on different keys in different threads all take effect
  and are all recovered; the pool runs every task exactly once. The program ends as \<open>main\<close> means it to, with the
  log on the disk.
  On the path with faults: torn writes, short writes, damaged bytes, crashes at every system call of
  a snapshot. Where the code does not do what it means to do, a theorem shows the behaviour: for
  example a deleted key that comes back, a request on which the handler does not return, commands that are
  executed in the wrong order when a client does not wait, or a destructor of the pool that waits forever.
  The end-to-end test passes in whatever order its clients take turns. On Windows the bytes that are read reach the pool in order, the sockets of ended
  connections stay open, and \<open>Stop\<close> can wait forever for the thread that accepts connections.

  \<^bold>\<open>Bounds.\<close> Keys and values of stored records have fewer than \<open>2 ^ 16\<close> bytes where they are to be read back,
  since the formats have 16-bit lengths; snapshots have fewer than \<open>2 ^ 32\<close> entries; bulk strings are
  short enough for the parser to add their length and terminator as an \<open>int\<close>; buffers have fewer than
  \<open>2 ^ 63\<close> bytes. No function has fuel: all loops are structural or have a termination proof, except
  the loop of the message handler.

  \<^bold>\<open>Not modelled.\<close> The Windows branches of the file wrappers in \<open>wal.cpp\<close> and \<open>snapshot.cpp\<close>, which pass lengths as \<open>unsigned int\<close>;
  on Windows, what \<open>close\<close> does to a file that has the number of a socket; the format of
  log messages and the rotation of the log files; the libraries under \<open>third_party\<close> beyond the state that the code relies on;
  the unit tests and benchmarks. In \<open>ServerRun\<close> and \<open>KvSystem\<close> the handler of a task is one step: the lock of a
  shard orders only the handlers of its connections, and how the operations of the store of two handlers
  interleave is the subject of \<open>ConcurrentStore\<close>. The data races of the program, such as the size of the map
  that is read for a log message without the lock, have no meaning in C++ and are not given one here.
\<close>

section \<open>The client and the server together\<close>



end
